(* ===== verification/Cpp_Prelude.thy ===== *)
theory Cpp_Prelude
  imports Main "HOL-Library.Word" "HOL-Library.AList"
begin

text \<open>
  Shared prelude of the valoserveri development.

  It fixes how C++ is read in HOL: machine integers are words, a computation that
  may throw, fail an assertion, violate a span contract or run into undefined behaviour
  is a value of \<open>'a res\<close> (\<open>Inl\<close> the failure), a \<open>std::string\<close> is a
  \<open>string\<close>, a raw buffer is a \<open>byte list\<close>, an \<open>unordered_map\<close> is an
  association list with distinct keys. The platform is the one of
  \<^verbatim>\<open>src/binaries/example.mk\<close>: g++ on x86-64 Linux, so \<open>char\<close> is signed,
  \<open>int\<close> has 32 bits and \<open>size_t\<close> has 64.

  The second half models the parts of the C and C++ standard library the sources call:
  the \<open>ctype\<close> classification of the C locale, \<open>std::to_string\<close> and
  \<open>std::stoi\<close>, with the round trip between the two.
\<close>

section \<open>Machine types and failures\<close>

type_synonym byte = "8 word"
type_synonym u16 = "16 word"
type_synonym u32 = "32 word"
type_synonym u64 = "64 word"

datatype cpp_error =
    Assertion_failure
  | Runtime_error string
  | Invalid_argument
  | Out_of_range
  | System_error string
  | Type_error nat string
  | Terminate
  | Undefined_behaviour

type_synonym 'a res = "cpp_error + 'a"

named_theorems res_simps \<open>equations and splits of the result type\<close>
named_theorems eval_simps \<open>evaluation of library code on closed terms\<close>

definition bind_res :: "'a res \<Rightarrow> ('a \<Rightarrow> 'b res) \<Rightarrow> 'b res" where
  "bind_res m f = (case m of Inl e \<Rightarrow> Inl e | Inr x \<Rightarrow> f x)"

definition assert_that :: "bool \<Rightarrow> unit res" where
  "assert_that b = (if b then Inr () else Inl Assertion_failure)"

text \<open>A range-based \<open>for\<close> loop: the body runs on each element in order and the first
  failure leaves the loop.\<close>

fun for_each :: "('a \<Rightarrow> 's \<Rightarrow> 's res) \<Rightarrow> 'a list \<Rightarrow> 's \<Rightarrow> 's res" where
  "for_each f [] s = Inr s"
| "for_each f (x # xs) s = bind_res (f x s) (for_each f xs)"

text \<open>\<open>operator[]\<close> of \<open>std::vector\<close>: no check, so an index outside the vector is
  undefined behaviour.\<close>

definition vec_get :: "'a list \<Rightarrow> nat \<Rightarrow> 'a res" where
  "vec_get v i = (if i < length v then Inr (v ! i) else Inl Undefined_behaviour)"

definition vec_set :: "'a list \<Rightarrow> nat \<Rightarrow> 'a \<Rightarrow> 'a list res" where
  "vec_set v i x = (if i < length v then Inr (v[i := x]) else Inl Undefined_behaviour)"

text \<open>\<open>emplace\<close> of \<open>std::unordered_map\<close>: an existing entry is kept.\<close>

definition map_emplace :: "'k \<Rightarrow> 'v \<Rightarrow> ('k \<times> 'v) list \<Rightarrow> ('k \<times> 'v) list" where
  "map_emplace k v m = (case map_of m k of None \<Rightarrow> m @ [(k, v)] | Some _ \<Rightarrow> m)"

text \<open>The loop that looks a string up in a table of names and returns the index.\<close>

fun index_of_name :: "nat \<Rightarrow> string list \<Rightarrow> string \<Rightarrow> nat option" where
  "index_of_name i [] str = None"
| "index_of_name i (name # names) str =
     (if str = name then Some i else index_of_name (i + 1) names str)"

section \<open>Characters, bytes and numbers of the standard library\<close>

definition char_of_byte :: "byte \<Rightarrow> char" where
  "char_of_byte b = char_of (unat b)"

definition byte_of_char :: "char \<Rightarrow> byte" where
  "byte_of_char c = of_nat (of_char c)"

definition string_of_bytes :: "byte list \<Rightarrow> string" where
  "string_of_bytes bs = map char_of_byte bs"

definition bytes_of_string :: "string \<Rightarrow> byte list" where
  "bytes_of_string s = map byte_of_char s"

text \<open>A \<open>std::string\<close> seen through \<open>c_str()\<close> ends at its first NUL.\<close>

definition c_str :: "string \<Rightarrow> string" where
  "c_str s = takeWhile (\<lambda>c. c \<noteq> CHR 0x00) s"

definition isspace :: "char \<Rightarrow> bool" where
  "isspace c = (let n = of_char c :: nat in n = 32 \<or> (9 \<le> n \<and> n \<le> 13))"

definition isdigit :: "char \<Rightarrow> bool" where
  "isdigit c = (let n = of_char c :: nat in 48 \<le> n \<and> n \<le> 57)"

definition tolower :: "char \<Rightarrow> char" where
  "tolower c = (let n = of_char c :: nat in if 65 \<le> n \<and> n \<le> 90 then char_of (n + 32) else c)"

definition digit_char :: "nat \<Rightarrow> char" where
  "digit_char d = char_of (48 + d)"

fun to_string :: "nat \<Rightarrow> string" where
  "to_string n = (if n < 10 then [digit_char n] else to_string (n div 10) @ [digit_char (n mod 10)])"

declare to_string.simps [simp del]

definition int_to_string :: "int \<Rightarrow> string" where
  "int_to_string z = (if z < 0 then ''-'' @ to_string (nat (- z)) else to_string (nat z))"

fun digits_value :: "nat \<Rightarrow> string \<Rightarrow> nat" where
  "digits_value acc [] = acc"
| "digits_value acc (c # cs) = digits_value (10 * acc + (of_char c - 48)) cs"

text \<open>\<open>std::stoi\<close>: leading white space, an optional sign, decimal digits, anything
  after them ignored; no digit is \<open>std::invalid_argument\<close>, a value outside \<open>int\<close> is
  \<open>std::out_of_range\<close>.\<close>

definition split_sign :: "string \<Rightarrow> bool \<times> string" where
  "split_sign s =
     (case s of
        [] \<Rightarrow> (False, [])
      | c # cs \<Rightarrow> if c = CHR ''-'' then (True, cs) else if c = CHR ''+'' then (False, cs) else (False, s))"

definition stoi :: "string \<Rightarrow> int res" where
  "stoi s =
     (let (negative, rest) = split_sign (dropWhile isspace s);
          digits = takeWhile isdigit rest;
          magnitude = int (digits_value 0 digits);
          v = (if negative then - magnitude else magnitude)
      in if digits = [] then Inl Invalid_argument
         else if v < - (2 ^ 31) \<or> 2 ^ 31 - 1 < v then Inl Out_of_range
         else Inr v)"

section \<open>Lemmas on results and loops\<close>

lemma bind_res_simps [simp, res_simps]:
  "bind_res (Inl e) f = Inl e"
  "bind_res (Inr x) f = f x"
  by (simp_all add: bind_res_def)

lemma bind_res_eq_Inr [res_simps]: "bind_res m f = Inr y \<longleftrightarrow> (\<exists>x. m = Inr x \<and> f x = Inr y)"
  by (cases m) simp_all

lemma bind_res_InrE:
  assumes "bind_res m f = Inr y"
  obtains x where "m = Inr x" and "f x = Inr y"
  using assms by (auto simp: bind_res_eq_Inr)

lemma bind_res_assoc: "bind_res (bind_res m f) g = bind_res m (\<lambda>x. bind_res (f x) g)"
  by (cases m) simp_all

lemma bind_res_cong [fundef_cong]:
  "m = m' \<Longrightarrow> (\<And>x. m' = Inr x \<Longrightarrow> f x = f' x) \<Longrightarrow> bind_res m f = bind_res m' f'"
  by (cases m') (simp_all add: bind_res_def)

lemma assert_that_simps [simp]:
  "assert_that True = Inr ()"
  "assert_that False = Inl Assertion_failure"
  "assert_that b = Inr u \<longleftrightarrow> b"
  by (simp_all add: assert_that_def)

lemma for_each_append:
  "for_each f (xs @ ys) s = bind_res (for_each f xs s) (for_each f ys)"
proof (induction xs arbitrary: s)
  case (Cons x xs)
  then show ?case by (cases "f x s") simp_all
qed simp

text \<open>A loop whose body never fails on the states the invariant allows is a \<open>fold\<close>.\<close>

lemma for_each_fold:
  assumes "P s" and "\<And>x s. x \<in> set xs \<Longrightarrow> P s \<Longrightarrow> f x s = Inr (g x s) \<and> P (g x s)"
  shows "for_each f xs s = Inr (fold g xs s) \<and> P (fold g xs s)"
  using assms by (induction xs arbitrary: s) simp_all

lemma for_each_invariant:
  assumes "for_each f xs s = Inr t" and "P s"
    and "\<And>x s t. x \<in> set xs \<Longrightarrow> f x s = Inr t \<Longrightarrow> P s \<Longrightarrow> P t"
  shows "P t"
  using assms
proof (induction xs arbitrary: s)
  case Nil
  then show ?case by simp
next
  case (Cons x xs)
  from Cons.prems(1) obtain u where u: "f x s = Inr u" "for_each f xs u = Inr t"
    by (auto simp: bind_res_eq_Inr)
  then have "P u" using Cons.prems(2,3) by (metis list.set_intros(1))
  with u(2) show ?case using Cons.IH Cons.prems(3) by (metis list.set_intros(2))
qed

lemma vec_get_in [simp]: "i < length v \<Longrightarrow> vec_get v i = Inr (v ! i)"
  by (simp add: vec_get_def)

lemma vec_set_in [simp]: "i < length v \<Longrightarrow> vec_set v i x = Inr (v[i := x])"
  by (simp add: vec_set_def)

lemma vec_set_eq_Inr: "vec_set v i x = Inr w \<longleftrightarrow> i < length v \<and> w = v[i := x]"
  by (auto simp: vec_set_def)

lemma map_of_map_emplace:
  "map_of (map_emplace k v m) = (if map_of m k = None then (map_of m)(k \<mapsto> v) else map_of m)"
  by (rule ext) (auto simp: map_emplace_def map_add_def split: option.splits)

lemma distinct_map_emplace:
  "distinct (map fst m) \<Longrightarrow> distinct (map fst (map_emplace k v m))"
  by (auto simp: map_emplace_def map_of_eq_None_iff split: option.splits)

text \<open>A separator that the last parts do not contain splits both sides alike.\<close>

lemma append_last_sep_iff:
  assumes "x \<notin> set b" and "x \<notin> set d"
  shows "a @ x # b = c @ x # d \<longleftrightarrow> a = c \<and> b = d"
  using assms by (auto simp: append_eq_append_conv2 append_eq_Cons_conv Cons_eq_append_conv)

lemma unat_of_nat_u32: "a < 2 ^ 32 \<Longrightarrow> unat (of_nat a :: u32) = a"
  by (simp add: unat_of_nat)

lemma of_nat_u32_eq_iff: "a < 2 ^ 32 \<Longrightarrow> b < 2 ^ 32 \<Longrightarrow> (of_nat a :: u32) = of_nat b \<longleftrightarrow> a = b"
  by (metis unat_of_nat_u32)

section \<open>Lemmas on characters and numbers\<close>

lemma char_of_eval [eval_simps]: "char_of (n :: nat) =
    Char (odd n) (bit n 1) (bit n 2) (bit n 3) (bit n 4) (bit n 5) (bit n 6) (bit n 7)"
  by (simp add: char_of_def bit_0)

declare bit_0 [eval_simps]

lemma char_of_byte_inverse [simp]: "byte_of_char (char_of_byte b) = b"
proof -
  have "unat b < 2 ^ LENGTH(8)" by (rule unsigned_less)
  then show ?thesis by (simp add: byte_of_char_def char_of_byte_def)
qed

lemma byte_of_char_inverse [simp]: "char_of_byte (byte_of_char c) = c"
  by (simp add: byte_of_char_def char_of_byte_def unat_of_nat)

lemma char_of_byte_inject [simp]: "char_of_byte a = char_of_byte b \<longleftrightarrow> a = b"
  by (metis char_of_byte_inverse)

lemma char_of_byte_0 [simp]: "char_of_byte 0 = CHR 0x00"
  by (simp add: char_of_byte_def eval_simps)

lemma char_of_byte_NUL_iff [simp]: "char_of_byte b = CHR 0x00 \<longleftrightarrow> b = 0"
  by (metis char_of_byte_0 char_of_byte_inject)

lemma string_bytes_inverse [simp]: "string_of_bytes (bytes_of_string s) = s"
  by (induction s) (simp_all add: string_of_bytes_def bytes_of_string_def)

lemma bytes_string_inverse [simp]: "bytes_of_string (string_of_bytes bs) = bs"
  by (induction bs) (simp_all add: string_of_bytes_def bytes_of_string_def)

lemma length_bytes_of_string [simp]: "length (bytes_of_string s) = length s"
  by (simp add: bytes_of_string_def)

lemma c_str_no_NUL: "CHR 0x00 \<notin> set s \<Longrightarrow> c_str s = s"
  by (auto simp: c_str_def takeWhile_eq_all_conv)

lemma of_char_digit_char [simp]: "d < 10 \<Longrightarrow> (of_char (digit_char d) :: nat) = 48 + d"
  by (simp add: digit_char_def)

lemma isdigit_digit_char [simp]: "d < 10 \<Longrightarrow> isdigit (digit_char d)"
  by (simp add: isdigit_def)

lemma isdigit_not_isspace [simp]: "isdigit c \<Longrightarrow> \<not> isspace c"
  by (auto simp: isdigit_def isspace_def Let_def)

lemma to_string_digits: "\<forall>c \<in> set (to_string n). isdigit c"
proof (induction n rule: to_string.induct)
  case (1 n)
  then show ?case by (subst to_string.simps) auto
qed

lemma to_string_nonempty [simp]: "to_string n \<noteq> []"
  by (subst to_string.simps) simp

lemma digits_value_append: "digits_value acc (s @ t) = digits_value (digits_value acc s) t"
  by (induction acc s rule: digits_value.induct) simp_all

lemma digits_value_to_string: "digits_value 0 (to_string n) = n"
proof (induction n rule: to_string.induct)
  case (1 n)
  show ?case
  proof (cases "n < 10")
    case True
    then show ?thesis by (subst to_string.simps) simp
  next
    case False
    then have "digits_value 0 (to_string n) =
        digits_value (digits_value 0 (to_string (n div 10))) [digit_char (n mod 10)]"
      by (subst to_string.simps) (simp add: digits_value_append)
    also have "\<dots> = n" using "1.IH" False by simp
    finally show ?thesis .
  qed
qed

lemma to_string_inject [simp]: "to_string m = to_string n \<longleftrightarrow> m = n"
  by (metis digits_value_to_string)

lemma split_sign_digit: "s \<noteq> [] \<Longrightarrow> isdigit (hd s) \<Longrightarrow> split_sign s = (False, s)"
  by (cases s) (auto simp: split_sign_def isdigit_def)

lemma stoi_to_string: "n < 2 ^ 31 \<Longrightarrow> stoi (to_string n) = Inr (int n)"
proof -
  assume n: "n < 2 ^ 31"
  have hd: "isdigit (hd (to_string n))" using to_string_digits [of n] by simp
  then have "dropWhile isspace (to_string n) = to_string n"
    by (metis dropWhile_eq_self_iff isdigit_not_isspace)
  moreover have "split_sign (to_string n) = (False, to_string n)"
    by (rule split_sign_digit) (simp_all add: hd)
  moreover have "takeWhile isdigit (to_string n) = to_string n"
    using to_string_digits by (simp add: takeWhile_eq_all_conv)
  ultimately show ?thesis using n by (simp add: stoi_def digits_value_to_string del: takeWhile_eq_all_conv)
qed

section \<open>Overwriting a part of a list\<close>

definition overwrite :: "nat \<Rightarrow> 'a list \<Rightarrow> 'a list \<Rightarrow> 'a list" where
  "overwrite k xs ys = take k ys @ xs @ drop (k + length xs) ys"

lemma overwrite_Nil [simp]: "overwrite k [] ys = ys"
  by (simp add: overwrite_def)

lemma overwrite_Cons:
  "k < length ys \<Longrightarrow> overwrite k (x # xs) ys = overwrite (k + 1) xs (ys[k := x])"
  by (simp add: overwrite_def take_Suc_conv_app_nth)

lemma overwrite_snoc:
  assumes "k + length xs < length ys"
  shows "overwrite k (xs @ [y]) ys = overwrite k xs (ys[k + length xs := y])"
  using assms by (simp add: overwrite_def drop_update_swap Cons_nth_drop_Suc [symmetric])

lemma length_overwrite [simp]: "k + length xs \<le> length ys \<Longrightarrow> length (overwrite k xs ys) = length ys"
  by (simp add: overwrite_def)

lemma nth_overwrite:
  assumes "k + length xs \<le> length ys" and "i < length ys"
  shows "overwrite k xs ys ! i = (if k \<le> i \<and> i < k + length xs then xs ! (i - k) else ys ! i)"
  using assms by (auto simp: overwrite_def nth_append min_def)

text \<open>The window of \<open>n\<close> bytes at \<open>k\<close>.\<close>

definition window :: "nat \<Rightarrow> nat \<Rightarrow> 'a list \<Rightarrow> 'a list" where
  "window k n ys = take n (drop k ys)"

lemma window_overwrite_same:
  "k + length xs \<le> length ys \<Longrightarrow> window k (length xs) (overwrite k xs ys) = xs"
  by (simp add: window_def overwrite_def)

lemma window_overwrite_other:
  assumes "k + length xs \<le> length ys" and "j + n \<le> k \<or> k + length xs \<le> j"
  shows "window j n (overwrite k xs ys) = window j n ys"
proof (rule nth_equalityI)
  show "length (window j n (overwrite k xs ys)) = length (window j n ys)"
    using assms(1) by (simp add: window_def)
  fix i assume "i < length (window j n (overwrite k xs ys))"
  then have "i < n" "j + i < length ys" using assms(1) by (auto simp: window_def)
  then show "window j n (overwrite k xs ys) ! i = window j n ys ! i"
    using assms by (auto simp: window_def nth_overwrite)
qed

section \<open>Operations that succeed\<close>

definition succeeds :: "('a \<Rightarrow> bool) \<Rightarrow> 'a res \<Rightarrow> bool" where
  "succeeds P m \<longleftrightarrow> (case m of Inl e \<Rightarrow> False | Inr x \<Rightarrow> P x)"

lemma succeeds_simps [simp]: "succeeds P (Inr x) = P x" "\<not> succeeds P (Inl e)"
  by (simp_all add: succeeds_def)

lemma succeeds_iff: "succeeds P m \<longleftrightarrow> (\<exists>x. m = Inr x \<and> P x)"
  by (cases m) simp_all

lemma succeeds_bind: "succeeds Q m \<Longrightarrow> (\<And>x. Q x \<Longrightarrow> succeeds P (f x)) \<Longrightarrow> succeeds P (bind_res m f)"
  by (cases m) simp_all

lemma succeeds_mono: "succeeds Q m \<Longrightarrow> (\<And>x. Q x \<Longrightarrow> P x) \<Longrightarrow> succeeds P m"
  by (cases m) simp_all

lemma succeeds_assert [simp]: "succeeds P (assert_that b) \<longleftrightarrow> b \<and> P ()"
  by (cases b) simp_all

lemma succeeds_for_each:
  "P s \<Longrightarrow> (\<And>x s. x \<in> set xs \<Longrightarrow> P s \<Longrightarrow> succeeds P (f x s)) \<Longrightarrow> succeeds P (for_each f xs s)"
proof (induction xs arbitrary: s)
  case (Cons x xs)
  then have "succeeds P (f x s)" by simp
  then show ?case unfolding for_each.simps by (rule succeeds_bind) (use Cons in simp)
qed simp

text \<open>Operations that fail in known ways only: an error is one of those the first predicate allows.\<close>

definition fails_only :: "(cpp_error \<Rightarrow> bool) \<Rightarrow> ('a \<Rightarrow> bool) \<Rightarrow> 'a res \<Rightarrow> bool" where
  "fails_only E P m \<longleftrightarrow> (case m of Inl e \<Rightarrow> E e | Inr x \<Rightarrow> P x)"

lemma fails_only_simps [simp]: "fails_only E P (Inr x) = P x" "fails_only E P (Inl e) = E e"
  by (simp_all add: fails_only_def)

lemma fails_only_mono:
  "fails_only D Q m \<Longrightarrow> (\<And>e. D e \<Longrightarrow> E e) \<Longrightarrow> (\<And>x. Q x \<Longrightarrow> P x) \<Longrightarrow> fails_only E P m"
  by (cases m) simp_all

lemma fails_only_bind:
  "fails_only E Q m \<Longrightarrow> (\<And>x. Q x \<Longrightarrow> fails_only E P (f x)) \<Longrightarrow> fails_only E P (bind_res m f)"
  by (cases m) simp_all

lemma succeeds_fails_only: "succeeds P m \<Longrightarrow> fails_only E P m"
  by (cases m) simp_all

lemma fails_only_succeeds: "fails_only E P m \<Longrightarrow> (\<And>e. \<not> E e) \<Longrightarrow> succeeds P m"
  by (cases m) simp_all

lemma fails_only_bind_succeeds:
  "succeeds Q m \<Longrightarrow> (\<And>x. Q x \<Longrightarrow> fails_only E P (f x)) \<Longrightarrow> fails_only E P (bind_res m f)"
  by (cases m) simp_all

lemma fails_only_for_each:
  "P s \<Longrightarrow> (\<And>x s. x \<in> set xs \<Longrightarrow> P s \<Longrightarrow> fails_only E P (f x s)) \<Longrightarrow> fails_only E P (for_each f xs s)"
proof (induction xs arbitrary: s)
  case (Cons x xs)
  then have "fails_only E P (f x s)" by simp
  then show ?case unfolding for_each.simps by (rule fails_only_bind) (use Cons in simp)
qed simp

section \<open>Loops with fuel\<close>

text \<open>A computation with loops: \<open>None\<close> when a loop has not ended within its fuel.\<close>

type_synonym 'a run = "'a res option"

definition bind_run :: "'a run \<Rightarrow> ('a \<Rightarrow> 'b run) \<Rightarrow> 'b run" where
  "bind_run m f = (case m of None \<Rightarrow> None | Some (Inl e) \<Rightarrow> Some (Inl e) | Some (Inr x) \<Rightarrow> f x)"

lemma bind_run_simps [simp]:
  "bind_run None f = None" "bind_run (Some (Inl e)) f = Some (Inl e)" "bind_run (Some (Inr x)) f = f x"
  by (simp_all add: bind_run_def)

lemma bind_run_cong [fundef_cong]:
  "m = m' \<Longrightarrow> (\<And>x. m' = Some (Inr x) \<Longrightarrow> f x = f' x) \<Longrightarrow> bind_run m f = bind_run m' f'"
  by (simp add: bind_run_def split: option.split sum.split)

text \<open>It ends, and without an error.\<close>

definition returns :: "('a \<Rightarrow> bool) \<Rightarrow> 'a run \<Rightarrow> bool" where
  "returns P m \<longleftrightarrow> (case m of Some (Inr x) \<Rightarrow> P x | _ \<Rightarrow> False)"

lemma returns_simps [simp]:
  "returns P (Some (Inr x)) = P x" "\<not> returns P (Some (Inl e))" "\<not> returns P None" "returns P (Some m) = succeeds P m"
  by (simp_all add: returns_def succeeds_def split: sum.split)

lemma returns_iff: "returns P m \<longleftrightarrow> (\<exists>x. m = Some (Inr x) \<and> P x)"
  by (auto simp: returns_def split: option.splits sum.splits)

lemma returns_bind: "returns Q m \<Longrightarrow> (\<And>x. Q x \<Longrightarrow> returns P (f x)) \<Longrightarrow> returns P (bind_run m f)"
  by (auto simp: returns_iff)

lemma returns_mono: "returns Q m \<Longrightarrow> (\<And>x. Q x \<Longrightarrow> P x) \<Longrightarrow> returns P m"
  by (auto simp: returns_iff)

end
