(* ===== verification/Inih.thy ===== *)
theory Inih
  imports Cpp_Prelude
begin

text \<open>
  Model of the INI parser and of the class \<open>INIReader\<close> that valoserveri ships in
  \<^verbatim>\<open>src/foreign/inih/INIReader.h\<close> and reads its configuration with.

  C strings are \<open>string\<close>s without the terminating NUL; a pointer into a line is the rest of
  the line from it, so writing a NUL at a pointer keeps the part before it. The compile-time
  options have their defaults: multi-line values, a BOM and inline comments after \<open>;\<close> are
  allowed, lines are read with \<open>fgets\<close> into 200 bytes, parsing goes on after an error.
  A file is \<open>None\<close> when \<open>fopen\<close> fails and its bytes otherwise.

  \<open>ini_line\<close> is the body of the loop of \<open>ini_parse_stream\<close>; the handler is a parameter
  of it, as in the code, and \<open>ValueHandler\<close> is the one \<open>INIReader\<close> passes.
\<close>

section \<open>Character and string helpers\<close>

definition INI_MAX_LINE :: nat where "INI_MAX_LINE = 200"
definition MAX_SECTION :: nat where "MAX_SECTION = 50"
definition MAX_NAME :: nat where "MAX_NAME = 50"
definition INI_INLINE_COMMENT_PREFIXES :: string where "INI_INLINE_COMMENT_PREFIXES = '';''"

definition newline :: char where "newline = CHR 0x0A"

function rstrip :: "string \<Rightarrow> string" where
  "rstrip s = (if s \<noteq> [] \<and> isspace (last s) then rstrip (butlast s) else s)"
  by pat_completeness auto
termination by (relation "measure length") auto

declare rstrip.simps [simp del]

fun lskip :: "string \<Rightarrow> string" where
  "lskip [] = []"
| "lskip (c # s) = (if isspace c then lskip s else c # s)"

text \<open>The result is the part before the returned pointer and the part from it on.
  \<open>chars = None\<close> is the null pointer.\<close>

fun find_chars_or_comment_from :: "bool \<Rightarrow> string option \<Rightarrow> string \<Rightarrow> string \<times> string" where
  "find_chars_or_comment_from was_space chars [] = ([], [])"
| "find_chars_or_comment_from was_space chars (c # s) =
     (if (case chars of None \<Rightarrow> True | Some cs \<Rightarrow> c \<notin> set cs) \<and>
         \<not> (was_space \<and> c \<in> set INI_INLINE_COMMENT_PREFIXES)
      then (let (p, q) = find_chars_or_comment_from (isspace c) chars s in (c # p, q))
      else ([], c # s))"

definition find_chars_or_comment :: "string \<Rightarrow> string option \<Rightarrow> string \<times> string" where
  "find_chars_or_comment s chars = find_chars_or_comment_from False chars s"

definition strncpy0 :: "string \<Rightarrow> nat \<Rightarrow> string" where
  "strncpy0 src n = take (n - 1) src"

text \<open>\<open>fgets\<close>: at most \<open>num - 1\<close> bytes, up to and including a newline; \<open>None\<close> at the
  end of the file.\<close>

fun take_line :: "nat \<Rightarrow> string \<Rightarrow> string \<times> string" where
  "take_line 0 s = ([], s)"
| "take_line (Suc n) [] = ([], [])"
| "take_line (Suc n) (c # s) =
     (if c = newline then ([c], s) else (let (l, r) = take_line n s in (c # l, r)))"

definition fgets :: "nat \<Rightarrow> string \<Rightarrow> (string \<times> string) option" where
  "fgets num stream = (if stream = [] then None else Some (take_line (num - 1) stream))"

section \<open>The parser\<close>

record 'u ini_state =
  section_name :: string
  prev_name :: string
  lineno :: int
  parse_error :: int
  user :: 'u

type_synonym 'u ini_handler = "'u \<Rightarrow> string \<Rightarrow> string \<Rightarrow> string \<Rightarrow> 'u \<times> bool"

definition set_error :: "'u ini_state \<Rightarrow> 'u ini_state" where
  "set_error st = (if parse_error st = 0 then st\<lparr>parse_error := lineno st\<rparr> else st)"

definition call_handler :: "'u ini_handler \<Rightarrow> string \<Rightarrow> string \<Rightarrow> 'u ini_state \<Rightarrow> 'u ini_state" where
  "call_handler handler name value st =
     (let (u, ok) = handler (user st) (section_name st) name value;
          st' = st\<lparr>user := u\<rparr>
      in if \<not> ok then set_error st' else st')"

definition starts_with :: "char \<Rightarrow> string \<Rightarrow> bool" where
  "starts_with c s = (case s of [] \<Rightarrow> False | d # _ \<Rightarrow> d = c)"

definition BOM :: string where "BOM = [CHR 0xEF, CHR 0xBB, CHR 0xBF]"

text \<open>A value ends at an inline comment and loses its trailing white space.\<close>

definition cut_value :: "string \<Rightarrow> string" where
  "cut_value s = rstrip (fst (find_chars_or_comment s None))"

definition ini_line :: "'u ini_handler \<Rightarrow> string \<Rightarrow> 'u ini_state \<Rightarrow> 'u ini_state" where
  "ini_line handler buffer st0 =
     (let st = st0\<lparr>lineno := lineno st0 + 1\<rparr>;
          line = c_str buffer;
          bom = (lineno st = 1 \<and> take 3 line = BOM);
          text = (if bom then drop 3 line else line);
          stripped = rstrip text;
          start = lskip stripped;
          moved = (bom \<or> start \<noteq> stripped)
      in if starts_with (CHR '';'') start \<or> starts_with (CHR ''#'') start then st
         else if prev_name st \<noteq> [] \<and> start \<noteq> [] \<and> moved then
           call_handler handler (prev_name st) (cut_value start) st
         else if starts_with (CHR ''['') start then
           (let (name, endp) = find_chars_or_comment (tl start) (Some '']'')
            in if starts_with (CHR '']'') endp
               then st\<lparr>section_name := strncpy0 name MAX_SECTION, prev_name := []\<rparr>
               else set_error st)
         else if start \<noteq> [] then
           (let (before, endp) = find_chars_or_comment start (Some ''=:'')
            in if starts_with (CHR ''='') endp \<or> starts_with (CHR '':'') endp then
                 (let name = rstrip before;
                      value = cut_value (lskip (tl endp))
                  in call_handler handler name value (st\<lparr>prev_name := strncpy0 name MAX_NAME\<rparr>))
               else set_error st)
         else st)"

lemma length_take_line: "length (snd (take_line n s)) \<le> length s"
  by (induction n s rule: take_line.induct) (auto split: prod.splits)

lemma fgets_shorter: "fgets (Suc (Suc n)) s = Some (l, r) \<Longrightarrow> length r < length s"
proof -
  assume a: "fgets (Suc (Suc n)) s = Some (l, r)"
  then obtain c t where "s = c # t" by (cases s) (auto simp: fgets_def)
  with a length_take_line [of n t] show ?thesis
    by (auto simp: fgets_def split: if_splits prod.splits)
qed

function ini_lines :: "'u ini_handler \<Rightarrow> string \<Rightarrow> 'u ini_state \<Rightarrow> 'u ini_state" where
  "ini_lines handler stream st =
     (case fgets INI_MAX_LINE stream of
        None \<Rightarrow> st
      | Some (line, rest) \<Rightarrow> ini_lines handler rest (ini_line handler line st))"
  by pat_completeness auto
termination
  by (relation "measure (\<lambda>(h, s, st). length s)")
    (auto simp: INI_MAX_LINE_def numeral_eq_Suc dest!: fgets_shorter)

declare ini_lines.simps [simp del]

definition ini_parse_stream :: "'u ini_handler \<Rightarrow> string \<Rightarrow> 'u \<Rightarrow> int \<times> 'u" where
  "ini_parse_stream handler stream u =
     (let st = ini_lines handler stream
                 \<lparr>section_name = [], prev_name = [], lineno = 0, parse_error = 0, user = u\<rparr>
      in (parse_error st, user st))"

definition ini_parse :: "'u ini_handler \<Rightarrow> string option \<Rightarrow> 'u \<Rightarrow> int \<times> 'u" where
  "ini_parse handler file u =
     (case file of None \<Rightarrow> (-1, u) | Some contents \<Rightarrow> ini_parse_stream handler contents u)"

section \<open>The class INIReader\<close>

record ini_reader =
  ini_error :: int
  ini_values :: "string \<rightharpoonup> string"
  ini_sections :: "string set"

definition MakeKey :: "string \<Rightarrow> string \<Rightarrow> string" where
  "MakeKey section name = map tolower (section @ ''='' @ name)"

definition ValueHandler :: "ini_reader ini_handler" where
  "ValueHandler reader section name value =
     (let key = MakeKey section name;
          old = (case ini_values reader key of None \<Rightarrow> [] | Some v \<Rightarrow> v);
          old' = (if 0 < length old then old @ [newline] else old)
      in (reader\<lparr>ini_values := (ini_values reader)(key \<mapsto> old' @ value),
                 ini_sections := insert section (ini_sections reader)\<rparr>, True))"

definition empty_reader :: ini_reader where
  "empty_reader = \<lparr>ini_error = 0, ini_values = Map.empty, ini_sections = {}\<rparr>"

definition INIReader :: "string option \<Rightarrow> ini_reader" where
  "INIReader file =
     (let (err, reader) = ini_parse ValueHandler file empty_reader in reader\<lparr>ini_error := err\<rparr>)"

definition ParseError :: "ini_reader \<Rightarrow> int" where
  "ParseError reader = ini_error reader"

definition ini_Get :: "ini_reader \<Rightarrow> string \<Rightarrow> string \<Rightarrow> string \<Rightarrow> string" where
  "ini_Get reader section name default_value =
     (case ini_values reader (MakeKey section name) of None \<Rightarrow> default_value | Some v \<Rightarrow> v)"

definition GetBoolean :: "ini_reader \<Rightarrow> string \<Rightarrow> string \<Rightarrow> bool \<Rightarrow> bool" where
  "GetBoolean reader section name default_value =
     (let valstr = map tolower (ini_Get reader section name [])
      in if valstr \<in> {''true'', ''yes'', ''on'', ''1''} then True
         else if valstr \<in> {''false'', ''no'', ''off'', ''0''} then False
         else default_value)"

section \<open>Lemmas on the string helpers\<close>

lemma rstrip_Nil [simp]: "rstrip [] = []"
  by (simp add: rstrip.simps)

lemma rstrip_snoc [simp]: "rstrip (s @ [c]) = (if isspace c then rstrip s else s @ [c])"
  by (subst rstrip.simps) simp

lemma rstrip_reference: "rstrip s = rev (dropWhile isspace (rev s))"
  by (induction s rule: rev_induct) simp_all

lemma rstrip_id: "s = [] \<or> \<not> isspace (last s) \<Longrightarrow> rstrip s = s"
  by (subst rstrip.simps) auto

lemma lskip_reference: "lskip s = dropWhile isspace s"
  by (induction s) simp_all

lemma lskip_id: "s = [] \<or> \<not> isspace (hd s) \<Longrightarrow> lskip s = s"
  by (cases s) auto

lemma isspace_newline [simp]: "isspace newline"
  by (simp add: isspace_def newline_def)

lemma starts_with_simps [simp]:
  "\<not> starts_with c []"
  "starts_with c (d # s) \<longleftrightarrow> d = c"
  by (simp_all add: starts_with_def)

text \<open>Both parts of a split make up the string.\<close>

lemma find_chars_or_comment_split:
  "find_chars_or_comment_from w chars s = (p, q) \<Longrightarrow> s = p @ q"
  by (induction w chars s arbitrary: p q rule: find_chars_or_comment_from.induct)
    (auto split: if_splits prod.splits)

text \<open>Without an inline comment in front of it, the first of the searched characters is found.\<close>

lemma find_chars_or_comment_stop:
  assumes "set p \<inter> set cs = {}" and "CHR '';'' \<notin> set p" and "c \<in> set cs" and "c \<noteq> CHR '';''"
  shows "find_chars_or_comment_from w (Some cs) (p @ c # q) = (p, c # q)"
  using assms by (induction p arbitrary: w) (auto simp: INI_INLINE_COMMENT_PREFIXES_def)

lemma find_chars_or_comment_none:
  assumes "CHR '';'' \<notin> set s"
  shows "find_chars_or_comment s None = (s, [])"
proof -
  have "find_chars_or_comment_from w None s = (s, [])" for w
    using assms by (induction s arbitrary: w) (auto simp: INI_INLINE_COMMENT_PREFIXES_def)
  then show ?thesis by (simp add: find_chars_or_comment_def)
qed

lemma take_line_newline:
  "newline \<notin> set l \<Longrightarrow> length l < n \<Longrightarrow> take_line n (l @ newline # r) = (l @ [newline], r)"
proof (induction l arbitrary: n)
  case Nil
  then show ?case by (cases n) simp_all
next
  case (Cons c l)
  then show ?case by (cases n) auto
qed

lemma ini_lines_Nil [simp]: "ini_lines h [] st = st"
  by (simp add: ini_lines.simps fgets_def)

lemma ini_lines_line:
  assumes "newline \<notin> set l" and "length l < 199"
  shows "ini_lines h (l @ newline # r) st = ini_lines h r (ini_line h (l @ [newline]) st)"
  using take_line_newline [OF assms] by (subst ini_lines.simps) (simp add: fgets_def INI_MAX_LINE_def)

section \<open>What one line does\<close>

text \<open>A line that starts in column 0, as the shipped \<^verbatim>\<open>valoserveri.conf.dist\<close> has them.\<close>

definition plain_line :: "string \<Rightarrow> bool" where
  "plain_line l \<longleftrightarrow>
     l \<noteq> [] \<and> \<not> isspace (hd l) \<and> \<not> isspace (last l) \<and> CHR 0x00 \<notin> set l \<and> take 3 l \<noteq> BOM"

lemma c_str_plain: "plain_line l \<Longrightarrow> c_str (l @ [newline]) = l @ [newline]"
  by (rule c_str_no_NUL) (auto simp: plain_line_def newline_def)

lemma take_3_BOM: "take 3 (l @ [newline]) = BOM \<Longrightarrow> take 3 l = BOM"
  by (cases l; cases "tl l"; cases "tl (tl l)") (auto simp: BOM_def newline_def)

lemma ini_line_plain:
  assumes "plain_line l"
  shows "ini_line h (l @ [newline]) st0 =
    (let st = st0\<lparr>lineno := lineno st0 + 1\<rparr> in
     if starts_with (CHR '';'') l \<or> starts_with (CHR ''#'') l then st
     else if starts_with (CHR ''['') l then
       (let (name, endp) = find_chars_or_comment (tl l) (Some '']'')
        in if starts_with (CHR '']'') endp
           then st\<lparr>section_name := strncpy0 name MAX_SECTION, prev_name := []\<rparr>
           else set_error st)
     else
       (let (before, endp) = find_chars_or_comment l (Some ''=:'')
        in if starts_with (CHR ''='') endp \<or> starts_with (CHR '':'') endp then
             (let name = rstrip before; value = cut_value (lskip (tl endp))
              in call_handler h name value (st\<lparr>prev_name := strncpy0 name MAX_NAME\<rparr>))
           else set_error st))"
proof -
  have l: "rstrip l = l" "lskip l = l" "l \<noteq> []" "take 3 (l @ [newline]) \<noteq> BOM"
    using assms take_3_BOM by (auto simp: plain_line_def rstrip_id lskip_id)
  then show ?thesis
    unfolding ini_line_def Let_def c_str_plain [OF assms] by simp
qed

section \<open>Stores of settings\<close>

text \<open>The contract between the parser and its user: a key is put with a value, a repeated key
  appends a line to its value, other keys are not touched. Keys are compared up to a
  normalisation.\<close>

locale settings_store =
  fixes lookup :: "'r \<Rightarrow> 'k \<Rightarrow> string option"
    and put :: "'r \<Rightarrow> 'k \<Rightarrow> string \<Rightarrow> 'r"
    and norm :: "'k \<Rightarrow> 'n"
  assumes lookup_norm: "norm k = norm k' \<Longrightarrow> lookup r k = lookup r k'"
    and put_fresh: "lookup r k = None \<Longrightarrow> lookup (put r k v) k = Some v"
    and put_again: "lookup r k = Some w \<Longrightarrow> w \<noteq> [] \<Longrightarrow> lookup (put r k v) k = Some (w @ newline # v)"
    and put_other: "norm k \<noteq> norm k' \<Longrightarrow> lookup (put r k v) k' = lookup r k'"
begin

lemma puts_other:
  "norm k \<notin> norm ` fst ` set kvs \<Longrightarrow> lookup (fold (\<lambda>(k, v) r. put r k v) kvs r) k = lookup r k"
  by (induction kvs arbitrary: r) (auto simp: put_other)

lemma puts_lookup:
  assumes "distinct (map (norm \<circ> fst) kvs)" and "(k, v) \<in> set kvs" and "lookup r k = None"
  shows "lookup (fold (\<lambda>(k, v) r. put r k v) kvs r) k = Some v"
  using assms
proof (induction kvs arbitrary: r)
  case (Cons kv kvs)
  obtain k1 v1 where kv: "kv = (k1, v1)" by (cases kv)
  show ?case
  proof (cases "norm k1 = norm k")
    case True
    with Cons.prems kv have "(k, v) = (k1, v1)" by (force simp: rev_image_eqI)
    moreover from Cons.prems kv True have "norm k \<notin> norm ` fst ` set kvs" by (auto simp: image_comp)
    ultimately show ?thesis using Cons.prems(3) kv by (simp add: puts_other put_fresh)
  next
    case False
    with Cons.prems kv have "(k, v) \<in> set kvs" "lookup (put r k1 v1) k = None"
      by (auto simp: put_other)
    with Cons.IH Cons.prems(1) kv show ?thesis by simp
  qed
qed simp

end

definition reader_lookup :: "ini_reader \<Rightarrow> string \<times> string \<Rightarrow> string option" where
  "reader_lookup r k = ini_values r (MakeKey (fst k) (snd k))"

definition reader_put :: "ini_reader \<Rightarrow> string \<times> string \<Rightarrow> string \<Rightarrow> ini_reader" where
  "reader_put r k v = fst (ValueHandler r (fst k) (snd k) v)"

interpretation ini_store: settings_store reader_lookup reader_put "\<lambda>(s, n). MakeKey s n"
  by unfold_locales (auto simp: reader_lookup_def reader_put_def ValueHandler_def Let_def)

lemma ini_Get_lookup:
  "ini_Get r s n d = (case reader_lookup r (s, n) of None \<Rightarrow> d | Some v \<Rightarrow> v)"
  by (simp add: ini_Get_def reader_lookup_def)

lemma ValueHandler_ok: "ValueHandler u s n v = (reader_put u (s, n) v, True)"
  by (simp add: reader_put_def ValueHandler_def Let_def)

lemma tolower_eq_sign [simp]: "tolower c = CHR ''='' \<longleftrightarrow> c = CHR ''=''"
proof -
  have eq: "d = CHR ''='' \<longleftrightarrow> of_char d = (61::nat)" for d
    using of_char_eq_iff [of d "CHR ''=''", where 'a = nat] by simp
  show ?thesis unfolding eq by (simp add: tolower_def Let_def)
qed

text \<open>Names come without an equals sign, so the key determines section and name up to case.\<close>

lemma MakeKey_eq_iff:
  assumes "CHR ''='' \<notin> set n" and "CHR ''='' \<notin> set n'"
  shows "MakeKey s n = MakeKey s' n' \<longleftrightarrow> map tolower s = map tolower s' \<and> map tolower n = map tolower n'"
proof -
  have no: "CHR ''='' \<notin> set (map tolower n)" "CHR ''='' \<notin> set (map tolower n')"
    using assms by (auto dest!: sym [of "CHR ''=''"])
  have "tolower (CHR ''='') = CHR ''=''" by simp
  then show ?thesis
    unfolding MakeKey_def by (simp add: append_last_sep_iff [OF no] del: tolower_eq_sign)
qed

section \<open>Parsing a written configuration\<close>

text \<open>A configuration as a list of sections with their entries, and the file it is written as.\<close>

type_synonym ini_config = "(string \<times> (string \<times> string) list) list"

definition section_line :: "string \<Rightarrow> string" where
  "section_line sec = ''['' @ sec @ '']''"

definition pair_line :: "string \<times> string \<Rightarrow> string" where
  "pair_line kv = fst kv @ '' = '' @ snd kv"

definition render_lines :: "string list \<Rightarrow> string" where
  "render_lines ls = concat (map (\<lambda>l. l @ [newline]) ls)"

definition render_ini :: "ini_config \<Rightarrow> string" where
  "render_ini cfg = concat (map (\<lambda>(sec, kvs). render_lines (section_line sec # map pair_line kvs)) cfg)"

definition clean_section :: "string \<Rightarrow> bool" where
  "clean_section sec \<longleftrightarrow>
     length sec < MAX_SECTION \<and> (\<forall>c \<in> set sec. c \<notin> {CHR '']'', CHR '';'', CHR 0x00, newline})"

definition clean_pair :: "string \<times> string \<Rightarrow> bool" where
  "clean_pair kv \<longleftrightarrow>
     fst kv \<noteq> [] \<and> snd kv \<noteq> [] \<and> length (pair_line kv) < 199 \<and>
     (\<forall>c \<in> set (fst kv). \<not> isspace c \<and> c \<notin> set ''=:;#['' \<and> c \<noteq> CHR 0x00 \<and> c \<noteq> CHR 0xEF) \<and>
     \<not> isspace (hd (snd kv)) \<and> \<not> isspace (last (snd kv)) \<and>
     (\<forall>c \<in> set (snd kv). c \<notin> {CHR '';'', CHR 0x00, newline})"

definition clean_config :: "ini_config \<Rightarrow> bool" where
  "clean_config cfg \<longleftrightarrow> (\<forall>(sec, kvs) \<in> set cfg. clean_section sec \<and> (\<forall>kv \<in> set kvs. clean_pair kv))"

text \<open>The settings a configuration makes, in the order of the file.\<close>

definition settings :: "ini_config \<Rightarrow> ((string \<times> string) \<times> string) list" where
  "settings cfg = concat (map (\<lambda>(sec, kvs). map (\<lambda>(n, v). ((sec, n), v)) kvs) cfg)"

lemma isspace_space [simp]: "isspace (CHR '' '')"
  by (simp add: isspace_def)

lemma isspace_brackets [simp]: "\<not> isspace (CHR ''['')" "\<not> isspace (CHR '']'')" "\<not> isspace (CHR ''='')"
  by (simp_all add: isspace_def)

lemma plain_section_line: "clean_section sec \<Longrightarrow> plain_line (section_line sec)"
  by (auto simp: plain_line_def section_line_def clean_section_def BOM_def)

lemma ini_line_section:
  assumes "clean_section sec"
  shows "ini_line h (section_line sec @ [newline]) st =
     st\<lparr>lineno := lineno st + 1, section_name := sec, prev_name := []\<rparr>"
proof -
  have "find_chars_or_comment (sec @ '']'') (Some '']'') = (sec, '']'')"
    unfolding find_chars_or_comment_def
    by (rule find_chars_or_comment_stop) (use assms in \<open>auto simp: clean_section_def\<close>)
  moreover have "strncpy0 sec MAX_SECTION = sec"
    using assms by (simp add: strncpy0_def clean_section_def MAX_SECTION_def)
  ultimately show ?thesis
    unfolding ini_line_plain [OF plain_section_line [OF assms]] by (simp add: section_line_def)
qed

lemma plain_pair_line: "clean_pair kv \<Longrightarrow> plain_line (pair_line kv)"
  by (cases "fst kv") (auto simp: plain_line_def pair_line_def clean_pair_def BOM_def)

lemma clean_pair_newline:
  assumes "clean_pair kv"
  shows "newline \<notin> set (pair_line kv)"
proof -
  have "\<forall>c \<in> set (fst kv). \<not> isspace c" "\<forall>c \<in> set (snd kv). c \<noteq> newline"
    using assms unfolding clean_pair_def by blast+
  then have "newline \<notin> set (fst kv)" "newline \<notin> set (snd kv)" using isspace_newline by blast+
  then show ?thesis by (simp add: pair_line_def newline_def)
qed

lemma ini_line_pair:
  assumes "clean_pair kv"
  shows "ini_line h (pair_line kv @ [newline]) st =
     call_handler h (fst kv) (snd kv)
       (st\<lparr>lineno := lineno st + 1, prev_name := strncpy0 (fst kv) MAX_NAME\<rparr>)"
proof -
  obtain n v where kv: "kv = (n, v)" by (cases kv)
  have n: "n \<noteq> []" "\<forall>c \<in> set n. \<not> isspace c" "\<forall>c \<in> set n. c \<notin> set ''=:;#[''"
    and v: "v \<noteq> []" "\<not> isspace (hd v)" "\<not> isspace (last v)" "CHR '';'' \<notin> set v"
    using assms unfolding clean_pair_def kv by auto
  have "find_chars_or_comment (pair_line kv) (Some ''=:'') = (n @ '' '', ''= '' @ v)"
    using find_chars_or_comment_stop [of "n @ '' ''" "''=:''" "CHR ''=''" False "'' '' @ v"] n(3)
    by (auto simp: find_chars_or_comment_def pair_line_def kv)
  moreover have "rstrip (n @ '' '') = n"
    using n rstrip_id [of n] by simp
  moreover have "cut_value (lskip ('' '' @ v)) = v"
    using v find_chars_or_comment_none [of v] by (simp add: cut_value_def lskip_id rstrip_id)
  moreover have "\<not> starts_with d (pair_line kv)" if "d \<in> {CHR '';'', CHR ''#'', CHR ''[''}" for d
    using n(1,3) that by (cases n) (auto simp: pair_line_def kv)
  ultimately show ?thesis
    unfolding ini_line_plain [OF plain_pair_line [OF assms]] by (simp add: kv)
qed
lemma ini_lines_pairs:
  assumes "\<forall>kv \<in> set kvs. clean_pair kv" and "\<And>u s n v. snd (h u s n v)"
  shows "\<exists>st'. ini_lines h (render_lines (map pair_line kvs) @ r) st = ini_lines h r st' \<and>
     section_name st' = section_name st \<and> parse_error st' = parse_error st \<and>
     user st' = fold (\<lambda>(n, v) u. fst (h u (section_name st) n v)) kvs (user st)"
  using assms(1)
proof (induction kvs arbitrary: st)
  case Nil
  then show ?case by (auto simp: render_lines_def)
next
  case (Cons kv kvs)
  obtain n v where kv: "kv = (n, v)" by (cases kv)
  let ?st = "call_handler h n v (st\<lparr>lineno := lineno st + 1, prev_name := strncpy0 n MAX_NAME\<rparr>)"
  have "newline \<notin> set (pair_line kv)" "length (pair_line kv) < 199"
    using Cons.prems clean_pair_newline [of kv] by (simp_all add: clean_pair_def)
  from ini_lines_line [OF this, of h "render_lines (map pair_line kvs) @ r" st]
  have "ini_lines h (render_lines (map pair_line (kv # kvs)) @ r) st =
      ini_lines h (render_lines (map pair_line kvs) @ r) ?st"
    using ini_line_pair [of kv h st] Cons.prems by (simp add: render_lines_def kv)
  moreover have "section_name ?st = section_name st" "parse_error ?st = parse_error st"
      "user ?st = fst (h (user st) (section_name st) n v)"
    using assms(2) [of "user st" "section_name st" n v]
    by (simp_all add: call_handler_def Let_def split_def)
  ultimately show ?case using Cons.IH [of ?st] Cons.prems by (auto simp: kv)
qed

text \<open>A whole file: no error is reported and the settings are put one after the other.\<close>

lemma ini_lines_config:
  assumes "clean_config cfg"
  shows "\<exists>st'. ini_lines ValueHandler (render_ini cfg) st = st' \<and> parse_error st' = parse_error st \<and>
     user st' = fold (\<lambda>(k, v) r. reader_put r k v) (settings cfg) (user st)"
  using assms
proof (induction cfg arbitrary: st)
  case Nil
  then show ?case by (simp add: render_ini_def settings_def)
next
  case (Cons sk cfg)
  obtain sec kvs where sk: "sk = (sec, kvs)" by (cases sk)
  have clean: "clean_section sec" "\<forall>kv \<in> set kvs. clean_pair kv" "clean_config cfg"
    using Cons.prems by (auto simp: clean_config_def sk)
  let ?st = "st\<lparr>lineno := lineno st + 1, section_name := sec, prev_name := []\<rparr>"
  have line: "newline \<notin> set (section_line sec)" "length (section_line sec) < 199"
    using clean(1) by (auto simp: clean_section_def section_line_def newline_def MAX_SECTION_def)
  have "ini_lines ValueHandler (render_ini (sk # cfg)) st =
      ini_lines ValueHandler (render_lines (map pair_line kvs) @ render_ini cfg) ?st"
    by (simp add: render_ini_def render_lines_def sk ini_lines_line [OF line]
        ini_line_section [OF clean(1)])
  moreover obtain st' where
    "ini_lines ValueHandler (render_lines (map pair_line kvs) @ render_ini cfg) ?st =
       ini_lines ValueHandler (render_ini cfg) st'"
    "parse_error st' = parse_error st"
    "user st' = fold (\<lambda>(n, v) u. reader_put u (sec, n) v) kvs (user st)"
    using ini_lines_pairs [OF clean(2), of ValueHandler "render_ini cfg" ?st]
    by (auto simp: ValueHandler_ok)
  moreover have "fold (\<lambda>(k, v) r. reader_put r k v) (map (\<lambda>(n, v). ((sec, n), v)) kvs) u =
      fold (\<lambda>(n, v) u. reader_put u (sec, n) v) kvs u" for u
    by (simp add: fold_map comp_def split_def)
  ultimately show ?case
    using Cons.IH [OF clean(3), of st'] by (simp add: settings_def sk)
qed

lemma INIReader_render:
  assumes "clean_config cfg"
  shows "reader_lookup (INIReader (Some (render_ini cfg))) =
      reader_lookup (fold (\<lambda>(k, v) r. reader_put r k v) (settings cfg) empty_reader)"
    and "ParseError (INIReader (Some (render_ini cfg))) = 0"
  using ini_lines_config [OF assms, of "\<lparr>section_name = [], prev_name = [], lineno = 0,
      parse_error = 0, user = empty_reader\<rparr>"]
  by (auto simp: INIReader_def ini_parse_def ini_parse_stream_def Let_def ParseError_def
      reader_lookup_def fun_eq_iff)

lemma reader_lookup_empty [simp]: "reader_lookup empty_reader k = None"
  by (simp add: reader_lookup_def empty_reader_def)

lemma reader_lookup_missing_file [simp]: "reader_lookup (INIReader None) k = None"
  by (simp add: INIReader_def ini_parse_def reader_lookup_def empty_reader_def)

section \<open>Properties\<close>

text \<open>C27. Reading back a configuration file: for sections and settings free of the characters with a
  meaning in INI files, with lines short enough for the buffer and names distinct up to case, the
  parser reports no error and every setting is found with its value, whatever the case of the
  names it is asked with.\<close>

theorem ini_roundtrip:
  assumes "clean_config cfg" and "distinct (map ((\<lambda>(s, n). MakeKey s n) \<circ> fst) (settings cfg))"
    and "((sec, name), v) \<in> set (settings cfg)" and "MakeKey sec' name' = MakeKey sec name"
  shows "ini_Get (INIReader (Some (render_ini cfg))) sec' name' d = v \<and> ParseError (INIReader (Some (render_ini cfg))) = 0"
proof -
  have "reader_lookup (INIReader (Some (render_ini cfg))) (sec, name) = Some v"
    unfolding INIReader_render(1) [OF assms(1)] by (rule ini_store.puts_lookup [OF assms(2,3)]) simp
  with ini_store.lookup_norm [of "(sec', name')" "(sec, name)"] assms(4) INIReader_render(2) [OF assms(1)]
  show ?thesis by (simp add: ini_Get_lookup)
qed

theorem ini_roundtrip_witness:
  "ini_Get (INIReader (Some (render_ini [(''global'', [(''lights'', ''36''), (''device'', ''/dev/tty'')])]))) ''GLOBAL'' ''Lights'' [] = ''36''"
proof -
  let ?cfg = "[(''global'', [(''lights'', ''36''), (''device'', ''/dev/tty'')])]"
  have "clean_config ?cfg"
    by (simp add: clean_config_def clean_section_def clean_pair_def MAX_SECTION_def pair_line_def newline_def isspace_def)
  moreover have "distinct (map ((\<lambda>(s, n). MakeKey s n) \<circ> fst) (settings ?cfg))"
    by code_simp
  moreover have "((''global'', ''lights''), ''36'') \<in> set (settings ?cfg)" by (simp add: settings_def)
  moreover have "MakeKey ''GLOBAL'' ''Lights'' = MakeKey ''global'' ''lights''" by code_simp
  ultimately show ?thesis using ini_roundtrip [of ?cfg] by blast
qed

text \<open>Stripping white space in place, from the end by writing NULs and from the front by moving
  the pointer, removes exactly the white space at the ends.\<close>

theorem strip_removes_margins:
  "lskip (rstrip s) = dropWhile isspace (rev (dropWhile isspace (rev s)))"
  by (simp add: rstrip_reference lskip_reference)

end
