(* ===== verification/Config.thy ===== *)
theory Config
  imports Inih
begin

text \<open>
  Model of \<^verbatim>\<open>src/valoserveri/Config.h\<close> and \<^verbatim>\<open>src/valoserveri/Config.cpp\<close>: the
  class \<open>Config\<close>, typed access to the settings an \<open>INIReader\<close> has read.

  A \<open>Config\<close> is its \<open>ConfigImpl\<close>, that is, the reader; \<open>assert(impl)\<close> cannot fail
  because the constructor always sets it. The constructor takes the file system as a
  function from names to contents. The overloads of \<open>get\<close> are \<open>get_string\<close> and
  \<open>get_unsigned\<close>. A parse error of the INI file is not looked at by the code.

  The locale \<open>config_interface\<close> is what the clients of \<open>Config\<close> rely on.
\<close>

section \<open>The class\<close>

record config =
  impl :: ini_reader

definition ConfigImpl :: "(string \<Rightarrow> string option) \<Rightarrow> string \<Rightarrow> ini_reader" where
  "ConfigImpl fs filename = INIReader (fs (c_str filename))"

definition Config :: "(string \<Rightarrow> string option) \<Rightarrow> string \<Rightarrow> config" where
  "Config fs filename = \<lparr>impl = ConfigImpl fs filename\<rparr>"

definition check_names :: "string \<Rightarrow> string \<Rightarrow> unit res" where
  "check_names section key =
     bind_res (assert_that (section \<noteq> [])) (\<lambda>_. assert_that (key \<noteq> []))"

definition get_string :: "config \<Rightarrow> string \<Rightarrow> string \<Rightarrow> string \<Rightarrow> string res" where
  "get_string config section key defaultValue =
     bind_res (check_names section key) (\<lambda>_. Inr (ini_Get (impl config) section key defaultValue))"

definition negative_message :: "string \<Rightarrow> string \<Rightarrow> string" where
  "negative_message section key =
     ''Negative value where unsigned expected in config '' @ section @ ''.'' @ key"

definition get_unsigned :: "config \<Rightarrow> string \<Rightarrow> string \<Rightarrow> u32 \<Rightarrow> u32 res" where
  "get_unsigned config section key defaultValue =
     bind_res (check_names section key) (\<lambda>_.
       let v = ini_Get (impl config) section key [] in
       if v = [] then Inr defaultValue
       else bind_res (stoi v) (\<lambda>parsed.
         if parsed < 0 then Inl (Runtime_error (negative_message section key))
         else Inr (word_of_int parsed)))"

definition bad_bool_message :: "string \<Rightarrow> string \<Rightarrow> string \<Rightarrow> string" where
  "bad_bool_message v section key =
     ''Bad boolean value '' @ [CHR 0x22] @ v @ [CHR 0x22] @ '' in config '' @ section @ ''.'' @ key"

definition getBool :: "config \<Rightarrow> string \<Rightarrow> string \<Rightarrow> bool \<Rightarrow> bool res" where
  "getBool config section key defaultValue =
     bind_res (check_names section key) (\<lambda>_.
       let v = ini_Get (impl config) section key [] in
       if v = [] then Inr defaultValue
       else if v = ''true'' then Inr True
       else if v = ''false'' then Inr False
       else Inl (Runtime_error (bad_bool_message v section key)))"

definition find_first_of :: "char \<Rightarrow> string \<Rightarrow> nat option" where
  "find_first_of c s = (if c \<in> set s then Some (length (takeWhile (\<lambda>d. d \<noteq> c) s)) else None)"

function split_loop :: "string \<Rightarrow> string list \<Rightarrow> string list" where
  "split_loop raw result =
     (case find_first_of (CHR '','') raw of
        Some commaPos \<Rightarrow>
          split_loop (drop (commaPos + 1) raw)
            (if commaPos \<noteq> 0 then result @ [take commaPos raw] else result)
      | None \<Rightarrow> if raw \<noteq> [] then result @ [raw] else result)"
  by pat_completeness auto
termination
  by (relation "measure (\<lambda>(raw, result). length raw)")
    (auto simp: find_first_of_def split: if_splits dest: length_pos_if_in_set)

declare split_loop.simps [simp del]

definition getList :: "config \<Rightarrow> string \<Rightarrow> string \<Rightarrow> string list res" where
  "getList config section key =
     bind_res (get_string config section key []) (\<lambda>raw.
       if raw = [] then Inr [] else Inr (split_loop raw []))"

section \<open>Typed access, branch by branch\<close>

lemma check_names_ok [simp]: "section \<noteq> [] \<Longrightarrow> key \<noteq> [] \<Longrightarrow> check_names section key = Inr ()"
  by (simp add: check_names_def)

lemma check_names_empty: "section = [] \<or> key = [] \<Longrightarrow> check_names section key = Inl Assertion_failure"
  by (auto simp: check_names_def assert_that_def)

text \<open>The reference for lists: split at every comma, drop the empty parts.\<close>

fun split_commas :: "string \<Rightarrow> string list" where
  "split_commas [] = [[]]"
| "split_commas (c # s) =
     (if c = CHR '','' then [] # split_commas s
      else (case split_commas s of [] \<Rightarrow> [[c]] | w # ws \<Rightarrow> (c # w) # ws))"

lemma split_commas_nonempty: "split_commas s \<noteq> []"
  by (induction s) (auto split: list.splits)

lemma split_commas_no_comma: "CHR '','' \<notin> set s \<Longrightarrow> split_commas s = [s]"
  by (induction s) auto

lemma split_commas_comma:
  "CHR '','' \<notin> set p \<Longrightarrow> split_commas (p @ CHR '','' # s) = p # split_commas s"
  by (induction p) auto

lemma find_first_of_Some:
  assumes "find_first_of c s = Some k"
  shows "s = take k s @ c # drop (k + 1) s" and "c \<notin> set (take k s)" and "take k s = [] \<longleftrightarrow> k = 0"
proof -
  from assms have c: "c \<in> set s" and k: "k = length (takeWhile (\<lambda>d. d \<noteq> c) s)"
    by (auto simp: find_first_of_def split: if_splits)
  have tk: "take k s = takeWhile (\<lambda>d. d \<noteq> c) s" unfolding k by (metis takeWhile_eq_take)
  have dr: "drop k s = dropWhile (\<lambda>d. d \<noteq> c) s" unfolding k by (rule dropWhile_eq_drop [symmetric])
  from c have "\<exists>r. dropWhile (\<lambda>d. d \<noteq> c) s = c # r" by (induction s) auto
  then obtain r where r: "dropWhile (\<lambda>d. d \<noteq> c) s = c # r" by blast
  with dr have "drop (k + 1) s = r" by (metis Suc_eq_plus1 drop_Suc list.sel(3) tl_drop)
  with r dr show "s = take k s @ c # drop (k + 1) s" by (metis append_take_drop_id)
  show "c \<notin> set (take k s)" unfolding tk by (auto dest: set_takeWhileD)
  show "take k s = [] \<longleftrightarrow> k = 0" using c by auto
qed

lemma split_loop_reference:
  "split_loop raw result = result @ filter (\<lambda>w. w \<noteq> []) (split_commas raw)"
proof (induction raw result rule: split_loop.induct)
  case (1 raw result)
  show ?case
  proof (cases "find_first_of (CHR '','') raw")
    case None
    then have "split_commas raw = [raw]"
      by (auto simp: find_first_of_def split_commas_no_comma split: if_splits)
    with None show ?thesis by (simp add: split_loop.simps [of raw])
  next
    case (Some k)
    note f = find_first_of_Some [OF Some]
    have "split_commas raw = take k raw # split_commas (drop (k + 1) raw)"
      using split_commas_comma [OF f(2), of "drop (k + 1) raw"] by (simp only: f(1) [symmetric])
    with "1.IH" [OF Some] Some f(3) show ?thesis by (simp add: split_loop.simps [of raw])
  qed
qed

lemma set_split_commas: "w \<in> set (split_commas s) \<Longrightarrow> CHR '','' \<notin> set w"
proof (induction s arbitrary: w)
  case (Cons c s)
  then show ?case by (cases "split_commas s") (auto split: if_splits)
qed simp

section \<open>The interface for clients\<close>

text \<open>What a component that reads its settings relies on: a key without a value yields the
  default, a key with a number below \<open>2 ^ 31\<close> as its value yields that number.\<close>

locale config_interface =
  fixes value_of :: "'c \<Rightarrow> string \<Rightarrow> string \<Rightarrow> string option"
    and get_str :: "'c \<Rightarrow> string \<Rightarrow> string \<Rightarrow> string \<Rightarrow> string res"
    and get_uint :: "'c \<Rightarrow> string \<Rightarrow> string \<Rightarrow> u32 \<Rightarrow> u32 res"
  assumes str_value: "s \<noteq> [] \<Longrightarrow> k \<noteq> [] \<Longrightarrow>
       get_str c s k d = Inr (case value_of c s k of None \<Rightarrow> d | Some v \<Rightarrow> v)"
    and uint_absent: "s \<noteq> [] \<Longrightarrow> k \<noteq> [] \<Longrightarrow> value_of c s k = None \<Longrightarrow> get_uint c s k n = Inr n"
    and uint_number: "s \<noteq> [] \<Longrightarrow> k \<noteq> [] \<Longrightarrow> value_of c s k = Some (to_string m) \<Longrightarrow> m < 2 ^ 31 \<Longrightarrow>
       get_uint c s k n = Inr (of_nat m)"
begin

text \<open>A key holds a number or nothing: reading it does not fail.\<close>

definition numeric :: "'c \<Rightarrow> string \<Rightarrow> string \<Rightarrow> bool" where
  "numeric c s k \<longleftrightarrow> value_of c s k = None \<or> (\<exists>m < 2 ^ 31. value_of c s k = Some (to_string m))"

lemma uint_numeric:
  "s \<noteq> [] \<Longrightarrow> k \<noteq> [] \<Longrightarrow> numeric c s k \<Longrightarrow> \<exists>m. get_uint c s k n = Inr m"
  unfolding numeric_def using uint_absent uint_number by metis

end

definition config_value :: "config \<Rightarrow> string \<Rightarrow> string \<Rightarrow> string option" where
  "config_value config section key = reader_lookup (impl config) (section, key)"

interpretation cfg: config_interface config_value get_string get_unsigned
  by unfold_locales
    (simp_all add: config_value_def get_string_def get_unsigned_def ini_Get_lookup stoi_to_string)

section \<open>Properties\<close>

lemma isdigit_hd_to_string: "isdigit (hd (to_string m))"
  using to_string_digits [of m] by simp

lemma stoi_digits: "stoi (to_string m) = (if m < 2 ^ 31 then Inr (int m) else Inl Out_of_range)"
proof (cases "m < 2 ^ 31")
  case False
  have "dropWhile isspace (to_string m) = to_string m"
    using isdigit_hd_to_string [of m] by (metis dropWhile_eq_self_iff isdigit_not_isspace)
  moreover have "split_sign (to_string m) = (False, to_string m)"
    by (rule split_sign_digit) (simp_all add: isdigit_hd_to_string)
  moreover have "takeWhile isdigit (to_string m) = to_string m"
    using to_string_digits by (simp add: takeWhile_eq_all_conv)
  ultimately show ?thesis using False by (simp add: stoi_def digits_value_to_string del: takeWhile_eq_all_conv)
qed (simp add: stoi_to_string)

lemma stoi_negative: "0 < m \<Longrightarrow> m \<le> 2 ^ 31 \<Longrightarrow> stoi (CHR ''-'' # to_string m) = Inr (- int m)"
proof -
  assume m: "0 < m" "m \<le> 2 ^ 31"
  have "takeWhile isdigit (to_string m) = to_string m"
    using to_string_digits by (simp add: takeWhile_eq_all_conv)
  moreover have "\<not> isspace (CHR ''-'')" by (simp add: isspace_def)
  ultimately show ?thesis
    using m by (simp add: stoi_def split_sign_def digits_value_to_string del: takeWhile_eq_all_conv)
qed

text \<open>C29. An unsigned setting, by its text: a decimal number below \<open>2 ^ 31\<close> is that number, a larger one
  is \<open>std::out_of_range\<close>, a negative one down to \<open>- 2 ^ 31\<close> is rejected by name, and a missing one is
  the default.\<close>

theorem unsigned_setting:
  assumes "s \<noteq> []" and "k \<noteq> []"
  shows "(config_value c s k = None \<longrightarrow> get_unsigned c s k d = Inr d) \<and>
     (\<forall>m. config_value c s k = Some (to_string m) \<longrightarrow>
        get_unsigned c s k d = (if m < 2 ^ 31 then Inr (of_nat m) else Inl Out_of_range)) \<and>
     (\<forall>m. 0 < m \<longrightarrow> m \<le> 2 ^ 31 \<longrightarrow> config_value c s k = Some (CHR ''-'' # to_string m) \<longrightarrow>
        get_unsigned c s k d = Inl (Runtime_error (negative_message s k)))"
  using assms by (auto simp: get_unsigned_def config_value_def ini_Get_lookup stoi_digits stoi_negative)

theorem unsigned_setting_witness:
  "get_unsigned (Config (\<lambda>_. Some (''[a]'' @ newline # ''b = 7'')) ''f'') ''a'' ''b'' 0 = Inr 7"
proof -
  have "config_value (Config (\<lambda>_. Some (''[a]'' @ newline # ''b = 7'')) ''f'') ''a'' ''b'' = Some (to_string 7)"
    by code_simp
  then show ?thesis
    using unsigned_setting [of "''a''" "''b''" "Config (\<lambda>_. Some (''[a]'' @ newline # ''b = 7'')) ''f''" 0,
      THEN conjunct2, THEN conjunct1, THEN spec, of 7]
    by (simp del: append.simps)
qed


text \<open>C30. A list setting is its text cut at every comma, without the empty parts; a missing setting is the
  empty list.\<close>

theorem list_setting:
  assumes "s \<noteq> []" and "k \<noteq> []"
  shows "getList c s k = Inr (case config_value c s k of
     None \<Rightarrow> [] | Some raw \<Rightarrow> filter (\<lambda>w. w \<noteq> []) (split_commas raw))"
  using assms by (auto simp: getList_def cfg.str_value split_loop_reference split: option.splits)

theorem list_setting_witness:
  "getList (Config (\<lambda>_. Some (''[a]'' @ newline # ''b = x,,yz,'')) ''f'') ''a'' ''b'' = Inr [''x'', ''yz'']"
proof -
  have "config_value (Config (\<lambda>_. Some (''[a]'' @ newline # ''b = x,,yz,'')) ''f'') ''a'' ''b'' = Some ''x,,yz,''"
    by code_simp
  then show ?thesis
    using list_setting [of "''a''" "''b''" "Config (\<lambda>_. Some (''[a]'' @ newline # ''b = x,,yz,'')) ''f''"]
    by (simp del: append.simps)
qed

end
