(* ===== verification/Logger.thy ===== *)
theory Logger
  imports Config
begin

text \<open>
  Model of \<^verbatim>\<open>src/valoserveri/Logger.h\<close> and \<^verbatim>\<open>src/valoserveri/Logger.cpp\<close>: log
  levels, \<open>LoggerImpl\<close>, the static pointer \<open>LoggerImpl::global\<close> and the life of a
  \<open>Logger\<close>.

  The log file is the list of the lines written to it, and so is standard output, which the
  rest of the program prints to as well. The text of the time stamp, whether \<open>fopen\<close>
  succeeds and the value of \<open>errno\<close> come from outside and are parameters. A message goes
  through \<open>c_str()\<close>, so it ends at its first NUL.

  The locale \<open>log_sink\<close> is what the other components rely on when they log.
\<close>

section \<open>Levels\<close>

datatype log_level = Debug | Info | Warning | Error

fun level_number :: "log_level \<Rightarrow> nat" where
  "level_number Debug = 0"
| "level_number Info = 1"
| "level_number Warning = 2"
| "level_number Error = 3"

instantiation log_level :: linorder
begin

definition less_eq_log_level :: "log_level \<Rightarrow> log_level \<Rightarrow> bool" where
  "less_eq_log_level a b = (level_number a \<le> level_number b)"

definition less_log_level :: "log_level \<Rightarrow> log_level \<Rightarrow> bool" where
  "less_log_level a b = (level_number a < level_number b)"

instance
proof
  fix x y :: log_level
  assume "x \<le> y" and "y \<le> x"
  then show "x = y" by (cases x; cases y) (simp_all add: less_eq_log_level_def)
qed (auto simp: less_eq_log_level_def less_log_level_def)

end

definition level_of_number :: "nat \<Rightarrow> log_level" where
  "level_of_number i = (if i = 0 then Debug else if i = 1 then Info else if i = 2 then Warning else Error)"

definition levelStrings :: "string list" where
  "levelStrings = [''debug'', ''info'', ''warning'', ''error'']"

definition quoted :: "string \<Rightarrow> string" where
  "quoted s = [CHR 0x22] @ s @ [CHR 0x22]"

definition parseLogLevel :: "string \<Rightarrow> log_level res" where
  "parseLogLevel str =
     (case index_of_name 0 levelStrings str of
        Some i \<Rightarrow> Inr (level_of_number i)
      | None \<Rightarrow> Inl (Runtime_error (''Bad log level '' @ quoted str)))"

section \<open>The logger\<close>

record logger_impl =
  log_filename :: string
  log_file :: "string list"
  log_threshold :: log_level

record log_world =
  global_logger :: "logger_impl option"
  stdout :: "string list"

definition LoggerImpl_message ::
    "log_level \<Rightarrow> string \<Rightarrow> logger_impl \<times> string list \<Rightarrow> logger_impl \<times> string list" where
  "LoggerImpl_message l msg = (\<lambda>(this, out).
     if l < log_threshold this then (this, out)
     else (this\<lparr>log_file := log_file this @ [c_str msg]\<rparr>, out @ [c_str msg]))"

definition LoggerImpl :: "(string \<Rightarrow> bool) \<Rightarrow> string \<Rightarrow> config \<Rightarrow> string list \<Rightarrow> (logger_impl \<times> string list) res" where
  "LoggerImpl fopen_ok now config out =
     bind_res (get_string config ''logging'' ''file'' ''valoserveri.log'') (\<lambda>filename.
     bind_res (get_string config ''logging'' ''level'' ''error'') (\<lambda>name.
     bind_res (parseLogLevel name) (\<lambda>l.
       if \<not> fopen_ok (c_str filename)
       then Inl (System_error (''Failed to open log file '' @ filename))
       else Inr (LoggerImpl_message Info (''Log level '' @ levelStrings ! level_number l)
              (LoggerImpl_message Info (''Log file '' @ filename)
                (LoggerImpl_message Info (''Log started at '' @ now)
                  (\<lparr>log_filename = filename, log_file = [], log_threshold = l\<rparr>, out)))))))"

definition Logger :: "(string \<Rightarrow> bool) \<Rightarrow> string \<Rightarrow> config \<Rightarrow> log_world \<Rightarrow> log_world res" where
  "Logger fopen_ok now config w =
     bind_res (LoggerImpl fopen_ok now config (stdout w)) (\<lambda>(this, out).
     bind_res (assert_that (global_logger w = None)) (\<lambda>_.
       Inr \<lparr>global_logger = Some this, stdout = out\<rparr>))"

text \<open>The destructors: the global pointer is cleared first, then \<open>LoggerImpl\<close> writes its
  last line and closes the file. The final contents of the file are returned.\<close>

definition Logger_destroy :: "string \<Rightarrow> log_world \<Rightarrow> (string list \<times> log_world) res" where
  "Logger_destroy now w =
     (case global_logger w of
        None \<Rightarrow> Inl Assertion_failure
      | Some this \<Rightarrow>
          let (this', out) = LoggerImpl_message Info (''Shutdown at '' @ now) (this, stdout w)
          in Inr (log_file this', \<lparr>global_logger = None, stdout = out\<rparr>))"

definition log_message :: "log_level \<Rightarrow> string \<Rightarrow> log_world \<Rightarrow> log_world res" where
  "log_message l msg w =
     (case global_logger w of
        None \<Rightarrow> Inl Assertion_failure
      | Some this \<Rightarrow>
          let (this', out) = LoggerImpl_message l msg (this, stdout w)
          in Inr \<lparr>global_logger = Some this', stdout = out\<rparr>)"

definition LOG_ERROR :: "string \<Rightarrow> log_world \<Rightarrow> log_world res" where
  "LOG_ERROR msg = log_message Error msg"

definition LOG_WARNING :: "string \<Rightarrow> log_world \<Rightarrow> log_world res" where
  "LOG_WARNING msg = log_message Warning msg"

definition LOG_INFO :: "string \<Rightarrow> log_world \<Rightarrow> log_world res" where
  "LOG_INFO msg = log_message Info msg"

definition LOG_DEBUG :: "string \<Rightarrow> log_world \<Rightarrow> log_world res" where
  "LOG_DEBUG msg = log_message Debug msg"

definition printf :: "string \<Rightarrow> log_world \<Rightarrow> log_world" where
  "printf line w = w\<lparr>stdout := stdout w @ [line]\<rparr>"

section \<open>Levels and their names\<close>

lemma less_log_level_simps [simp]:
  "a < b \<longleftrightarrow> level_number a < level_number b"
  "a \<le> b \<longleftrightarrow> level_number a \<le> level_number b" for a b :: log_level
  by (simp_all add: less_log_level_def less_eq_log_level_def)

lemma level_number_inverse [simp]: "level_of_number (level_number l) = l"
  by (cases l) (simp_all add: level_of_number_def)

lemma parseLogLevel_name: "parseLogLevel (levelStrings ! level_number l) = Inr l"
  by (cases l) (simp_all add: parseLogLevel_def levelStrings_def level_of_number_def)

lemma parseLogLevel_unknown:
  "s \<notin> set levelStrings \<Longrightarrow> parseLogLevel s = Inl (Runtime_error (''Bad log level '' @ quoted s))"
  by (simp add: parseLogLevel_def levelStrings_def)

section \<open>Messages\<close>

definition logger_ready :: "log_world \<Rightarrow> bool" where
  "logger_ready w \<longleftrightarrow> global_logger w \<noteq> None"

text \<open>What other components rely on: with a logger in place a message never fails and leaves
  the logger in place.\<close>

locale log_sink =
  fixes msg :: "'l \<Rightarrow> string \<Rightarrow> 'w \<Rightarrow> 'w res"
    and ready :: "'w \<Rightarrow> bool"
  assumes msg_ready: "ready w \<Longrightarrow> \<exists>w'. msg l s w = Inr w' \<and> ready w'"
begin

lemma msg_ok:
  assumes "ready w"
  obtains w' where "msg l s w = Inr w'" and "ready w'"
  using msg_ready [OF assms] by blast

lemma msg_keeps_ready: "ready w \<Longrightarrow> msg l s w = Inr w' \<Longrightarrow> ready w'"
  using msg_ready [of w l s] by auto

lemma msgs_ready:
  "ready w \<Longrightarrow> \<exists>w'. for_each (\<lambda>(l, s). msg l s) ms w = Inr w' \<and> ready w'"
proof (induction ms arbitrary: w)
  case (Cons m ms)
  obtain w1 where "msg (fst m) (snd m) w = Inr w1" "ready w1"
    using Cons.prems by (rule msg_ok)
  with Cons.IH show ?case by (simp add: split_def)
qed simp

lemma bind_msg:
  assumes "ready w" and "\<And>w'. ready w' \<Longrightarrow> \<exists>y. f w' = Inr y \<and> P y"
  shows "\<exists>y. bind_res (msg l s w) f = Inr y \<and> P y"
  using msg_ready [OF assms(1), of l s] assms(2) by auto

end

interpretation log: log_sink log_message logger_ready
  by unfold_locales (auto simp: logger_ready_def log_message_def Let_def split: prod.splits)

lemma log_message_not_ready: "\<not> logger_ready w \<Longrightarrow> log_message l s w = Inl Assertion_failure"
  by (simp add: logger_ready_def log_message_def)

lemmas LOG_defs = LOG_ERROR_def LOG_WARNING_def LOG_INFO_def LOG_DEBUG_def

lemma log_message_some:
  assumes "global_logger w = Some li"
  shows "log_message l s w = Inr
     (if l < log_threshold li then w
      else w\<lparr>global_logger := Some (li\<lparr>log_file := log_file li @ [c_str s]\<rparr>),
             stdout := stdout w @ [c_str s]\<rparr>)"
  using assms by (simp add: log_message_def LoggerImpl_message_def)

text \<open>A sequence of messages leaves in the file, in order, those at or above the threshold.\<close>

lemma log_messages_file:
  assumes "global_logger w = Some li"
  defines "kept \<equiv> \<lambda>ms. map (c_str \<circ> snd) (filter (\<lambda>m. log_threshold li \<le> fst m) ms)"
  shows "for_each (\<lambda>(l, s). log_message l s) ms w =
     Inr (w\<lparr>global_logger := Some (li\<lparr>log_file := log_file li @ kept ms\<rparr>),
            stdout := stdout w @ kept ms\<rparr>)"
  using assms(1) unfolding kept_def
proof (induction ms arbitrary: w li)
  case Nil
  then show ?case by simp
next
  case (Cons m ms)
  obtain l s where m: "m = (l, s)" by (cases m)
  show ?case
  proof (cases "l < log_threshold li")
    case True
    with Cons.IH [OF Cons.prems] log_message_some [OF Cons.prems, of l s] m show ?thesis by simp
  next
    case False
    let ?li = "li\<lparr>log_file := log_file li @ [c_str s]\<rparr>"
    from False log_message_some [OF Cons.prems, of l s] m
      Cons.IH [of "w\<lparr>global_logger := Some ?li, stdout := stdout w @ [c_str s]\<rparr>" ?li]
    show ?thesis by simp
  qed
qed

section \<open>Properties\<close>

definition kept :: "log_level \<Rightarrow> (log_level \<times> string) list \<Rightarrow> string list" where
  "kept threshold ms = map (c_str \<circ> snd) (filter (\<lambda>m. threshold \<le> fst m) ms)"

lemma LoggerImpl_message_kept:
  "LoggerImpl_message l s (li, out) =
     (li\<lparr>log_file := log_file li @ kept (log_threshold li) [(l, s)]\<rparr>, out @ kept (log_threshold li) [(l, s)])"
  by (auto simp: LoggerImpl_message_def kept_def)

text \<open>C28. Over the life of the logger, from its constructor over any messages to its destructor, the log
  file and the standard output receive exactly the messages at or above the configured level, in order,
  between the three lines of the start and the line of the shutdown; in the end no logger is left.\<close>

theorem logger_lifetime:
  fixes ms :: "(log_level \<times> string) list" and t0 t1 :: string
  assumes "get_string config ''logging'' ''file'' ''valoserveri.log'' = Inr f"
    and "get_string config ''logging'' ''level'' ''error'' = Inr name"
    and "parseLogLevel name = Inr t" and "fopen_ok (c_str f)" and "global_logger w = None"
  defines "lines \<equiv> kept t ([(Info, ''Log started at '' @ t0), (Info, ''Log file '' @ f), (Info, ''Log level '' @ name)]
       @ ms @ [(Info, ''Shutdown at '' @ t1)])"
  shows "bind_res (Logger fopen_ok t0 config w) (\<lambda>w. bind_res (for_each (\<lambda>(l, s). log_message l s) ms w)
      (Logger_destroy t1)) = Inr (lines, w\<lparr>stdout := stdout w @ lines\<rparr>)"
proof -
  have name: "levelStrings ! level_number t = name"
    using assms(3) by (auto simp: parseLogLevel_def levelStrings_def level_of_number_def split: option.splits if_splits)
  let ?start = "kept t [(Info, ''Log started at '' @ t0), (Info, ''Log file '' @ f), (Info, ''Log level '' @ name)]"
  let ?w = "\<lparr>global_logger = Some \<lparr>log_filename = f, log_file = ?start, log_threshold = t\<rparr>, stdout = stdout w @ ?start\<rparr>"
  have "Logger fopen_ok t0 config w = Inr ?w"
    using assms(1-5) name by (simp add: Logger_def LoggerImpl_def LoggerImpl_message_kept assert_that_def) (simp add: kept_def)
  moreover have "for_each (\<lambda>(l, s). log_message l s) ms ?w =
      Inr \<lparr>global_logger = Some \<lparr>log_filename = f, log_file = ?start @ kept t ms, log_threshold = t\<rparr>,
        stdout = stdout w @ ?start @ kept t ms\<rparr>"
    using log_messages_file [of ?w _ ms] by (simp add: kept_def comp_def)
  ultimately show ?thesis
    using assms(5) by (cases w) (simp add: Logger_destroy_def LoggerImpl_message_kept lines_def kept_def)
qed

theorem logger_lifetime_witness:
  "bind_res (Logger (\<lambda>_. True) ''12:00'' (Config (\<lambda>_. None) ''c'') \<lparr>global_logger = None, stdout = []\<rparr>)
     (\<lambda>w. bind_res (for_each (\<lambda>(l, s). log_message l s) [(Error, ''e''), (Info, ''i'')] w) (Logger_destroy ''13:00'')) =
   Inr ([''e''], \<lparr>global_logger = None, stdout = [''e'']\<rparr>)"
proof -
  have "get_string (Config (\<lambda>_. None) ''c'') ''logging'' ''file'' ''valoserveri.log'' = Inr ''valoserveri.log''"
    "get_string (Config (\<lambda>_. None) ''c'') ''logging'' ''level'' ''error'' = Inr ''error''"
    "parseLogLevel ''error'' = Inr Error" by code_simp+
  from logger_lifetime [OF this TrueI, of "\<lparr>global_logger = None, stdout = []\<rparr>" "''12:00''"
      "[(Error, ''e''), (Info, ''i'')]" "''13:00''"]
  show ?thesis by (simp add: kept_def c_str_def)
qed

text \<open>A level is accepted exactly when it is one of the four names, and then it is the level of that name.\<close>

theorem log_level_names:
  "parseLogLevel s = Inr l \<longleftrightarrow> s = levelStrings ! level_number l"
proof
  show "parseLogLevel s = Inr l \<Longrightarrow> s = levelStrings ! level_number l"
    by (auto simp: parseLogLevel_def levelStrings_def level_of_number_def split: option.splits if_splits)
qed (simp add: parseLogLevel_name)

end
