(* ===== verification/Span_Lite.thy ===== *)
theory Span_Lite
  imports Cpp_Prelude
begin

text \<open>
  Model of \<^verbatim>\<open>nonstd::span\<close> with dynamic extent, from
  \<^verbatim>\<open>src/foreign/span-lite/include/nonstd/span.hpp\<close>, as the sources use it.

  A pointer is \<open>None\<close> (\<open>nullptr\<close>) or the list of the cells reachable from it; a span
  is a pointer and a size. The contract checks are on (\<open>span_CONFIG_CONTRACT_LEVEL_MASK\<close>
  is 0x11 by default), and a violated contract calls \<open>std::terminate\<close>: it is
  \<open>Inl Terminate\<close>. Reading a cell that the pointer does not reach is
  \<open>Inl Undefined_behaviour\<close>. Sizes are natural numbers below \<open>2 ^ 64\<close>; the one sum of
  sizes in the code (in \<open>subspan\<close>) is taken modulo \<open>2 ^ 64\<close>, as \<open>size_t\<close> wraps.

  The locale \<open>checked_view\<close> is what a reader of a span relies on; spans interpret it.
\<close>

section \<open>The span class\<close>

record 'a span =
  span_data :: "'a list option"
  span_size :: nat

definition span_EXPECTS :: "bool \<Rightarrow> unit res" where
  "span_EXPECTS cond = (if cond then Inr () else Inl Terminate)"

definition span_default :: "'a span" where
  "span_default = \<lparr>span_data = None, span_size = 0\<rparr>"

definition span_ptr_count :: "'a list option \<Rightarrow> nat \<Rightarrow> 'a span res" where
  "span_ptr_count ptr count =
     bind_res (span_EXPECTS ((ptr = None \<and> count = 0) \<or> (ptr \<noteq> None \<and> 0 \<le> count)))
       (\<lambda>_. Inr \<lparr>span_data = ptr, span_size = count\<rparr>)"

definition make_span_ptr :: "'a list option \<Rightarrow> nat \<Rightarrow> 'a span res" where
  "make_span_ptr ptr count = span_ptr_count ptr count"

text \<open>The span over a \<open>std::vector\<close>: its \<open>data()\<close> and its \<open>size()\<close>.\<close>

definition make_span_vector :: "'a list \<Rightarrow> 'a span" where
  "make_span_vector cont = \<lparr>span_data = Some cont, span_size = length cont\<rparr>"

definition ptr_add :: "'a list option \<Rightarrow> nat \<Rightarrow> 'a list option" where
  "ptr_add p n = map_option (drop n) p"

definition first :: "'a span \<Rightarrow> nat \<Rightarrow> 'a span res" where
  "first s count =
     bind_res (span_EXPECTS (0 \<le> count \<and> count \<le> span_size s))
       (\<lambda>_. span_ptr_count (span_data s) count)"

definition last_span :: "'a span \<Rightarrow> nat \<Rightarrow> 'a span res" where
  "last_span s count =
     bind_res (span_EXPECTS (0 \<le> count \<and> count \<le> span_size s))
       (\<lambda>_. span_ptr_count (ptr_add (span_data s) (span_size s - count)) count)"

definition dynamic_extent :: nat where
  "dynamic_extent = 2 ^ 64 - 1"

definition subspan :: "'a span \<Rightarrow> nat \<Rightarrow> nat \<Rightarrow> 'a span res" where
  "subspan s offset count =
     bind_res (span_EXPECTS
         ((0 \<le> offset \<and> offset \<le> span_size s) \<and>
          (count = dynamic_extent \<or> (0 \<le> count \<and> (offset + count) mod 2 ^ 64 \<le> span_size s))))
       (\<lambda>_. span_ptr_count (ptr_add (span_data s) offset)
              (if count = dynamic_extent then span_size s - offset else count))"

definition size_bytes :: "nat \<Rightarrow> 'a span \<Rightarrow> nat" where
  "size_bytes sizeof_element s = (span_size s * sizeof_element) mod 2 ^ 64"

definition empty_span :: "'a span \<Rightarrow> bool" where
  "empty_span s = (span_size s = 0)"

definition deref :: "'a list option \<Rightarrow> nat \<Rightarrow> 'a res" where
  "deref p idx = (case p of None \<Rightarrow> Inl Undefined_behaviour | Some cells \<Rightarrow> vec_get cells idx)"

definition span_at :: "'a span \<Rightarrow> nat \<Rightarrow> 'a res" where
  "span_at s idx =
     bind_res (span_EXPECTS (0 \<le> idx \<and> idx < span_size s)) (\<lambda>_. deref (span_data s) idx)"

definition span_front :: "'a span \<Rightarrow> 'a res" where
  "span_front s = bind_res (span_EXPECTS (\<not> empty_span s)) (\<lambda>_. deref (span_data s) 0)"

definition span_back :: "'a span \<Rightarrow> 'a res" where
  "span_back s = bind_res (span_EXPECTS (\<not> empty_span s)) (\<lambda>_. deref (span_data s) (span_size s - 1))"

section \<open>Well-formed spans and the elements they view\<close>

definition wf_span :: "'a span \<Rightarrow> bool" where
  "wf_span s \<longleftrightarrow>
     span_size s < 2 ^ 64 \<and>
     (case span_data s of None \<Rightarrow> span_size s = 0 | Some cells \<Rightarrow> span_size s \<le> length cells)"

definition span_list :: "'a span \<Rightarrow> 'a list" where
  "span_list s = (case span_data s of None \<Rightarrow> [] | Some cells \<Rightarrow> take (span_size s) cells)"

lemma span_EXPECTS_simps [simp]:
  "span_EXPECTS True = Inr ()"
  "span_EXPECTS False = Inl Terminate"
  "span_EXPECTS b = Inr u \<longleftrightarrow> b"
  by (simp_all add: span_EXPECTS_def)

lemma length_span_list [simp]: "wf_span s \<Longrightarrow> length (span_list s) = span_size s"
  by (auto simp: wf_span_def span_list_def split: option.splits)

lemma wf_make_span_vector [simp]: "length v < 2 ^ 64 \<Longrightarrow> wf_span (make_span_vector v)"
  by (simp add: wf_span_def make_span_vector_def)

lemma span_list_make_span_vector [simp]: "span_list (make_span_vector v) = v"
  by (simp add: span_list_def make_span_vector_def)

lemma span_size_make_span_vector [simp]: "span_size (make_span_vector v) = length v"
  by (simp add: make_span_vector_def)

lemma span_at_in:
  "wf_span s \<Longrightarrow> idx < span_size s \<Longrightarrow> span_at s idx = Inr (span_list s ! idx)"
  by (auto simp: span_at_def deref_def wf_span_def span_list_def split: option.splits)

lemma span_at_out: "span_size s \<le> idx \<Longrightarrow> span_at s idx = Inl Terminate"
  by (simp add: span_at_def)

lemma span_ptr_count_Some [simp]:
  "span_ptr_count (Some cells) n = Inr \<lparr>span_data = Some cells, span_size = n\<rparr>"
  by (simp add: span_ptr_count_def)

section \<open>The interface of a checked view\<close>

text \<open>What a reader of a view relies on: a size, an access that answers inside the size and
  terminates outside it.\<close>

locale checked_view =
  fixes vsize :: "'v \<Rightarrow> nat"
    and vat :: "'v \<Rightarrow> nat \<Rightarrow> 'a res"
    and contents :: "'v \<Rightarrow> 'a list"
    and wf :: "'v \<Rightarrow> bool"
  assumes size_contents: "wf v \<Longrightarrow> vsize v = length (contents v)"
    and at_inside: "wf v \<Longrightarrow> i < vsize v \<Longrightarrow> vat v i = Inr (contents v ! i)"
    and at_outside: "wf v \<Longrightarrow> vsize v \<le> i \<Longrightarrow> vat v i = Inl Terminate"
begin

lemma at_Inr_iff: "wf v \<Longrightarrow> (\<exists>x. vat v i = Inr x) \<longleftrightarrow> i < length (contents v)"
  using size_contents at_inside at_outside by (metis Inl_Inr_False leI)

lemma at_contents: "wf v \<Longrightarrow> i < length (contents v) \<Longrightarrow> vat v i = Inr (contents v ! i)"
  by (simp add: size_contents at_inside)

lemma at_never_undefined: "wf v \<Longrightarrow> vat v i \<noteq> Inl Undefined_behaviour"
  using at_inside at_outside by (cases "i < vsize v") auto

text \<open>Reading the whole view index by index gives its contents.\<close>

lemma read_all: "wf v \<Longrightarrow> map (vat v) [0..<vsize v] = map Inr (contents v)"
  by (rule nth_equalityI) (simp_all add: size_contents at_contents)

end

interpretation sv: checked_view "span_size :: 'a span \<Rightarrow> nat" span_at span_list wf_span
  by unfold_locales (simp_all add: span_at_in span_at_out)

section \<open>Subviews refine the list operations\<close>

lemma first_refines:
  "wf_span s \<Longrightarrow> n \<le> span_size s \<Longrightarrow>
     \<exists>t. first s n = Inr t \<and> wf_span t \<and> span_list t = take n (span_list s)"
  by (cases "span_data s")
    (auto simp: first_def wf_span_def span_list_def span_ptr_count_def min_def)

lemma first_violation: "span_size s < n \<Longrightarrow> first s n = Inl Terminate"
  by (simp add: first_def)

lemma last_span_refines:
  "wf_span s \<Longrightarrow> n \<le> span_size s \<Longrightarrow>
     \<exists>t. last_span s n = Inr t \<and> wf_span t \<and> span_list t = drop (span_size s - n) (span_list s)"
  by (cases "span_data s")
    (auto simp: last_span_def wf_span_def span_list_def span_ptr_count_def ptr_add_def drop_take)

lemma subspan_refines:
  "wf_span s \<Longrightarrow> n \<noteq> dynamic_extent \<Longrightarrow> off + n \<le> span_size s \<Longrightarrow>
     \<exists>t. subspan s off n = Inr t \<and> wf_span t \<and> span_list t = take n (drop off (span_list s))"
  by (cases "span_data s")
    (auto simp: subspan_def wf_span_def span_list_def span_ptr_count_def ptr_add_def
      dynamic_extent_def drop_take min_def)

lemma subspan_rest_refines:
  "wf_span s \<Longrightarrow> off \<le> span_size s \<Longrightarrow>
     \<exists>t. subspan s off dynamic_extent = Inr t \<and> wf_span t \<and> span_list t = drop off (span_list s)"
  by (cases "span_data s")
    (auto simp: subspan_def wf_span_def span_list_def span_ptr_count_def ptr_add_def drop_take)

section \<open>Properties\<close>

text \<open>C31. The first and the last \<open>n\<close> elements of a well-formed view are a well-formed view of the
  first and the last \<open>n\<close> elements; asking for more than there are terminates.\<close>

theorem subviews_are_sublists:
  assumes "wf_span s"
  shows "if n \<le> span_size s
     then (\<exists>t. first s n = Inr t \<and> wf_span t \<and> span_list t = take n (span_list s)) \<and>
          (\<exists>t. last_span s n = Inr t \<and> wf_span t \<and> span_list t = drop (span_size s - n) (span_list s))
     else first s n = Inl Terminate \<and> last_span s n = Inl Terminate"
  using first_refines [OF assms, of n] last_span_refines [OF assms, of n] first_violation [of s n]
  by (simp add: last_span_def)

theorem subviews_are_sublists_witness:
  "(\<exists>t. first (make_span_vector [1, 2, 3 :: nat]) 2 = Inr t \<and> wf_span t \<and> span_list t = [1, 2]) \<and>
   (\<exists>t. last_span (make_span_vector [1, 2, 3 :: nat]) 2 = Inr t \<and> wf_span t \<and> span_list t = [2, 3])"
  using subviews_are_sublists [of "make_span_vector [1, 2, 3 :: nat]" 2] by simp

text \<open>C40. The check of \<open>subspan\<close> adds offset and count without regard to overflow: for every offset
  from 2 up to the size there is a count that passes the check and yields a view reaching behind
  the elements.\<close>

theorem subspan_check_wraps:
  assumes "wf_span s" and "span_data s = Some cells" and "2 \<le> off" and "off \<le> span_size s"
    and "length cells < 2 ^ 64"
  shows "\<exists>t. subspan s off (2 ^ 64 - off) = Inr t \<and> \<not> wf_span t"
proof -
  have size: "span_size s < 2 ^ 64" using assms(1) by (simp add: wf_span_def)
  have "2 ^ 64 - off \<noteq> dynamic_extent" using assms(3,4) size by (simp add: dynamic_extent_def)
  moreover have "(off + (2 ^ 64 - off)) mod 2 ^ 64 = 0" using assms(4) size by simp
  ultimately have "subspan s off (2 ^ 64 - off) = Inr \<lparr>span_data = Some (drop off cells), span_size = 2 ^ 64 - off\<rparr>"
    using assms(2,4) by (simp add: subspan_def ptr_add_def)
  moreover have "length (drop off cells) < 2 ^ 64 - off" using assms(3-5) size by (simp add: diff_less_mono)
  ultimately show ?thesis by (auto simp: wf_span_def)
qed

theorem subspan_check_wraps_witness:
  "\<exists>t. subspan (make_span_vector [0, 0, 0 :: nat]) 2 (2 ^ 64 - 2) = Inr t \<and> \<not> wf_span t"
  by (rule subspan_check_wraps [of _ "[0, 0, 0]"]) (simp_all add: make_span_vector_def wf_span_def)

end
