(* ===== verification/Light_Packet.thy ===== *)
theory Light_Packet
  imports Span_Lite
begin

text \<open>
  Model of the UDP and WebSocket light packet, from
  \<^verbatim>\<open>src/valoserveri/LightPacket.h\<close> and \<^verbatim>\<open>src/valoserveri/LightPacket.cpp\<close>:
  the structures \<open>Color\<close>, \<open>LightColor\<close>, \<open>LightPacket\<close> and \<open>parseLightPacket\<close>.

  A packet is a version byte 1, a tag-marker byte 0, the tag up to a NUL, then commands of
  six bytes. Every element access of the code goes through \<^const>\<open>span_at\<close>, so a read
  outside the packet would show as a failure. Indices are natural numbers: they stay below
  the size of the packet, so for a packet of less than \<open>2 ^ 31\<close> bytes (callers pass at most
  2048) no \<open>int\<close> or \<open>unsigned int\<close> of the code wraps. A command's index byte is read as
  a signed \<open>char\<close> and converted to \<open>unsigned int\<close>, which sign-extends it.

  \<open>packet_spec\<close> is the reference: what a packet means as a list of bytes. The encoder
  \<open>encode_packet\<close> is the client side, from \<^verbatim>\<open>src/use_examples/instanssiController.py\<close>.
\<close>

section \<open>Data\<close>

record color =
  red :: byte
  green :: byte
  blue :: byte

definition Color :: color where
  "Color = \<lparr>red = 0, green = 0, blue = 0\<rparr>"

record light_color =
  lc_index :: u32
  lc_color :: color

record light_packet =
  lp_tag :: string
  lp_lights :: "light_color list"

definition empty_packet :: light_packet where
  "empty_packet = \<lparr>lp_tag = [], lp_lights = []\<rparr>"

section \<open>The parser\<close>

text \<open>The first loop looks for the NUL that ends the tag. It returns the tag and
  \<open>baseOffset\<close>; without a NUL the tag stays empty and \<open>baseOffset\<close> keeps its initial 3.\<close>

function find_tag :: "byte span \<Rightarrow> nat \<Rightarrow> (string \<times> nat) res" where
  "find_tag packet i =
     (if i < span_size packet then
        bind_res (span_at packet i) (\<lambda>b.
          if b = 0 then
            bind_res (span_at packet 2) (\<lambda>_.
              Inr (string_of_bytes (take (i - 2) (drop 2 (span_list packet))), i + 1))
          else find_tag packet (i + 1))
      else Inr ([], 3))"
  by pat_completeness auto
termination by (relation "measure (\<lambda>(packet, i). span_size packet - i)") auto

declare find_tag.simps [simp del]

text \<open>The second loop decodes the commands, \<open>offset = baseOffset + i * 6\<close>.\<close>

definition read_light :: "byte span \<Rightarrow> nat \<Rightarrow> light_color res" where
  "read_light packet offset =
     bind_res (span_at packet (offset + 1)) (\<lambda>idx.
     bind_res (span_at packet (offset + 3)) (\<lambda>r.
     bind_res (span_at packet (offset + 4)) (\<lambda>g.
     bind_res (span_at packet (offset + 5)) (\<lambda>b.
       Inr \<lparr>lc_index = scast idx, lc_color = \<lparr>red = r, green = g, blue = b\<rparr>\<rparr>))))"

function read_lights :: "byte span \<Rightarrow> nat \<Rightarrow> nat \<Rightarrow> nat \<Rightarrow> light_color list res" where
  "read_lights packet baseOffset maxCount i =
     (if i < maxCount then
        bind_res (span_at packet (baseOffset + i * 6)) (\<lambda>t.
          if t \<noteq> 1 then read_lights packet baseOffset maxCount (i + 1)
          else bind_res (read_light packet (baseOffset + i * 6)) (\<lambda>l.
                 bind_res (read_lights packet baseOffset maxCount (i + 1)) (\<lambda>ls. Inr (l # ls))))
      else Inr [])"
  by pat_completeness auto
termination by (relation "measure (\<lambda>(packet, b, m, i). m - i)") auto

declare read_lights.simps [simp del]

definition parseLightPacket :: "byte span \<Rightarrow> light_packet res" where
  "parseLightPacket packet =
     (if span_size packet < 3 then Inr empty_packet
      else bind_res (span_at packet 0) (\<lambda>version.
        if version \<noteq> 1 then Inr empty_packet
        else bind_res (span_at packet 1) (\<lambda>marker.
          if marker \<noteq> 0 then Inr empty_packet
          else bind_res (find_tag packet 2) (\<lambda>(tag, baseOffset).
            let maxCount = (span_size packet - baseOffset) div 6 in
            bind_res (read_lights packet baseOffset maxCount 0) (\<lambda>ls.
              Inr \<lparr>lp_tag = tag, lp_lights = ls\<rparr>)))))"

section \<open>Reference: the meaning of a packet\<close>

fun decode_commands :: "byte list \<Rightarrow> light_color list" where
  "decode_commands (t # i # x # r # g # b # rest) =
     (if t = 1 then [\<lparr>lc_index = scast i, lc_color = \<lparr>red = r, green = g, blue = b\<rparr>\<rparr>] else [])
       @ decode_commands rest"
| "decode_commands _ = []"

definition split_tag :: "byte list \<Rightarrow> byte list \<times> byte list" where
  "split_tag body =
     (if 0 \<in> set body then (takeWhile (\<lambda>b. b \<noteq> 0) body, tl (dropWhile (\<lambda>b. b \<noteq> 0) body))
      else ([], tl body))"

definition packet_spec :: "byte list \<Rightarrow> light_packet" where
  "packet_spec bs =
     (case bs of
        v # m # body \<Rightarrow>
          if body \<noteq> [] \<and> v = 1 \<and> m = 0 then
            \<lparr>lp_tag = string_of_bytes (fst (split_tag body)),
             lp_lights = decode_commands (snd (split_tag body))\<rparr>
          else empty_packet
      | _ \<Rightarrow> empty_packet)"

text \<open>The encoder of the example client.\<close>

definition encode_light :: "byte \<times> color \<Rightarrow> byte list" where
  "encode_light = (\<lambda>(i, c). [1, i, 0, red c, green c, blue c])"

definition encode_packet :: "string \<Rightarrow> (byte \<times> color) list \<Rightarrow> byte list" where
  "encode_packet nick ls = [1, 0] @ bytes_of_string nick @ [0] @ concat (map encode_light ls)"

section \<open>The parser computes the reference\<close>

lemma decode_commands_short: "length bs < 6 \<Longrightarrow> decode_commands bs = []"
  by (induction bs rule: decode_commands.induct) simp_all

lemma drop_six:
  assumes "k + 6 \<le> length xs"
  shows "drop k xs = xs ! k # xs ! (k + 1) # xs ! (k + 2) # xs ! (k + 3) # xs ! (k + 4)
           # xs ! (k + 5) # drop (k + 6) xs"
  using assms by (simp add: Cons_nth_drop_Suc numeral_eq_Suc)

lemma find_tag_scan:
  assumes "wf_span s" and "2 \<le> i"
  defines "k \<equiv> i + length (takeWhile (\<lambda>b. b \<noteq> 0) (drop i (span_list s)))"
  shows "find_tag s i =
     Inr (if 0 \<in> set (drop i (span_list s))
          then (string_of_bytes (take (k - 2) (drop 2 (span_list s))), k + 1) else ([], 3))"
  using assms(1,2) unfolding k_def
proof (induction s i rule: find_tag.induct)
  case (1 s i)
  show ?case
  proof (cases "i < span_size s")
    case True
    with "1.prems" have len: "i < length (span_list s)" by simp
    then have drp: "drop i (span_list s) = span_list s ! i # drop (Suc i) (span_list s)"
      by (simp add: Cons_nth_drop_Suc)
    from len "1.prems" have at: "span_at s i = Inr (span_list s ! i)"
      and at2: "span_at s 2 = Inr (span_list s ! 2)"
      by (simp_all add: sv.at_contents)
    show ?thesis
    proof (cases "span_list s ! i = 0")
      case zero: True
      with True at at2 drp show ?thesis by (simp add: find_tag.simps [of s i])
    next
      case nonzero: False
      with True at have "find_tag s i = find_tag s (i + 1)" by (simp add: find_tag.simps [of s i])
      with "1.IH" [OF True at nonzero] "1.prems" nonzero drp show ?thesis by simp
    qed
  next
    case False
    with "1.prems" show ?thesis by (simp add: find_tag.simps [of s i])
  qed
qed

lemma read_light_in:
  assumes "wf_span s" and "k + 6 \<le> span_size s"
  shows "read_light s k = Inr \<lparr>lc_index = scast (span_list s ! (k + 1)),
     lc_color = \<lparr>red = span_list s ! (k + 3), green = span_list s ! (k + 4),
       blue = span_list s ! (k + 5)\<rparr>\<rparr>"
  using assms by (simp add: read_light_def sv.at_contents)

lemma read_lights_decode:
  assumes "wf_span s" and "base \<le> span_size s" and "m = (span_size s - base) div 6" and "i \<le> m"
  shows "read_lights s base m i = Inr (decode_commands (drop (base + i * 6) (span_list s)))"
  using assms
proof (induction s base m i rule: read_lights.induct)
  case (1 s base m i)
  let ?k = "base + i * 6"
  show ?case
  proof (cases "i < m")
    case True
    from True "1.prems"(3) have "(i + 1) * 6 \<le> span_size s - base" by (simp add: less_eq_div_iff_mult_less_eq)
    with "1.prems"(2) have k: "?k + 6 \<le> span_size s" by simp
    then have at: "span_at s ?k = Inr (span_list s ! ?k)"
      using "1.prems"(1) by (simp add: sv.at_contents)
    have rec: "read_lights s base m (i + 1) = Inr (decode_commands (drop (?k + 6) (span_list s)))"
    proof (cases "span_list s ! ?k = 1")
      case one: True
      from "1.IH"(2) [OF True at] one read_light_in [OF "1.prems"(1) k] True "1.prems"
      show ?thesis by (simp add: algebra_simps)
    next
      case False
      from "1.IH"(1) [OF True at False] True "1.prems" show ?thesis by (simp add: algebra_simps)
    qed
    from k "1.prems"(1) have "?k + 6 \<le> length (span_list s)" by simp
    from drop_six [OF this] rec at True read_light_in [OF "1.prems"(1) k] show ?thesis
      by (simp add: read_lights.simps [of s base m i])
  next
    case False
    with "1.prems" have "i = (span_size s - base) div 6" by simp
    then have "span_size s - ?k < 6" by (simp add: minus_mult_div_eq_mod [symmetric] mult.commute)
    then have "length (drop ?k (span_list s)) < 6" using "1.prems"(1) by simp
    from decode_commands_short [OF this] False show ?thesis
      by (simp add: read_lights.simps [of s base m i])
  qed
qed

lemma split_tag_zero:
  assumes "0 \<in> set body"
  defines "n \<equiv> length (takeWhile (\<lambda>b. b \<noteq> 0) body)"
  shows "split_tag body = (take n body, drop (n + 1) body)" and "n < length body"
proof -
  show "n < length body" unfolding n_def using assms(1) by (induction body) auto
  have "dropWhile (\<lambda>b. b \<noteq> 0) body = drop n body"
    unfolding n_def by (rule dropWhile_eq_drop)
  moreover have "takeWhile (\<lambda>b. b \<noteq> 0) body = take n body"
    unfolding n_def by (metis takeWhile_eq_take)
  ultimately show "split_tag body = (take n body, drop (n + 1) body)"
    using assms(1) by (simp add: split_tag_def drop_Suc tl_drop)
qed

lemma parse_body:
  assumes wf: "wf_span s" and L: "span_list s = 1 # 0 # body" and ne: "body \<noteq> []"
  shows "parseLightPacket s = Inr (packet_spec (span_list s))"
proof -
  from wf L have size: "span_size s = length body + 2" by (metis length_Cons length_span_list add_2_eq_Suc')
  have at: "span_at s 0 = Inr 1" "span_at s 1 = Inr 0"
    using wf L size by (simp_all add: span_at_in)
  define base where "base = (if 0 \<in> set body then length (takeWhile (\<lambda>b. b \<noteq> 0) body) + 3 else 3)"
  have tag: "find_tag s 2 = Inr (string_of_bytes (fst (split_tag body)), base)"
    using find_tag_scan [OF wf, of 2] L split_tag_zero [of body]
    by (auto simp: base_def split_tag_def string_of_bytes_def)
  have base: "base \<le> span_size s" "snd (split_tag body) = drop base (span_list s)"
    using split_tag_zero [of body] ne size L
    by (auto simp: base_def split_tag_def Suc_le_eq drop_Suc neq_Nil_conv numeral_eq_Suc)
  from read_lights_decode [OF wf base(1) refl, of 0] base(2)
  have "read_lights s base ((span_size s - base) div 6) 0 = Inr (decode_commands (snd (split_tag body)))"
    by simp
  with at tag ne size show ?thesis by (simp add: parseLightPacket_def L packet_spec_def Let_def)
qed

lemma parse_refines:
  assumes "wf_span s"
  shows "parseLightPacket s = Inr (packet_spec (span_list s))"
proof (cases "\<exists>body. span_list s = 1 # 0 # body \<and> body \<noteq> []")
  case True
  with parse_body [OF assms] show ?thesis by blast
next
  case False
  show ?thesis
  proof (cases "span_size s < 3")
    case True
    with False length_span_list [OF assms] show ?thesis
      by (auto simp: parseLightPacket_def packet_spec_def split: list.splits)
  next
    case big: False
    with length_span_list [OF assms] obtain v m b bs where L: "span_list s = v # m # b # bs"
      by (cases "span_list s" rule: decode_commands.cases) auto
    with False have "\<not> (v = 1 \<and> m = 0)" by auto
    moreover have "span_at s 0 = Inr v" "span_at s 1 = Inr m"
      using assms L big by (simp_all add: span_at_in)
    ultimately show ?thesis using big L by (auto simp: parseLightPacket_def packet_spec_def)
  qed
qed

section \<open>What the reference promises\<close>

lemma decode_encoded_lights:
  "decode_commands (concat (map encode_light ls)) = map (\<lambda>(i, c). \<lparr>lc_index = scast i, lc_color = c\<rparr>) ls"
  by (induction ls) (auto simp: encode_light_def)

lemma byte_of_char_NUL_iff: "byte_of_char c = 0 \<longleftrightarrow> c = CHR 0x00"
  by (metis byte_of_char_inverse char_of_byte_0 char_of_byte_inverse)

lemma split_tag_encoded:
  assumes "CHR 0x00 \<notin> set nick"
  shows "split_tag (bytes_of_string nick @ 0 # rest) = (bytes_of_string nick, rest)"
proof -
  have "\<forall>b \<in> set (bytes_of_string nick). b \<noteq> 0"
    using assms by (auto simp: bytes_of_string_def byte_of_char_NUL_iff)
  then show ?thesis by (simp add: split_tag_def)
qed

lemma packet_spec_encode:
  assumes "CHR 0x00 \<notin> set nick"
  shows "packet_spec (encode_packet nick ls) =
     \<lparr>lp_tag = nick, lp_lights = map (\<lambda>(i, c). \<lparr>lc_index = scast i, lc_color = c\<rparr>) ls\<rparr>"
  using split_tag_encoded [OF assms] by (simp add: packet_spec_def encode_packet_def decode_encoded_lights)

lemma decode_commands_length: "6 * length (decode_commands bs) \<le> length bs"
  by (induction bs rule: decode_commands.induct) auto

lemma split_tag_length: "body \<noteq> [] \<Longrightarrow> length (snd (split_tag body)) < length body"
  using split_tag_zero [of body] by (cases "0 \<in> set body") (auto simp: split_tag_def)

lemma packet_spec_length: "6 * length (lp_lights (packet_spec bs)) \<le> length bs - 3"
proof (cases "\<exists>body. bs = 1 # 0 # body \<and> body \<noteq> []")
  case True
  then obtain body where b: "bs = 1 # 0 # body" "body \<noteq> []" by blast
  with split_tag_length [OF b(2)] decode_commands_length [of "snd (split_tag body)"]
  show ?thesis by (simp add: packet_spec_def)
qed (auto simp: packet_spec_def empty_packet_def split: list.splits)

lemma centered_mod_256: "n < 256 \<Longrightarrow> (int n + 128) mod 256 - 128 = (if n < 128 then int n else int n - 256)"
proof (cases "n < 128")
  case False
  assume n: "n < 256"
  have "(int n + 128) mod 256 = (int n - 128 + 256) mod 256" by (simp add: ac_simps)
  also have "\<dots> = int n - 128" unfolding mod_add_self2 using n False by simp
  finally show ?thesis using False by simp
qed simp

lemma sint_byte: "sint (b :: byte) = (if unat b < 128 then int (unat b) else int (unat b) - 256)"
proof -
  have "unat b < 2 ^ LENGTH(8)" by (rule unsigned_less)
  then have "unat b < 256" by simp
  from centered_mod_256 [OF this] show ?thesis
    by (simp add: sint_uint signed_take_bit_eq_take_bit_shift take_bit_eq_mod)
qed

lemma wrapped_mod_32: "n < 256 \<Longrightarrow> nat ((int n - 256) mod 2 ^ 32) = 2 ^ 32 - 256 + n"
proof -
  assume n: "n < 256"
  have "(int n - 256) mod 2 ^ 32 = (int n - 256 + 2 ^ 32) mod 2 ^ 32" by (rule mod_add_self2 [symmetric])
  also have "\<dots> = int n - 256 + 2 ^ 32" using n by (intro mod_pos_pos_trivial) auto
  finally show ?thesis using n by simp
qed

lemma unat_scast_byte:
  "unat (scast (b :: byte) :: u32) = (if unat b < 128 then unat b else 2 ^ 32 - 256 + unat b)"
proof -
  have "unat b < 2 ^ LENGTH(8)" by (rule unsigned_less)
  then have b: "unat b < 256" by simp
  have eq: "unat (scast b :: u32) = nat (sint b mod 2 ^ 32)" by transfer (simp add: take_bit_eq_mod)
  show ?thesis
  proof (cases "unat b < 128")
    case True
    then have "sint b = int (unat b)" unfolding sint_byte by (rule if_P)
    have "nat (int n mod 2 ^ 32) = n" if "n < 256" for n using that by simp
    from this [OF b] True eq \<open>sint b = int (unat b)\<close> show ?thesis by (simp only: if_True)
  next
    case False
    then have "sint b = int (unat b) - 256" unfolding sint_byte by (rule if_not_P)
    with False eq wrapped_mod_32 [OF b] show ?thesis by (simp only: if_False)
  qed
qed
lemma decode_commands_index: "\<forall>l \<in> set (decode_commands bs). lc_index l \<in> range (scast :: byte \<Rightarrow> u32)"
  by (induction bs rule: decode_commands.induct) (simp_all add: ball_Un)

lemma packet_spec_index: "\<forall>l \<in> set (lp_lights (packet_spec bs)). lc_index l \<in> range (scast :: byte \<Rightarrow> u32)"
proof (cases "\<exists>v m body. bs = v # m # body")
  case True
  then show ?thesis using decode_commands_index by (auto simp: packet_spec_def empty_packet_def split: if_splits)
next
  case False
  then have "packet_spec bs = empty_packet" by (auto simp: packet_spec_def split: list.splits)
  then show ?thesis by (simp add: empty_packet_def)
qed

section \<open>Properties\<close>

text \<open>C4. On every well-formed view of less than \<open>2 ^ 31\<close> bytes the parser returns, without a read outside the packet, and
  its result is the meaning of the packet's bytes: nothing for a packet that is too short or
  has another version or marker, otherwise the tag and the light commands.\<close>

theorem parse_meaning:
  assumes "wf_span s" and "span_size s < 2 ^ 31"
  shows "parseLightPacket s = Inr (packet_spec (span_list s))"
  using assms(1) by (rule parse_refines)

theorem parse_meaning_witness:
  "parseLightPacket (make_span_vector [1, 0, 65, 0, 1, 5, 0, 10, 20, 30, 2, 6, 0, 1, 1, 1]) =
     Inr \<lparr>lp_tag = ''A'', lp_lights = [\<lparr>lc_index = 5, lc_color = \<lparr>red = 10, green = 20, blue = 30\<rparr>\<rparr>]\<rparr>"
proof -
  let ?s = "make_span_vector [1, 0, 65, 0, 1, 5, 0, 10, 20, 30, 2, 6, 0, 1, 1, 1 :: byte]"
  have "wf_span ?s" "span_size ?s < 2 ^ 31" by simp_all
  from parse_meaning [OF this] show ?thesis
    by (simp add: packet_spec_def split_tag_def string_of_bytes_def char_of_byte_def eval_simps)
qed

text \<open>C26. What the example client encodes, the server decodes: the nick, if it has no NUL, and
  the light commands in order. The index byte comes out sign-extended.\<close>

theorem encode_parse_roundtrip:
  assumes "CHR 0x00 \<notin> set nick" and "length (encode_packet nick ls) < 2 ^ 31"
  shows "parseLightPacket (make_span_vector (encode_packet nick ls)) =
     Inr \<lparr>lp_tag = nick, lp_lights = map (\<lambda>(i, c). \<lparr>lc_index = scast i, lc_color = c\<rparr>) ls\<rparr>"
  using packet_spec_encode [OF assms(1), of ls] assms(2) by (simp add: parse_refines)

theorem encode_parse_roundtrip_witness:
  "parseLightPacket (make_span_vector (encode_packet ''nick'' [(3, \<lparr>red = 255, green = 0, blue = 7\<rparr>)])) =
     Inr \<lparr>lp_tag = ''nick'', lp_lights = [\<lparr>lc_index = 3, lc_color = \<lparr>red = 255, green = 0, blue = 7\<rparr>\<rparr>]\<rparr>"
  using encode_parse_roundtrip [of "''nick''" "[(3, \<lparr>red = 255, green = 0, blue = 7\<rparr>)]"]
  by (simp add: encode_packet_def encode_light_def)

text \<open>C32. A packet of \<open>n\<close> bytes yields at most \<open>(n - 3) div 6\<close> commands, and the index of each
  is below 128 or at least \<open>2 ^ 32 - 128\<close>: an index byte of 128 or more never names the
  light of that number.\<close>

theorem parse_bounds:
  assumes "wf_span s" and "span_size s < 2 ^ 31" and "parseLightPacket s = Inr p"
  shows "length (lp_lights p) \<le> (span_size s - 3) div 6 \<and>
     (\<forall>l \<in> set (lp_lights p). unat (lc_index l) < 128 \<or> 2 ^ 32 - 128 \<le> unat (lc_index l))"
proof -
  from parse_refines [OF assms(1)] assms(3) have p: "p = packet_spec (span_list s)" by simp
  have "6 * length (lp_lights p) \<le> span_size s - 3"
    using packet_spec_length [of "span_list s"] assms(1) p by simp
  moreover have "unat (lc_index l) < 128 \<or> 2 ^ 32 - 128 \<le> unat (lc_index l)" if "l \<in> set (lp_lights p)" for l
  proof -
    have "lc_index l \<in> range (scast :: byte \<Rightarrow> u32)"
      by (rule bspec [OF packet_spec_index [of "span_list s"]]) (use that p in simp)
    then obtain b :: byte where "lc_index l = scast b" by (rule rangeE)
    then have l: "unat (lc_index l) = (if unat b < 128 then unat b else 2 ^ 32 - 256 + unat b)"
      by (simp only: unat_scast_byte)
    show ?thesis
    proof (cases "unat b < 128")
      case False
      with l have "unat (lc_index l) = 2 ^ 32 - 256 + unat b" by (simp only: if_False)
      with False show ?thesis by linarith
    qed (simp add: l)
  qed
  ultimately show ?thesis by (simp add: less_eq_div_iff_mult_less_eq mult.commute)
qed

theorem parse_bounds_witness:
  "\<exists>p. parseLightPacket (make_span_vector [1, 0, 0, 1, 200, 0, 1, 2, 3]) = Inr p \<and>
     length (lp_lights p) \<le> 1 \<and> (\<forall>l \<in> set (lp_lights p). unat (lc_index l) < 128 \<or> 2 ^ 32 - 128 \<le> unat (lc_index l))"
proof -
  let ?s = "make_span_vector [1, 0, 0, 1, 200, 0, 1, 2, 3 :: byte]"
  have wf: "wf_span ?s" by simp
  have size: "span_size ?s = 9" by simp
  then have "span_size ?s < 2 ^ 31" by simp
  from parse_bounds [OF wf this parse_refines [OF wf], unfolded size] parse_refines [OF wf]
  show ?thesis by (intro exI [of _ "packet_spec (span_list ?s)"]) simp
qed

end
