(* ===== verification/Dmx_Controller.thy ===== *)
theory Dmx_Controller
  imports Logger Light_Packet
begin

text \<open>
  Model of \<^verbatim>\<open>src/valoserveri/DMXController.h\<close> and
  \<^verbatim>\<open>src/valoserveri/DMXController.cpp\<close>: the configured lights, the DMX frame of 517
  bytes, and the serial device it is written to.

  The state of a \<open>DMXController\<close> is the record \<open>dmx\<close>; \<open>tty_stream\<close> is what the device
  has accepted so far and \<open>tty_mode\<close> what \<open>tcsetattr\<close> has set. What \<open>open\<close> and
  \<open>write\<close> return comes from outside. Operations that log take the \<open>log_world\<close> along.

  \<open>dmx_set\<close> is the specification of \<open>setLightColor\<close> on the frame, and the locale
  \<open>light_display\<close> the contract towards the server: what a display shows after a sequence
  of commands is, for each light, the last colour commanded.
\<close>

section \<open>Lights and their configuration\<close>

datatype light_type = RGB | UV

record light =
  light_kind :: light_type
  address :: byte
  numChannels :: byte

definition Light :: light where
  "Light = \<lparr>light_kind = RGB, address = 0, numChannels = 0\<rparr>"

type_synonym lights_config = "(u32 \<times> light) list"

definition lightTypeStrings :: "string list" where
  "lightTypeStrings = [''rgb'', ''uv'']"

definition type_of_number :: "nat \<Rightarrow> light_type" where
  "type_of_number i = (if i = 0 then RGB else UV)"

definition type_number :: "light_type \<Rightarrow> nat" where
  "type_number t = (case t of RGB \<Rightarrow> 0 | UV \<Rightarrow> 1)"

definition parseLightType :: "string \<Rightarrow> light_type res" where
  "parseLightType str =
     (case index_of_name 0 lightTypeStrings str of
        Some i \<Rightarrow> Inr (type_of_number i)
      | None \<Rightarrow> Inl (Runtime_error (''Bad light type '' @ quoted str)))"

definition light_section :: "nat \<Rightarrow> string" where
  "light_section i = ''light'' @ to_string i"

definition parse_light :: "config \<Rightarrow> nat \<Rightarrow> log_world \<times> lights_config \<Rightarrow> (log_world \<times> lights_config) res" where
  "parse_light config i = (\<lambda>(w, lights).
     let section = light_section i in
     bind_res (get_unsigned config section ''address'' 0) (\<lambda>addr.
     bind_res (get_string config section ''type'' ''rgb'') (\<lambda>type.
     bind_res (parseLightType type) (\<lambda>kind.
       let w' = printf (''light '' @ quoted (to_string i) @ ''  address '' @ quoted (to_string (unat addr))
                  @ ''  type '' @ quoted (lightTypeStrings ! type_number kind)) w;
           defaultNumChannels = (if kind = UV then 2 else 5) in
       bind_res (get_unsigned config section ''numChannels'' defaultNumChannels) (\<lambda>channels.
         let light = \<lparr>light_kind = kind, address = ucast addr, numChannels = ucast channels\<rparr> in
         Inr (w', map_emplace (of_nat i) light lights))))))"

definition LightsConfig_parse :: "config \<Rightarrow> log_world \<Rightarrow> (log_world \<times> lights_config) res" where
  "LightsConfig_parse config w =
     bind_res (get_unsigned config ''global'' ''lights'' 0) (\<lambda>numLights.
     bind_res (LOG_INFO (''number lights: '' @ to_string (unat numLights)) w) (\<lambda>w'.
       for_each (parse_light config) [0..<unat numLights] (w', [])))"

section \<open>The controller\<close>

datatype termios_flag = CS8 | CREAD | CLOCAL

datatype speed = B57600

record termios =
  c_iflag :: nat
  c_oflag :: nat
  c_cflag :: "termios_flag set"
  c_lflag :: nat
  cc_VMIN :: nat
  cc_VTIME :: nat
  ospeed :: speed
  ispeed :: speed

record dmx =
  dmx_fd :: int
  dmxPacket :: "byte list"
  lightConfig :: lights_config
  tty_mode :: "termios option"
  tty_stream :: "byte list"

definition tty_settings :: termios where
  "tty_settings = \<lparr>c_iflag = 0, c_oflag = 0, c_cflag = {CS8, CREAD, CLOCAL}, c_lflag = 0,
     cc_VMIN = 1, cc_VTIME = 5, ospeed = B57600, ispeed = B57600\<rparr>"

definition initial_packet :: "byte list res" where
  "initial_packet =
     bind_res (vec_set (replicate 517 0) 0 0x7e) (\<lambda>p.
     bind_res (vec_set p 1 0x06) (\<lambda>p.
     bind_res (vec_set p 2 0x00) (\<lambda>p.
     bind_res (vec_set p 3 0x02) (\<lambda>p. vec_set p 516 0xe7))))"

definition DMXController :: "(string \<Rightarrow> int) \<Rightarrow> config \<Rightarrow> log_world \<Rightarrow> (log_world \<times> dmx) res" where
  "DMXController open_tty config w =
     bind_res initial_packet (\<lambda>packet.
     bind_res (LightsConfig_parse config w) (\<lambda>(w', lights).
     bind_res (get_string config ''global'' ''device'' ''/dev/ttyUSB0'') (\<lambda>ttyDeviceName.
       let fd = open_tty (c_str ttyDeviceName);
           w'' = printf (''open '' @ quoted (c_str ttyDeviceName) @ '': '' @ int_to_string fd) w'
       in Inr (w'', \<lparr>dmx_fd = fd, dmxPacket = packet, lightConfig = lights,
                     tty_mode = Some tty_settings, tty_stream = []\<rparr>))))"

definition DMXController_destroy :: "dmx \<Rightarrow> dmx" where
  "DMXController_destroy this = (if dmx_fd this \<noteq> 0 then this\<lparr>dmx_fd := 0\<rparr> else this)"

definition getLightsConfig :: "dmx \<Rightarrow> lights_config" where
  "getLightsConfig this = lightConfig this"

definition uv_intensity :: "color \<Rightarrow> u32" where
  "uv_intensity c = drop_bit 8 (77 * ucast (red c) + 150 * ucast (green c) + 29 * ucast (blue c))"

definition write_light :: "light \<Rightarrow> color \<Rightarrow> byte list \<Rightarrow> byte list res" where
  "write_light l color packet =
     (let offset = unat (address l) + 4 in
      case light_kind l of
        RGB \<Rightarrow>
          bind_res (vec_set packet (offset + 0) (red color)) (\<lambda>p.
          bind_res (vec_set p (offset + 1) (green color)) (\<lambda>p.
          bind_res (vec_set p (offset + 2) (blue color)) (\<lambda>p.
          bind_res (vec_set p (offset + 3) 255) (\<lambda>p. vec_set p (offset + 4) 0))))
      | UV \<Rightarrow>
          bind_res (vec_set packet (offset + 0) (ucast (uv_intensity color))) (\<lambda>p.
          vec_set p (offset + 1) 0))"

definition setLightColor :: "u32 \<Rightarrow> color \<Rightarrow> log_world \<times> dmx \<Rightarrow> (log_world \<times> dmx) res" where
  "setLightColor index color = (\<lambda>(w, this).
     case map_of (lightConfig this) index of
       None \<Rightarrow>
         bind_res (LOG_DEBUG (''Bad light index '' @ to_string (unat index)) w) (\<lambda>w'. Inr (w', this))
     | Some l \<Rightarrow>
         bind_res (write_light l color (dmxPacket this)) (\<lambda>p. Inr (w, this\<lparr>dmxPacket := p\<rparr>)))"

text \<open>\<open>write\<close> returns how many bytes of the frame the device took, or -1.\<close>

definition dmx_update :: "int \<Rightarrow> log_world \<times> dmx \<Rightarrow> (log_world \<times> dmx) res" where
  "dmx_update retval = (\<lambda>(w, this).
     let this' = this\<lparr>tty_stream := tty_stream this @ take (nat retval) (dmxPacket this)\<rparr> in
     bind_res (LOG_DEBUG (''write returned '' @ int_to_string retval) w) (\<lambda>w'. Inr (w', this')))"

section \<open>The frame a light command makes\<close>

definition light_channels :: "light \<Rightarrow> color \<Rightarrow> byte list" where
  "light_channels l c =
     (case light_kind l of
        RGB \<Rightarrow> [red c, green c, blue c, 255, 0]
      | UV \<Rightarrow> [ucast (uv_intensity c), 0])"

definition light_offset :: "light \<Rightarrow> nat" where
  "light_offset l = unat (address l) + 4"

definition dmx_set :: "u32 \<Rightarrow> color \<Rightarrow> dmx \<Rightarrow> dmx" where
  "dmx_set index c this =
     (case map_of (lightConfig this) index of
        None \<Rightarrow> this
      | Some l \<Rightarrow> this\<lparr>dmxPacket := overwrite (light_offset l) (light_channels l c) (dmxPacket this)\<rparr>)"

definition wf_packet :: "byte list \<Rightarrow> bool" where
  "wf_packet p \<longleftrightarrow> length p = 517 \<and> take 4 p = [0x7e, 0x06, 0x00, 0x02] \<and> p ! 516 = 0xe7"

definition wf_dmx :: "dmx \<Rightarrow> bool" where
  "wf_dmx d \<longleftrightarrow> wf_packet (dmxPacket d) \<and> distinct (map fst (lightConfig d))"

section \<open>A light command writes its channels and nothing else\<close>

lemma light_offset_bound: "light_offset l + length (light_channels l c) \<le> 264"
proof -
  have "unat (address l) < 2 ^ LENGTH(8)" by (rule unsigned_less)
  then show ?thesis by (simp add: light_offset_def light_channels_def split: light_type.splits)
qed

lemma light_offset_ge [simp]: "4 \<le> light_offset l"
  by (simp add: light_offset_def)

lemma length_light_channels: "length (light_channels l c) = (case light_kind l of RGB \<Rightarrow> 5 | UV \<Rightarrow> 2)"
  by (simp add: light_channels_def split: light_type.splits)

lemma write_light_overwrite:
  assumes "length p = 517"
  shows "write_light l c p = Inr (overwrite (light_offset l) (light_channels l c) p)"
proof -
  have "unat (address l) < 2 ^ LENGTH(8)" by (rule unsigned_less)
  then show ?thesis
    using assms by (cases "light_kind l")
      (simp_all add: write_light_def light_channels_def light_offset_def overwrite_Cons ac_simps)
qed

lemma wf_packet_overwrite:
  assumes "wf_packet p" and "4 \<le> k" and "k + length xs \<le> 516"
  shows "wf_packet (overwrite k xs p)"
proof -
  from assms have len: "length p = 517" by (simp add: wf_packet_def)
  have "window 0 4 (overwrite k xs p) = window 0 4 p"
    using assms len by (intro window_overwrite_other) auto
  with assms len show ?thesis by (simp add: wf_packet_def window_def nth_overwrite)
qed

lemma wf_packet_light: "wf_packet p \<Longrightarrow> wf_packet (overwrite (light_offset l) (light_channels l c) p)"
  using light_offset_bound [of l c] by (intro wf_packet_overwrite) auto

lemma dmx_set_frame [simp]:
  "lightConfig (dmx_set i c d) = lightConfig d"
  "dmx_fd (dmx_set i c d) = dmx_fd d"
  "tty_stream (dmx_set i c d) = tty_stream d"
  "tty_mode (dmx_set i c d) = tty_mode d"
  by (simp_all add: dmx_set_def split: option.splits)

lemma wf_dmx_set: "wf_dmx d \<Longrightarrow> wf_dmx (dmx_set i c d)"
  by (auto simp: wf_dmx_def dmx_set_def wf_packet_light split: option.splits)

lemma setLightColor_set:
  assumes "logger_ready w" and "wf_dmx d"
  shows "\<exists>w'. setLightColor i c (w, d) = Inr (w', dmx_set i c d) \<and> logger_ready w'"
proof (cases "map_of (lightConfig d) i")
  case None
  obtain w' where "LOG_DEBUG (''Bad light index '' @ to_string (unat i)) w = Inr w'" "logger_ready w'"
    unfolding LOG_DEBUG_def using assms(1) by (rule log.msg_ok)
  with None show ?thesis by (simp add: setLightColor_def dmx_set_def)
next
  case (Some l)
  from assms(2) have "length (dmxPacket d) = 517" by (simp add: wf_dmx_def wf_packet_def)
  with Some assms(1) show ?thesis by (simp add: setLightColor_def dmx_set_def write_light_overwrite)
qed

lemma initial_packet_wf: "\<exists>p. initial_packet = Inr p \<and> wf_packet p"
  by (simp add: initial_packet_def wf_packet_def vec_set_def nth_list_update numeral_eq_Suc)

section \<open>The intensity of an ultraviolet light\<close>

lemma unat_uv_intensity:
  "unat (uv_intensity c) = (77 * unat (red c) + 150 * unat (green c) + 29 * unat (blue c)) div 256"
proof -
  have b: "unat (x :: byte) < 256" for x
    using unsigned_less [of x, where 'a = nat] by simp
  have "77 * unat (red c) + 150 * unat (green c) + 29 * unat (blue c) < 2 ^ 32"
    using b [of "red c"] b [of "green c"] b [of "blue c"] by simp
  then have "unat (77 * ucast (red c) + 150 * ucast (green c) + 29 * ucast (blue c) :: u32) =
      77 * unat (red c) + 150 * unat (green c) + 29 * unat (blue c)"
    by (simp add: unat_word_ariths unsigned_ucast_eq mod_simps take_bit_eq_mod)
  then show ?thesis by (simp add: uv_intensity_def drop_bit_eq_div unat_div)
qed

lemma uv_intensity_bounds:
  fixes c :: color
  defines "lo \<equiv> min (unat (red c)) (min (unat (green c)) (unat (blue c)))"
    and "hi \<equiv> max (unat (red c)) (max (unat (green c)) (unat (blue c)))"
  shows "lo \<le> unat (uv_intensity c)" and "unat (uv_intensity c) \<le> hi"
proof -
  let ?s = "77 * unat (red c) + 150 * unat (green c) + 29 * unat (blue c)"
  have "256 * lo \<le> ?s" "?s \<le> 256 * hi" by (simp_all add: lo_def hi_def)
  then show "lo \<le> unat (uv_intensity c)" "unat (uv_intensity c) \<le> hi"
    unfolding unat_uv_intensity by linarith+
qed

section \<open>What the display shows\<close>

text \<open>The contract of a display towards whoever drives it.\<close>

locale light_display =
  fixes set_color :: "'i \<Rightarrow> 'c \<Rightarrow> 'd \<Rightarrow> 'd"
    and shows_color :: "'d \<Rightarrow> 'i \<Rightarrow> 'c \<Rightarrow> bool"
    and known :: "'d \<Rightarrow> 'i \<Rightarrow> bool"
    and ok :: "'d \<Rightarrow> bool"
  assumes ok_set: "ok d \<Longrightarrow> ok (set_color i c d)"
    and known_set: "known (set_color i c d) j = known d j"
    and shows_set_same: "ok d \<Longrightarrow> known d i \<Longrightarrow> shows_color (set_color i c d) i c"
    and shows_set_other:
      "ok d \<Longrightarrow> j \<noteq> i \<Longrightarrow> shows_color d j c' \<Longrightarrow> shows_color (set_color i c d) j c'"
begin

definition drive :: "('i \<times> 'c) list \<Rightarrow> 'd \<Rightarrow> 'd" where
  "drive cmds = fold (\<lambda>(i, c). set_color i c) cmds"

lemma drive_simps [simp]:
  "drive [] d = d"
  "drive (cmd # cmds) d = drive cmds (set_color (fst cmd) (snd cmd) d)"
  by (simp_all add: drive_def split_def)

lemma ok_drive: "ok d \<Longrightarrow> ok (drive cmds d)"
  by (induction cmds arbitrary: d) (simp_all add: ok_set)

lemma drive_untouched:
  "ok d \<Longrightarrow> i \<notin> fst ` set cmds \<Longrightarrow> shows_color d i c \<Longrightarrow> shows_color (drive cmds d) i c"
  by (induction cmds arbitrary: d) (auto simp: ok_set shows_set_other)

lemma drive_last:
  assumes "ok d" and "known d i" and "map_of (rev cmds) i = Some c"
  shows "shows_color (drive cmds d) i c"
  using assms
proof (induction cmds arbitrary: d)
  case (Cons cmd cmds)
  let ?d = "set_color (fst cmd) (snd cmd) d"
  have ok: "ok ?d" and known: "known ?d i" using Cons.prems by (simp_all add: ok_set known_set)
  show ?case
  proof (cases "map_of (rev cmds) i")
    case (Some c')
    with Cons.prems(3) have "c' = c" by (simp add: map_add_def)
    with Cons.IH [OF ok known] Some show ?thesis by simp
  next
    case None
    with Cons.prems(3) have "fst cmd = i" "snd cmd = c"
      by (auto simp: map_add_def split: if_splits)
    moreover from None have "i \<notin> fst ` set cmds" by (simp add: map_of_eq_None_iff)
    ultimately show ?thesis
      using drive_untouched [OF ok] shows_set_same [OF Cons.prems(1,2)] by simp
  qed
qed simp

end

definition channel_count :: "light \<Rightarrow> nat" where
  "channel_count l = (case light_kind l of RGB \<Rightarrow> 5 | UV \<Rightarrow> 2)"

definition disjoint_lights :: "lights_config \<Rightarrow> bool" where
  "disjoint_lights ls \<longleftrightarrow>
     (\<forall>(i, l) \<in> set ls. \<forall>(j, m) \<in> set ls. i \<noteq> j \<longrightarrow>
        light_offset l + channel_count l \<le> light_offset m \<or>
        light_offset m + channel_count m \<le> light_offset l)"

definition dmx_shows :: "dmx \<Rightarrow> u32 \<Rightarrow> color \<Rightarrow> bool" where
  "dmx_shows d i c \<longleftrightarrow>
     (case map_of (lightConfig d) i of
        None \<Rightarrow> False
      | Some l \<Rightarrow> window (light_offset l) (channel_count l) (dmxPacket d) = light_channels l c)"

definition dmx_known :: "dmx \<Rightarrow> u32 \<Rightarrow> bool" where
  "dmx_known d i \<longleftrightarrow> map_of (lightConfig d) i \<noteq> None"

definition dmx_ok :: "dmx \<Rightarrow> bool" where
  "dmx_ok d \<longleftrightarrow> wf_dmx d \<and> disjoint_lights (lightConfig d)"

lemma length_light_channels_count: "length (light_channels l c) = channel_count l"
  by (simp add: light_channels_def channel_count_def split: light_type.splits)

lemma light_fits:
  assumes "wf_dmx d"
  shows "light_offset l + length (light_channels l c) \<le> length (dmxPacket d)"
  using assms light_offset_bound [of l c] by (simp add: wf_dmx_def wf_packet_def)

lemma dmx_shows_set_same: "wf_dmx d \<Longrightarrow> dmx_known d i \<Longrightarrow> dmx_shows (dmx_set i c d) i c"
  using window_overwrite_same [OF light_fits]
  by (auto simp: dmx_shows_def dmx_known_def dmx_set_def length_light_channels_count)

lemma dmx_window_other:
  assumes "dmx_ok d" and "j \<noteq> i" and m: "map_of (lightConfig d) j = Some m"
  shows "window (light_offset m) (channel_count m) (dmxPacket (dmx_set i c d)) =
     window (light_offset m) (channel_count m) (dmxPacket d)"
proof (cases "map_of (lightConfig d) i")
  case (Some l)
  have "light_offset m + channel_count m \<le> light_offset l \<or>
      light_offset l + channel_count l \<le> light_offset m"
    using assms(1,2) map_of_SomeD [OF m] map_of_SomeD [OF Some]
    by (auto simp: dmx_ok_def disjoint_lights_def)
  with window_overwrite_other [OF light_fits [of d l c], of "light_offset m" "channel_count m"]
  show ?thesis using assms(1) Some by (simp add: dmx_ok_def dmx_set_def length_light_channels_count)
qed (simp add: dmx_set_def)

lemma dmx_shows_set_other:
  assumes "dmx_ok d" and "j \<noteq> i" and "dmx_shows d j c'"
  shows "dmx_shows (dmx_set i c d) j c'"
proof -
  from assms(3) obtain m where m: "map_of (lightConfig d) j = Some m"
    by (auto simp: dmx_shows_def split: option.splits)
  with dmx_window_other [OF assms(1,2) m] assms(3) show ?thesis by (simp add: dmx_shows_def)
qed

interpretation display: light_display dmx_set dmx_shows dmx_known dmx_ok
  by unfold_locales
    (auto simp: dmx_ok_def wf_dmx_set dmx_known_def intro: dmx_shows_set_same dmx_shows_set_other)

section \<open>Reading the configuration\<close>

lemma parse_light_emplaces:
  assumes "parse_light config i (w, ls) = Inr (w', ls')"
  shows "\<exists>l. ls' = map_emplace (of_nat i) l ls"
  using assms by (auto simp: parse_light_def Let_def bind_res_eq_Inr)

lemma parse_lights_keys:
  assumes "for_each (parse_light config) [0..<n] (w, []) = Inr (w', ls)" and "n \<le> 2 ^ 32"
  shows "map fst ls = map of_nat [0..<n]"
  using assms
proof (induction n arbitrary: w' ls)
  case (Suc n)
  from Suc.prems(1) obtain w1 ls1 where
    1: "for_each (parse_light config) [0..<n] (w, []) = Inr (w1, ls1)" and
    2: "parse_light config n (w1, ls1) = Inr (w', ls)"
    by (auto simp: for_each_append bind_res_eq_Inr)
  from Suc.IH [OF 1] Suc.prems(2) have keys: "map fst ls1 = map of_nat [0..<n]" by simp
  have "(of_nat n :: u32) \<notin> of_nat ` {0..<n}"
    using Suc.prems(2) by (auto simp: of_nat_u32_eq_iff)
  then have "map_of ls1 (of_nat n) = None"
    using arg_cong [OF keys, of set] by (simp add: map_of_eq_None_iff)
  with parse_light_emplaces [OF 2] keys show ?case by (auto simp: map_emplace_def)
qed simp

lemma distinct_of_nat_upt: "n \<le> 2 ^ 32 \<Longrightarrow> distinct (map (of_nat :: nat \<Rightarrow> u32) [0..<n])"
  by (auto simp: distinct_map inj_on_def of_nat_u32_eq_iff)

lemma LightsConfig_parse_keys:
  assumes "LightsConfig_parse config w = Inr (w', ls)"
  shows "\<exists>n. get_unsigned config ''global'' ''lights'' 0 = Inr n \<and>
     map fst ls = map of_nat [0..<unat n] \<and> distinct (map fst ls)"
proof -
  from assms obtain n w1 where n: "get_unsigned config ''global'' ''lights'' 0 = Inr n"
    and loop: "for_each (parse_light config) [0..<unat n] (w1, []) = Inr (w', ls)"
    by (auto simp: LightsConfig_parse_def bind_res_eq_Inr)
  have "unat n < 2 ^ LENGTH(32)" by (rule unsigned_less)
  then have b: "unat n \<le> 2 ^ 32" by simp
  from parse_lights_keys [OF loop b] distinct_of_nat_upt [OF b] n show ?thesis by auto
qed

lemma parse_light_ready:
  assumes "parse_light config i (w, ls) = Inr (w', ls')"
  shows "logger_ready w' = logger_ready w"
  using assms by (auto simp: parse_light_def Let_def bind_res_eq_Inr printf_def logger_ready_def)

lemma LightsConfig_parse_ready:
  assumes "LightsConfig_parse config w = Inr (w', ls)" and "logger_ready w"
  shows "logger_ready w'"
proof -
  from assms(1) obtain n :: u32 and w1 where
    log: "LOG_INFO (''number lights: '' @ to_string (unat n)) w = Inr w1"
    and loop: "for_each (parse_light config) [0..<unat n] (w1, []) = Inr (w', ls)"
    unfolding LightsConfig_parse_def by (elim bind_res_InrE)
  have "logger_ready w1" using log log.msg_keeps_ready [OF assms(2)] unfolding LOG_INFO_def by blast
  then have "case (w1, [] :: lights_config) of (w, _) \<Rightarrow> logger_ready w" by simp
  from for_each_invariant [OF loop, of "\<lambda>(w, _). logger_ready w", OF this] show ?thesis
    by (auto dest: parse_light_ready)
qed

lemma DMXController_wf:
  assumes "DMXController open_tty config w = Inr (w', d)"
  shows "wf_dmx d" and "initial_packet = Inr (dmxPacket d)"
    and "\<exists>n. get_unsigned config ''global'' ''lights'' 0 = Inr n \<and>
           map fst (lightConfig d) = map of_nat [0..<unat n]"
    and "tty_stream d = []" and "logger_ready w \<Longrightarrow> logger_ready w'"
proof -
  from assms obtain w1 ls where
    ls: "LightsConfig_parse config w = Inr (w1, ls)" "lightConfig d = ls"
    and d: "initial_packet = Inr (dmxPacket d)" "tty_stream d = []"
    and w': "global_logger w' = global_logger w1"
    by (auto simp: DMXController_def bind_res_eq_Inr Let_def printf_def)
  have "wf_packet (dmxPacket d)" using initial_packet_wf d(1) by (metis sum.inject(2))
  then show "wf_dmx d" using LightsConfig_parse_keys [OF ls(1)] ls(2) by (auto simp: wf_dmx_def)
  show "initial_packet = Inr (dmxPacket d)" "tty_stream d = []" by (fact d)+
  show "\<exists>n. get_unsigned config ''global'' ''lights'' 0 = Inr n \<and>
           map fst (lightConfig d) = map of_nat [0..<unat n]"
    using LightsConfig_parse_keys [OF ls(1)] ls(2) by auto
  show "logger_ready w \<Longrightarrow> logger_ready w'"
    using LightsConfig_parse_ready [OF ls(1)] w' by (simp add: logger_ready_def)
qed

text \<open>A configuration that the parser of lights accepts: numbers where numbers are read, a
  known type.\<close>

definition good_light :: "config \<Rightarrow> nat \<Rightarrow> bool" where
  "good_light config i \<longleftrightarrow>
     cfg.numeric config (light_section i) ''address'' \<and>
     cfg.numeric config (light_section i) ''numChannels'' \<and>
     config_value config (light_section i) ''type'' \<in> {None, Some ''rgb'', Some ''uv''}"

lemma light_section_nonempty [simp]: "light_section i \<noteq> []"
  by (simp add: light_section_def)

lemma parse_light_succeeds:
  assumes "good_light config i"
  shows "\<exists>r. parse_light config i (w, ls) = Inr r"
proof -
  obtain a where a: "get_unsigned config (light_section i) ''address'' 0 = Inr a"
    using cfg.uint_numeric [of "light_section i" "''address''" config 0] assms
    by (auto simp: good_light_def)
  obtain t where t: "get_string config (light_section i) ''type'' ''rgb'' = Inr t" "t \<in> {''rgb'', ''uv''}"
    using cfg.str_value [of "light_section i" "''type''" config "''rgb''"] assms
    by (auto simp: good_light_def split: option.splits)
  from t(2) obtain k where k: "parseLightType t = Inr k"
    by (auto simp: parseLightType_def lightTypeStrings_def)
  obtain n where
    n: "get_unsigned config (light_section i) ''numChannels'' (if k = UV then 2 else 5) = Inr n"
    using cfg.uint_numeric [of "light_section i" "''numChannels''" config] assms
    by (auto simp: good_light_def)
  show ?thesis using a t(1) k n by (simp add: parse_light_def Let_def)
qed

lemma parse_lights_succeed:
  "(\<forall>i \<in> set is. good_light config i) \<Longrightarrow> \<exists>r. for_each (parse_light config) is s = Inr r"
proof (induction "is" arbitrary: s)
  case (Cons i "is")
  obtain w ls where s: "s = (w, ls)" by (cases s)
  from Cons.prems obtain r where "parse_light config i (w, ls) = Inr r"
    using parse_light_succeeds by fastforce
  with Cons s show ?case by simp
qed simp

section \<open>Properties\<close>

lemma initial_packet_eq: "initial_packet = Inr ([0x7e, 0x06, 0x00, 0x02] @ replicate 512 0 @ [0xe7])"
  by code_simp

lemma set_commands_drive:
  assumes "logger_ready w" and "wf_dmx d"
  shows "\<exists>w'. for_each (\<lambda>(i, c). setLightColor i c) cmds (w, d) = Inr (w', display.drive cmds d) \<and> logger_ready w'"
  using assms
proof (induction cmds arbitrary: w d)
  case (Cons cmd cmds)
  obtain w1 where 1: "setLightColor (fst cmd) (snd cmd) (w, d) = Inr (w1, dmx_set (fst cmd) (snd cmd) d)" "logger_ready w1"
    using setLightColor_set [OF Cons.prems] by blast
  from Cons.IH [OF 1(2) wf_dmx_set [OF Cons.prems(2)]] 1(1) show ?case by (simp add: split_def)
qed simp

text \<open>C24. Light commands never fail on a well-formed frame and the last command to a light wins: after any
  sequence of commands, lights with disjoint channels show the colour last set, lights without a
  command show what they showed, commands to unknown lights are ignored, and the frame keeps its
  length, its header and its end mark.\<close>

theorem light_commands_last_wins:
  assumes "logger_ready w" and "dmx_ok d"
  shows "\<exists>w' d'. for_each (\<lambda>(i, c). setLightColor i c) cmds (w, d) = Inr (w', d') \<and> dmx_ok d' \<and>
     (\<forall>i c. dmx_known d i \<longrightarrow> map_of (rev cmds) i = Some c \<longrightarrow> dmx_shows d' i c) \<and>
     (\<forall>i c. map_of (rev cmds) i = None \<longrightarrow> dmx_shows d i c \<longrightarrow> dmx_shows d' i c)"
proof -
  have "wf_dmx d" using assms(2) by (simp add: dmx_ok_def)
  from set_commands_drive [OF assms(1) this] obtain w' where
    "for_each (\<lambda>(i, c). setLightColor i c) cmds (w, d) = Inr (w', display.drive cmds d)" by blast
  moreover have "dmx_ok (display.drive cmds d)" by (rule display.ok_drive [OF assms(2)])
  moreover have "dmx_shows (display.drive cmds d) i c" if "dmx_known d i" "map_of (rev cmds) i = Some c" for i c
    using assms(2) that by (rule display.drive_last)
  moreover have "dmx_shows (display.drive cmds d) i c" if "map_of (rev cmds) i = None" "dmx_shows d i c" for i c
    using assms(2) _ that(2) by (rule display.drive_untouched) (use that(1) in \<open>simp add: map_of_eq_None_iff\<close>)
  ultimately show ?thesis by (intro exI conjI allI impI)
qed

theorem light_commands_last_wins_witness:
  "\<exists>w' d'. for_each (\<lambda>(i, c). setLightColor i c)
       [(0, \<lparr>red = 1, green = 2, blue = 3\<rparr>), (7, \<lparr>red = 9, green = 9, blue = 9\<rparr>), (0, \<lparr>red = 4, green = 5, blue = 6\<rparr>)]
       (\<lparr>global_logger = Some \<lparr>log_filename = [], log_file = [], log_threshold = Error\<rparr>, stdout = []\<rparr>,
        \<lparr>dmx_fd = 3, dmxPacket = [0x7e, 0x06, 0x00, 0x02] @ replicate 512 0 @ [0xe7],
         lightConfig = [(0, \<lparr>light_kind = RGB, address = 1, numChannels = 5\<rparr>)],
         tty_mode = None, tty_stream = []\<rparr>) = Inr (w', d') \<and>
     dmx_shows d' 0 \<lparr>red = 4, green = 5, blue = 6\<rparr>"
proof -
  let ?w = "\<lparr>global_logger = Some \<lparr>log_filename = [], log_file = [], log_threshold = Error\<rparr>, stdout = []\<rparr>"
  let ?d = "\<lparr>dmx_fd = 3, dmxPacket = [0x7e, 0x06, 0x00, 0x02] @ replicate 512 0 @ [0xe7],
         lightConfig = [(0 :: u32, \<lparr>light_kind = RGB, address = 1, numChannels = 5\<rparr>)],
         tty_mode = None, tty_stream = []\<rparr>"
  have "logger_ready ?w" by (simp add: logger_ready_def)
  moreover have "dmx_ok ?d"
    by (simp add: dmx_ok_def wf_dmx_def wf_packet_def disjoint_lights_def nth_append)
  moreover have "dmx_known ?d 0" by (simp add: dmx_known_def)
  moreover let ?cmds = "[(0 :: u32, \<lparr>red = 1, green = 2, blue = 3\<rparr>),
      (7, \<lparr>red = 9, green = 9, blue = 9\<rparr>), (0, \<lparr>red = 4, green = 5, blue = 6\<rparr>)]"
  have "map_of (rev ?cmds) 0 = Some \<lparr>red = 4, green = 5, blue = 6\<rparr>" by simp
  ultimately show ?thesis
    using light_commands_last_wins [of ?w ?d ?cmds] by blast
qed

text \<open>C37. The intensity of an ultraviolet light is the weighted mean of the three channels, rounded down: it
  lies between the weakest and the strongest of them, so it fits the byte it is stored in.\<close>

theorem uv_intensity_is_mean:
  "unat (uv_intensity c) = (77 * unat (red c) + 150 * unat (green c) + 29 * unat (blue c)) div 256 \<and>
   min (unat (red c)) (min (unat (green c)) (unat (blue c))) \<le> unat (ucast (uv_intensity c) :: byte) \<and>
   unat (ucast (uv_intensity c) :: byte) \<le> max (unat (red c)) (max (unat (green c)) (unat (blue c)))"
proof -
  have b: "unat (x :: byte) < 256" for x using unsigned_less [of x, where 'a = nat] by simp
  have "max (unat (red c)) (max (unat (green c)) (unat (blue c))) < 256"
    using b [of "red c"] b [of "green c"] b [of "blue c"] by simp
  then have "unat (uv_intensity c) < 256"
    using uv_intensity_bounds(2) [of c] by linarith
  then have "unat (ucast (uv_intensity c) :: byte) = unat (uv_intensity c)"
    by (simp add: unsigned_ucast_eq take_bit_eq_mod)
  with unat_uv_intensity uv_intensity_bounds show ?thesis by simp
qed

text \<open>C25. The lights of a controller are numbered from 0 to one less than the configured number, and the new
  controller holds a well-formed, dark frame for them.\<close>

theorem controller_lights_numbered:
  assumes "DMXController open_tty config w = Inr (w', d)"
  shows "wf_dmx d \<and> (\<exists>n. get_unsigned config ''global'' ''lights'' 0 = Inr n \<and>
     map fst (getLightsConfig d) = map of_nat [0..<unat n]) \<and>
     dmxPacket d = [0x7e, 0x06, 0x00, 0x02] @ replicate 512 0 @ [0xe7]"
proof -
  note initial_packet_eq
  then have "dmxPacket d = [0x7e, 0x06, 0x00, 0x02] @ replicate 512 0 @ [0xe7]"
    using DMXController_wf(2) [OF assms] by (metis sum.inject(2))
  with DMXController_wf(1,3) [OF assms] show ?thesis unfolding getLightsConfig_def by blast
qed

theorem controller_lights_numbered_witness:
  "\<exists>w' d. DMXController (\<lambda>_. 3) (Config (\<lambda>_. Some (''[global]'' @ newline # ''lights = 2'')) ''f'')
       \<lparr>global_logger = Some \<lparr>log_filename = [], log_file = [], log_threshold = Error\<rparr>, stdout = []\<rparr> = Inr (w', d) \<and>
     wf_dmx d \<and> map fst (getLightsConfig d) = [0, 1]"
proof -
  let ?c = "Config (\<lambda>_. Some (''[global]'' @ newline # ''lights = 2'')) ''f''"
  let ?w = "\<lparr>global_logger = Some \<lparr>log_filename = [], log_file = [], log_threshold = Error\<rparr>, stdout = []\<rparr>"
  have "(case DMXController (\<lambda>_. 3) ?c ?w of Inr _ \<Rightarrow> True | _ \<Rightarrow> False)" by code_simp
  then obtain w' d where d: "DMXController (\<lambda>_. 3) ?c ?w = Inr (w', d)" by (auto split: sum.splits)
  have n: "get_unsigned ?c ''global'' ''lights'' 0 = Inr 2" by code_simp
  note props = controller_lights_numbered [OF d]
  then obtain k where k: "get_unsigned ?c ''global'' ''lights'' 0 = Inr k"
    "map fst (getLightsConfig d) = map of_nat [0..<unat k]" by blast
  from n k(1) have "k = 2" by simp
  with k(2) have "map fst (getLightsConfig d) = [0, 1]" by (simp add: upt_rec)
  then show ?thesis by (intro exI conjI) (rule d, use props in blast)
qed

text \<open>C38. The configured address of a light is stored in a byte: the light answers at the address modulo 256,
  so that the upper half of a DMX universe cannot be reached.\<close>

theorem light_address_wraps:
  assumes "config_value config (light_section i) ''address'' = Some (to_string m)" and "m < 2 ^ 31"
    and "parse_light config i (w, ls) = Inr (w', ls')" and "of_nat i \<notin> fst ` set ls"
  shows "\<exists>l. map_of ls' (of_nat i) = Some l \<and> light_offset l = m mod 256 + 4"
proof -
  have a: "get_unsigned config (light_section i) ''address'' 0 = Inr (of_nat m)"
    using cfg.uint_number [OF _ _ assms(1,2)] by (simp add: light_section_def)
  have "unat (ucast (of_nat m :: u32) :: byte) = m mod 256"
    using assms(2) by (simp add: unsigned_ucast_eq unat_of_nat take_bit_eq_mod)
  moreover from assms(3) a obtain kind channels where
    "ls' = map_emplace (of_nat i) \<lparr>light_kind = kind, address = ucast (of_nat m :: u32), numChannels = channels\<rparr> ls"
    by (auto simp: parse_light_def Let_def bind_res_eq_Inr)
  moreover have "map_of ls (of_nat i) = None" using assms(4) by (simp add: map_of_eq_None_iff)
  ultimately show ?thesis by (simp add: map_emplace_def light_offset_def map_add_def)
qed

theorem light_address_wraps_witness:
  "\<exists>ls' l. parse_light (Config (\<lambda>_. Some (''[light0]'' @ newline # ''address = 257'')) ''f'') 0
       (\<lparr>global_logger = None, stdout = []\<rparr>, []) = Inr ls' \<and> map_of (snd ls') 0 = Some l \<and> light_offset l = 5"
proof -
  let ?c = "Config (\<lambda>_. Some (''[light0]'' @ newline # ''address = 257'')) ''f''"
  let ?w = "\<lparr>global_logger = None, stdout = []\<rparr>"
  have v: "config_value ?c (light_section 0) ''address'' = Some (to_string 257)" by code_simp
  have "\<exists>w' ls'. parse_light ?c 0 (?w, []) = Inr (w', ls')"
  proof -
    have "(case parse_light ?c 0 (?w, []) of Inr _ \<Rightarrow> True | _ \<Rightarrow> False)" by code_simp
    then show ?thesis by (auto split: sum.splits)
  qed
  then obtain w' ls' where p: "parse_light ?c 0 (?w, []) = Inr (w', ls')" by blast
  have "\<exists>l. map_of ls' (of_nat 0) = Some l \<and> light_offset l = 257 mod 256 + 4"
    by (rule light_address_wraps [OF v _ p]) simp_all
  with p show ?thesis by auto
qed

end
