(* ===== verification/Json_Serializer.thy ===== *)
theory Json_Serializer
  imports Cpp_Prelude "HOL-Library.Char_ord" "HOL-Library.List_Lexorder"
begin

text \<open>
  Model of the JSON library's output side, which writes the message for the monitors:
  \<^verbatim>\<open>src/foreign/nlohmann_json/include/nlohmann/detail/output/serializer.hpp\<close> and, for
  \<open>dump\<close> and \<open>operator[]\<close>, \<^verbatim>\<open>src/foreign/nlohmann_json/include/nlohmann/json.hpp\<close>.

  An object is an association list kept in the order of \<open>std::map\<close> (\<open>map_assign\<close>).
  The serializer's state is its output, the indentation string and the 64 bytes of
  \<open>number_buffer\<close>; \<open>string_buffer\<close> is used inside \<open>dump_escaped\<close> only, where the
  list of the bytes written so far stands for it and a write past its 512 bytes is
  undefined behaviour. The text of a floating-point number is a parameter
  (\<open>dump_float\<close>); the double itself is given by its 64 bits.

  The main results: no write leaves a buffer, integers come out in decimal, and strings of
  ASCII characters come out escaped character by character.
\<close>

section \<open>Values and objects\<close>

datatype json =
    JObject "(string \<times> json) list"
  | JArray "json list"
  | JString string
  | JBool bool
  | JInteger int
  | JUnsigned nat
  | JFloat u64
  | JDiscarded
  | JNull

fun map_assign :: "string \<Rightarrow> 'v \<Rightarrow> (string \<times> 'v) list \<Rightarrow> (string \<times> 'v) list" where
  "map_assign k v [] = [(k, v)]"
| "map_assign k v ((k', v') # m) =
     (if k = k' then (k, v) # m
      else if k < k' then (k, v) # (k', v') # m
      else (k', v') # map_assign k v m)"

text \<open>\<open>j[key] = v\<close>: a null value becomes an object first.\<close>

fun type_name :: "json \<Rightarrow> string" where
  "type_name JNull = ''null''"
| "type_name (JObject m) = ''object''"
| "type_name (JArray vs) = ''array''"
| "type_name (JString str) = ''string''"
| "type_name (JBool b) = ''boolean''"
| "type_name JDiscarded = ''discarded''"
| "type_name (JInteger x) = ''number''"
| "type_name (JUnsigned x) = ''number''"
| "type_name (JFloat x) = ''number''"

definition json_index_assign :: "string \<Rightarrow> json \<Rightarrow> json \<Rightarrow> json res" where
  "json_index_assign key v j =
     (case j of
        JNull \<Rightarrow> Inr (JObject (map_assign key v []))
      | JObject m \<Rightarrow> Inr (JObject (map_assign key v m))
      | _ \<Rightarrow> Inl (Type_error 305 (''cannot use operator[] with a string argument with '' @ type_name j)))"

section \<open>The UTF-8 automaton\<close>

definition UTF8_ACCEPT :: nat where "UTF8_ACCEPT = 0"
definition UTF8_REJECT :: nat where "UTF8_REJECT = 1"

definition utf8d :: "nat list" where
  "utf8d =
     replicate 128 0 @
     replicate 16 1 @ replicate 16 9 @
     replicate 32 7 @
     replicate 2 8 @ replicate 30 2 @
     [0xA, 0x3, 0x3, 0x3, 0x3, 0x3, 0x3, 0x3, 0x3, 0x3, 0x3, 0x3, 0x3, 0x4, 0x3, 0x3] @
     [0xB, 0x6, 0x6, 0x6, 0x5, 0x8, 0x8, 0x8, 0x8, 0x8, 0x8, 0x8, 0x8, 0x8, 0x8, 0x8] @
     [0x0, 0x1, 0x2, 0x3, 0x5, 0x8, 0x7, 0x1, 0x1, 0x1, 0x4, 0x6, 0x1, 0x1, 0x1, 0x1] @
     [1, 1, 1, 1, 1, 1, 1, 1, 1, 1, 1, 1, 1, 1, 1, 1, 1, 0, 1, 1, 1, 1, 1, 0, 1, 0, 1, 1, 1, 1, 1, 1] @
     [1, 2, 1, 1, 1, 1, 1, 2, 1, 2, 1, 1, 1, 1, 1, 1, 1, 1, 1, 1, 1, 1, 1, 2, 1, 1, 1, 1, 1, 1, 1, 1] @
     [1, 2, 1, 1, 1, 1, 1, 1, 1, 2, 1, 1, 1, 1, 1, 1, 1, 1, 1, 1, 1, 1, 1, 3, 1, 3, 1, 1, 1, 1, 1, 1] @
     [1, 3, 1, 1, 1, 1, 1, 3, 1, 3, 1, 1, 1, 1, 1, 1, 1, 3, 1, 1, 1, 1, 1, 1, 1, 1, 1, 1, 1, 1, 1, 1]"

text \<open>The new state and the new code point. \<open>codep\<close> is an \<open>uint32_t\<close>; the bits the shift
  moves in are free, so \<open>|\<close> is a sum, and the mask \<open>0xFF >> type\<close> keeps a remainder.\<close>

definition decode :: "nat \<Rightarrow> nat \<Rightarrow> nat \<Rightarrow> nat \<times> nat" where
  "decode state codep byte =
     (let type = utf8d ! byte;
          codep' = (if state \<noteq> UTF8_ACCEPT then (byte mod 64 + codep * 64) mod 2 ^ 32
                    else byte mod (255 div 2 ^ type + 1))
      in (utf8d ! (256 + state * 16 + type), codep'))"

section \<open>Escaping a string\<close>

datatype error_handler = strict | replace | ignore

definition hex_digit :: "nat \<Rightarrow> char" where
  "hex_digit d = (if d < 10 then char_of (48 + d) else char_of (87 + d))"

definition hex_digit_upper :: "nat \<Rightarrow> char" where
  "hex_digit_upper d = (if d < 10 then char_of (48 + d) else char_of (55 + d))"

definition hex4 :: "nat \<Rightarrow> string" where
  "hex4 n = map hex_digit [n div 4096 mod 16, n div 256 mod 16, n div 16 mod 16, n mod 16]"

definition hex2_upper :: "nat \<Rightarrow> string" where
  "hex2_upper n = map hex_digit_upper [n div 16 mod 16, n mod 16]"

text \<open>Writing at \<open>string_buffer[bytes]\<close>; \<open>snprintf\<close> also writes a final NUL.\<close>

definition buf_put :: "string \<Rightarrow> string \<Rightarrow> string res" where
  "buf_put cs buf = (if length buf + length cs \<le> 512 then Inr (buf @ cs) else Inl Undefined_behaviour)"

definition buf_snprintf :: "string \<Rightarrow> string \<Rightarrow> string res" where
  "buf_snprintf cs buf = (if length buf + length cs + 1 \<le> 512 then Inr (buf @ cs) else Inl Undefined_behaviour)"

definition backslash :: char where "backslash = CHR 0x5C"
definition quote :: char where "quote = CHR 0x22"

definition put_codepoint :: "bool \<Rightarrow> nat \<Rightarrow> char \<Rightarrow> string \<Rightarrow> string res" where
  "put_codepoint ensure_ascii codepoint c buf =
     (if codepoint = 0x08 then buf_put [backslash, CHR ''b''] buf
      else if codepoint = 0x09 then buf_put [backslash, CHR ''t''] buf
      else if codepoint = 0x0A then buf_put [backslash, CHR ''n''] buf
      else if codepoint = 0x0C then buf_put [backslash, CHR ''f''] buf
      else if codepoint = 0x0D then buf_put [backslash, CHR ''r''] buf
      else if codepoint = 0x22 then buf_put [backslash, quote] buf
      else if codepoint = 0x5C then buf_put [backslash, backslash] buf
      else if codepoint \<le> 0x1F \<or> (ensure_ascii \<and> 0x7F \<le> codepoint) then
        (if codepoint \<le> 0xFFFF then buf_snprintf ([backslash, CHR ''u''] @ hex4 codepoint) buf
         else buf_snprintf ([backslash, CHR ''u''] @ hex4 ((0xD7C0 + codepoint div 1024) mod 2 ^ 16)
                @ [backslash, CHR ''u''] @ hex4 ((0xDC00 + codepoint mod 1024) mod 2 ^ 16)) buf)
      else buf_put [c] buf)"

record escape_state =
  esc_state :: nat
  esc_codepoint :: nat
  esc_buf :: string
  esc_last_accept :: nat
  esc_undumped :: nat
  esc_out :: string

definition flush_if_full :: "escape_state \<Rightarrow> escape_state" where
  "flush_if_full st =
     (if 512 - length (esc_buf st) < 13 then st\<lparr>esc_out := esc_out st @ esc_buf st, esc_buf := []\<rparr> else st)"

definition remember_accept :: "escape_state \<Rightarrow> escape_state" where
  "remember_accept st = st\<lparr>esc_last_accept := length (esc_buf st)\<rparr>"

definition invalid_byte_message :: "nat \<Rightarrow> nat \<Rightarrow> string" where
  "invalid_byte_message i byte = ''invalid UTF-8 byte at index '' @ to_string i @ '': 0x'' @ hex2_upper byte"

definition incomplete_message :: "nat \<Rightarrow> string" where
  "incomplete_message byte = ''incomplete UTF-8 string; last byte: 0x'' @ hex2_upper byte"

definition replacement :: "bool \<Rightarrow> string" where
  "replacement ensure_ascii =
     (if ensure_ascii then [backslash, CHR ''u'', CHR ''f'', CHR ''f'', CHR ''f'', CHR ''d'']
      else [CHR 0xEF, CHR 0xBF, CHR 0xBD])"

text \<open>One round of the loop for the byte at index \<open>i\<close>. The flag says that \<open>--i\<close> makes the
  next round read the same byte again.\<close>

definition escape_step ::
    "error_handler \<Rightarrow> bool \<Rightarrow> nat \<Rightarrow> char \<Rightarrow> escape_state \<Rightarrow> (bool \<times> escape_state) res" where
  "escape_step handler ensure_ascii i c st0 =
     (let byte = of_char c;
          (state, codepoint) = decode (esc_state st0) (esc_codepoint st0) byte;
          st = st0\<lparr>esc_state := state, esc_codepoint := codepoint\<rparr>
      in if state = UTF8_ACCEPT then
           bind_res (put_codepoint ensure_ascii codepoint c (esc_buf st)) (\<lambda>buf.
             Inr (False, (remember_accept (flush_if_full (st\<lparr>esc_buf := buf\<rparr>)))\<lparr>esc_undumped := 0\<rparr>))
         else if state = UTF8_REJECT then
           (case handler of
              strict \<Rightarrow> Inl (Type_error 316 (invalid_byte_message i byte))
            | _ \<Rightarrow>
                let again = (0 < esc_undumped st);
                    st1 = st\<lparr>esc_buf := take (esc_last_accept st) (esc_buf st)\<rparr>
                in bind_res
                     (if handler = replace
                      then bind_res (buf_put (replacement ensure_ascii) (esc_buf st1)) (\<lambda>buf.
                             Inr (remember_accept (flush_if_full (st1\<lparr>esc_buf := buf\<rparr>))))
                      else Inr st1)
                     (\<lambda>st2. Inr (again, st2\<lparr>esc_undumped := 0, esc_state := UTF8_ACCEPT\<rparr>)))
         else
           bind_res (if \<not> ensure_ascii then buf_put [c] (esc_buf st) else Inr (esc_buf st)) (\<lambda>buf.
             Inr (False, st\<lparr>esc_buf := buf, esc_undumped := esc_undumped st + 1\<rparr>)))"

lemma escape_step_again:
  "escape_step handler ea i c st = Inr (True, st') \<Longrightarrow> 0 < esc_undumped st \<and> esc_undumped st' = 0"
  by (auto simp: escape_step_def Let_def bind_res_eq_Inr split: prod.splits if_splits error_handler.splits)

function escape_loop :: "error_handler \<Rightarrow> bool \<Rightarrow> string \<Rightarrow> nat \<Rightarrow> escape_state \<Rightarrow> escape_state res" where
  "escape_loop handler ensure_ascii s i st =
     (if i < length s then
        bind_res (escape_step handler ensure_ascii i (s ! i) st) (\<lambda>(again, st').
          escape_loop handler ensure_ascii s (if again then i else i + 1) st')
      else Inr st)"
  by pat_completeness auto
termination
proof (relation "measure (\<lambda>(h, ea, s, i, st). 2 * (length s - i) + (if 0 < esc_undumped st then 1 else 0))", goal_cases)
  case (2 handler ensure_ascii s i st x again st')
  then show ?case using escape_step_again [of handler ensure_ascii i "s ! i" st st']
    by (cases again) auto
qed simp

declare escape_loop.simps [simp del]

definition dump_escaped :: "error_handler \<Rightarrow> bool \<Rightarrow> string \<Rightarrow> string \<Rightarrow> string res" where
  "dump_escaped handler ensure_ascii s out =
     bind_res (escape_loop handler ensure_ascii s 0
         \<lparr>esc_state = UTF8_ACCEPT, esc_codepoint = 0, esc_buf = [], esc_last_accept = 0,
          esc_undumped = 0, esc_out = out\<rparr>) (\<lambda>st.
       if esc_state st = UTF8_ACCEPT then Inr (esc_out st @ esc_buf st)
       else (case handler of
               strict \<Rightarrow> Inl (Type_error 316 (incomplete_message (of_char (last s))))
             | ignore \<Rightarrow> Inr (esc_out st @ take (esc_last_accept st) (esc_buf st))
             | replace \<Rightarrow> Inr (esc_out st @ take (esc_last_accept st) (esc_buf st) @ replacement ensure_ascii)))"

section \<open>Writing integers\<close>

text \<open>\<open>count_digits\<close> of an unsigned 64-bit number.\<close>

function count_digits_from :: "nat \<Rightarrow> nat \<Rightarrow> nat" where
  "count_digits_from n_digits x =
     (if x < 10 then n_digits
      else if x < 100 then n_digits + 1
      else if x < 1000 then n_digits + 2
      else if x < 10000 then n_digits + 3
      else count_digits_from (n_digits + 4) (x div 10000))"
  by pat_completeness auto
termination by (relation "measure (\<lambda>(n, x). x)") auto

declare count_digits_from.simps [simp del]

definition count_digits :: "nat \<Rightarrow> nat" where
  "count_digits x = count_digits_from 1 x"

definition digits_to_99 :: "(char \<times> char) list" where
  "digits_to_99 = map (\<lambda>d. (digit_char (d div 10), digit_char (d mod 10))) [0..<100]"

text \<open>\<open>*(--buffer_ptr) = c\<close> on \<open>number_buffer\<close>: the pointer is an index.\<close>

definition put_back :: "char \<Rightarrow> nat \<times> string \<Rightarrow> (nat \<times> string) res" where
  "put_back c = (\<lambda>(ptr, buf).
     if ptr = 0 then Inl Undefined_behaviour
     else bind_res (vec_set buf (ptr - 1) c) (\<lambda>buf'. Inr (ptr - 1, buf')))"

function put_pairs :: "nat \<Rightarrow> nat \<times> string \<Rightarrow> (nat \<times> nat \<times> string) res" where
  "put_pairs abs_value pb =
     (if 100 \<le> abs_value then
        (let digits_index = abs_value mod 100 in
         bind_res (put_back (snd (digits_to_99 ! digits_index)) pb) (\<lambda>pb1.
         bind_res (put_back (fst (digits_to_99 ! digits_index)) pb1) (\<lambda>pb2.
           put_pairs (abs_value div 100) pb2)))
      else Inr (abs_value, pb))"
  by pat_completeness auto
termination by (relation "measure (\<lambda>(x, pb). x)") auto

declare put_pairs.simps [simp del]

definition put_digits :: "nat \<Rightarrow> nat \<times> string \<Rightarrow> (nat \<times> string) res" where
  "put_digits abs_value pb =
     bind_res (put_pairs abs_value pb) (\<lambda>(rest, pb1).
       if 10 \<le> rest then
         bind_res (put_back (snd (digits_to_99 ! rest)) pb1) (put_back (fst (digits_to_99 ! rest)))
       else put_back (char_of (48 + rest)) pb1)"

text \<open>\<open>dump_integer\<close> on a value with its sign: \<open>remove_sign\<close> computes \<open>-(x + 1) + 1\<close>, which
  is the absolute value for every negative \<open>int64_t\<close>. The result is the output and the buffer.\<close>

definition dump_integer :: "int \<Rightarrow> string \<Rightarrow> string \<Rightarrow> (string \<times> string) res" where
  "dump_integer x number_buffer out =
     (if x = 0 then Inr (out @ ''0'', number_buffer)
      else
        let is_negative = (x < 0);
            abs_value = (if is_negative then nat (- (x + 1)) + 1 else nat x);
            n_chars = (if is_negative then 1 + count_digits abs_value else count_digits abs_value)
        in bind_res (if is_negative then vec_set number_buffer 0 (CHR ''-'') else Inr number_buffer) (\<lambda>buf0.
           bind_res (assert_that (n_chars < length buf0 - 1)) (\<lambda>_.
           bind_res (put_digits abs_value (n_chars, buf0)) (\<lambda>(ptr, buf).
             Inr (out @ take n_chars buf, buf)))))"

section \<open>Dumping a value\<close>

record serializer =
  ser_out :: string
  number_buffer :: string
  indent_string :: string

record dump_options =
  pretty_print :: bool
  ensure_ascii :: bool
  indent_step :: nat
  on_error :: error_handler

type_synonym printer = "nat \<Rightarrow> serializer \<Rightarrow> serializer res"

definition write_characters :: "string \<Rightarrow> serializer \<Rightarrow> serializer res" where
  "write_characters cs s = Inr (s\<lparr>ser_out := ser_out s @ cs\<rparr>)"

text \<open>\<open>write_characters(indent_string.c_str(), n)\<close>: the final NUL may be read, nothing behind
  it.\<close>

definition write_indent :: "nat \<Rightarrow> serializer \<Rightarrow> serializer res" where
  "write_indent n s =
     (if n \<le> length (indent_string s) + 1
      then Inr (s\<lparr>ser_out := ser_out s @ take n (indent_string s @ [CHR 0x00])\<rparr>)
      else Inl Undefined_behaviour)"

definition grow_indent :: "nat \<Rightarrow> serializer \<Rightarrow> serializer" where
  "grow_indent new_indent s =
     (if length (indent_string s) < new_indent
      then s\<lparr>indent_string := indent_string s @ replicate (length (indent_string s)) (CHR '' '')\<rparr>
      else s)"

definition ser_escaped :: "dump_options \<Rightarrow> string \<Rightarrow> serializer \<Rightarrow> serializer res" where
  "ser_escaped opt str s =
     bind_res (dump_escaped (on_error opt) (ensure_ascii opt) str (ser_out s)) (\<lambda>out.
       Inr (s\<lparr>ser_out := out\<rparr>))"

definition ser_integer :: "int \<Rightarrow> serializer \<Rightarrow> serializer res" where
  "ser_integer x s =
     bind_res (dump_integer x (number_buffer s) (ser_out s)) (\<lambda>(out, buf).
       Inr (s\<lparr>ser_out := out, number_buffer := buf\<rparr>))"

text \<open>One member of an object; the members but the last are followed by a comma.\<close>

definition dump_member :: "dump_options \<Rightarrow> nat \<Rightarrow> string \<times> printer \<Rightarrow> serializer \<Rightarrow> serializer res" where
  "dump_member opt new_indent kp s =
     bind_res (if pretty_print opt then write_indent new_indent s else Inr s) (\<lambda>s.
     bind_res (write_characters [quote] s) (\<lambda>s.
     bind_res (ser_escaped opt (fst kp) s) (\<lambda>s.
     bind_res (write_characters (if pretty_print opt then [quote, CHR '':'', CHR '' ''] else [quote, CHR '':'']) s)
       (snd kp new_indent))))"

definition dump_element :: "dump_options \<Rightarrow> nat \<Rightarrow> printer \<Rightarrow> serializer \<Rightarrow> serializer res" where
  "dump_element opt new_indent p s =
     bind_res (if pretty_print opt then write_indent new_indent s else Inr s) (p new_indent)"

fun dump_separated :: "dump_options \<Rightarrow> (serializer \<Rightarrow> serializer res) list \<Rightarrow> serializer \<Rightarrow> serializer res" where
  "dump_separated opt [] s = Inr s"
| "dump_separated opt [p] s = p s"
| "dump_separated opt (p # q # ps) s =
     bind_res (p s) (\<lambda>s.
     bind_res (write_characters (if pretty_print opt then [CHR '','', CHR 0x0A] else [CHR '','']) s)
       (dump_separated opt (q # ps)))"

definition dump_bracketed ::
    "dump_options \<Rightarrow> char \<Rightarrow> char \<Rightarrow> (nat \<Rightarrow> (serializer \<Rightarrow> serializer res) list) \<Rightarrow> printer" where
  "dump_bracketed opt open_char close_char items current_indent s =
     (if items 0 = [] then write_characters [open_char, close_char] s
      else if pretty_print opt then
        (let new_indent = current_indent + indent_step opt in
         bind_res (write_characters [open_char, CHR 0x0A] s) (\<lambda>s.
         bind_res (dump_separated opt (items new_indent) (grow_indent new_indent s)) (\<lambda>s.
         bind_res (write_characters [CHR 0x0A] s) (\<lambda>s.
         bind_res (write_indent current_indent s) (write_characters [close_char])))))
      else
        bind_res (write_characters [open_char] s) (\<lambda>s.
        bind_res (dump_separated opt (items current_indent) s) (write_characters [close_char])))"

primrec dump :: "(u64 \<Rightarrow> string) \<Rightarrow> dump_options \<Rightarrow> json \<Rightarrow> printer" where
  "dump dump_float opt (JObject kvs) =
     dump_bracketed opt (CHR ''{'') (CHR ''}'')
       (\<lambda>ind. map (dump_member opt ind) (map (map_prod id (dump dump_float opt)) kvs))"
| "dump dump_float opt (JArray vs) =
     dump_bracketed opt (CHR ''['') (CHR '']'')
       (\<lambda>ind. map (dump_element opt ind) (map (dump dump_float opt) vs))"
| "dump dump_float opt (JString str) = (\<lambda>ind s.
     bind_res (write_characters [quote] s) (\<lambda>s.
     bind_res (ser_escaped opt str s) (write_characters [quote])))"
| "dump dump_float opt (JBool b) = (\<lambda>ind. write_characters (if b then ''true'' else ''false''))"
| "dump dump_float opt (JInteger x) = (\<lambda>ind. ser_integer x)"
| "dump dump_float opt (JUnsigned x) = (\<lambda>ind. ser_integer (int x))"
| "dump dump_float opt (JFloat x) = (\<lambda>ind. write_characters (dump_float x))"
| "dump dump_float opt JDiscarded = (\<lambda>ind. write_characters ''<discarded>'')"
| "dump dump_float opt JNull = (\<lambda>ind. write_characters ''null'')"

text \<open>\<open>basic_json::dump\<close>: a negative indentation means the compact form.\<close>

definition json_dump :: "(u64 \<Rightarrow> string) \<Rightarrow> int \<Rightarrow> char \<Rightarrow> bool \<Rightarrow> error_handler \<Rightarrow> json \<Rightarrow> string res" where
  "json_dump dump_float indent indent_char ascii handler j =
     (let opt = (if 0 \<le> indent
                 then \<lparr>pretty_print = True, ensure_ascii = ascii, indent_step = nat indent, on_error = handler\<rparr>
                 else \<lparr>pretty_print = False, ensure_ascii = ascii, indent_step = 0, on_error = handler\<rparr>)
      in bind_res (dump dump_float opt j 0
             \<lparr>ser_out = [], number_buffer = replicate 64 (CHR 0x00), indent_string = replicate 512 indent_char\<rparr>)
           (\<lambda>s. Inr (ser_out s)))"

section \<open>Integers come out in decimal\<close>

lemma to_string_step: "10 \<le> x \<Longrightarrow> to_string x = to_string (x div 10) @ [digit_char (x mod 10)]"
  by (subst to_string.simps) simp

lemma to_string_digit: "x < 10 \<Longrightarrow> to_string x = [digit_char x]"
  by (subst to_string.simps) simp

lemma count_digits_from_length: "count_digits_from n x + 1 = n + length (to_string x)"
proof (induction n x rule: count_digits_from.induct)
  case (1 n x)
  have len: "10 \<le> y \<Longrightarrow> length (to_string y) = Suc (length (to_string (y div 10)))" for y
    by (simp add: to_string_step)
  have d: "x div 10 div 10 = x div 100" "x div 100 div 10 = x div 1000" "x div 1000 div 10 = x div 10000"
    by (simp_all add: div_mult2_eq [symmetric])
  note steps = len [of x] len [of "x div 10", unfolded d] len [of "x div 100", unfolded d]
    len [of "x div 1000", unfolded d]
  consider "x < 10" | "10 \<le> x" "x < 100" | "100 \<le> x" "x < 1000" | "1000 \<le> x" "x < 10000" | "10000 \<le> x"
    by linarith
  then show ?case
  proof cases
    case 5
    with "1.IH" steps show ?thesis by (simp add: count_digits_from.simps [of n x])
  qed (use steps in \<open>simp_all add: count_digits_from.simps [of n x] to_string_digit\<close>)
qed

lemma count_digits_length: "count_digits x = length (to_string x)"
  using count_digits_from_length [of 1 x] by (simp add: count_digits_def)

lemma put_back_in: "0 < p \<Longrightarrow> p \<le> length buf \<Longrightarrow> put_back c (p, buf) = Inr (p - 1, buf[p - 1 := c])"
  by (simp add: put_back_def)

lemma digits_to_99_nth: "d < 100 \<Longrightarrow> digits_to_99 ! d = (digit_char (d div 10), digit_char (d mod 10))"
  by (simp add: digits_to_99_def)

lemma to_string_two:
  "100 \<le> x \<Longrightarrow>
     to_string x = to_string (x div 100) @ [digit_char (x mod 100 div 10), digit_char (x mod 100 mod 10)]"
proof -
  assume x: "100 \<le> x"
  have "to_string (x div 10) = to_string (x div 100) @ [digit_char (x div 10 mod 10)]"
    using x by (subst to_string_step) (simp_all add: div_mult2_eq [symmetric])
  moreover have "x mod 100 div 10 = x div 10 mod 10" "x mod 100 mod 10 = x mod 10"
    by (simp_all add: mod_mult2_eq [of x 10 10, simplified] mod_mod_cancel)
  ultimately show ?thesis using x by (subst to_string_step) simp_all
qed

lemma put_digits_decimal:
  assumes "length (to_string x) \<le> p" and "p \<le> length buf"
  shows "put_digits x (p, buf) =
     Inr (p - length (to_string x), overwrite (p - length (to_string x)) (to_string x) buf)"
  using assms
proof (induction x arbitrary: p buf rule: less_induct)
  case (less x)
  consider "100 \<le> x" | "10 \<le> x" "x < 100" | "x < 10" by linarith
  then show ?case
  proof cases
    case 1
    let ?a = "digit_char (x mod 100 div 10)" and ?b = "digit_char (x mod 100 mod 10)"
    let ?L = "length (to_string (x div 100))"
    let ?buf = "buf[p - 1 := ?b, p - 2 := ?a]"
    from less.prems 1 have p: "?L + 2 \<le> p" "p \<le> length buf" by (simp_all add: to_string_two)
    then have "put_digits x (p, buf) = put_digits (x div 100) (p - 2, ?buf)"
      using 1 by (simp add: put_digits_def put_pairs.simps [of x] digits_to_99_nth put_back_in
          numeral_2_eq_2 Let_def)
    also have "\<dots> = Inr (p - 2 - ?L, overwrite (p - 2 - ?L) (to_string (x div 100)) ?buf)"
      using p 1 by (intro less.IH) simp_all
    also have "overwrite (p - 2 - ?L) (to_string (x div 100)) ?buf =
        overwrite (p - 2 - ?L) (to_string (x div 100) @ [?a, ?b]) buf"
      using overwrite_snoc [of "p - 2 - ?L" "to_string (x div 100) @ [?a]" buf ?b]
        overwrite_snoc [of "p - 2 - ?L" "to_string (x div 100)" "buf[p - 1 := ?b]" ?a] p
      by (simp add: Suc_diff_Suc numeral_2_eq_2)
    finally show ?thesis using 1 by (simp add: to_string_two)
  next
    case 2
    then have s: "to_string x = [digit_char (x div 10), digit_char (x mod 10)]"
      by (simp add: to_string_step to_string_digit)
    with less.prems 2 show ?thesis
      by (simp add: put_digits_def put_pairs.simps [of x] digits_to_99_nth put_back_in overwrite_Cons
          Suc_diff_Suc numeral_2_eq_2 list_update_swap)
  next
    case 3
    with less.prems show ?thesis
      by (simp add: put_digits_def put_pairs.simps [of x] put_back_in overwrite_Cons to_string_digit
          digit_char_def)
  qed
qed

lemma length_to_string_bound: "x < 10 ^ Suc k \<Longrightarrow> length (to_string x) \<le> Suc k"
proof (induction k arbitrary: x)
  case 0
  then show ?case by (simp add: to_string_digit)
next
  case (Suc k)
  show ?case
  proof (cases "x < 10")
    case True
    then show ?thesis by (simp add: to_string_digit)
  next
    case False
    from Suc.prems have "x div 10 < 10 ^ Suc k" by (simp add: div_less_iff_less_mult mult.commute)
    from Suc.IH [OF this] False show ?thesis by (simp add: to_string_step)
  qed
qed

lemma take_overwrite: "k + length xs \<le> length ys \<Longrightarrow> take (k + length xs) (overwrite k xs ys) = take k ys @ xs"
  by (simp add: overwrite_def)

text \<open>The text of every 64-bit integer fits the buffer and is written as its decimal form,
  whatever the buffer held before.\<close>

lemma dump_integer_decimal:
  assumes "length nb = 64" and "\<bar>x\<bar> < 10 ^ 20"
  shows "\<exists>nb'. dump_integer x nb out = Inr (out @ int_to_string x, nb') \<and> length nb' = 64"
proof (cases "x = 0")
  case True
  with assms(1) show ?thesis by (simp add: dump_integer_def int_to_string_def to_string_digit digit_char_def eval_simps)
next
  case False
  define a where "a = nat \<bar>x\<bar>"
  let ?L = "length (to_string a)"
  have "a < 10 ^ Suc 19" using assms(2) by (simp add: a_def nat_less_iff)
  then have L: "?L \<le> 20" using length_to_string_bound by fastforce
  show ?thesis
  proof (cases "x < 0")
    case True
    then have a: "Suc (nat (- x - 1)) = a" "nat (- x) = a" by (simp_all add: a_def)
    let ?buf = "nb[0 := CHR ''-'']"
    have "put_digits a (1 + ?L, ?buf) = Inr (1, overwrite 1 (to_string a) ?buf)"
      using put_digits_decimal [of a "1 + ?L" ?buf] L assms(1) by simp
    moreover have "take (1 + ?L) (overwrite 1 (to_string a) ?buf) = ''-'' @ to_string a"
      using take_overwrite [of 1 "to_string a" ?buf] L assms(1) by (cases nb) simp_all
    ultimately show ?thesis
      using True False L assms(1)
      by (simp add: dump_integer_def Let_def a count_digits_length int_to_string_def)
  next
    case nonneg: False
    then have a: "nat x = a" by (simp add: a_def)
    have "put_digits a (?L, nb) = Inr (0, overwrite 0 (to_string a) nb)"
      using put_digits_decimal [of a ?L nb] L assms(1) by simp
    moreover have "take ?L (overwrite 0 (to_string a) nb) = to_string a"
      using take_overwrite [of 0 "to_string a" nb] L assms(1) by simp
    ultimately show ?thesis
      using nonneg False L assms(1)
      by (simp add: dump_integer_def Let_def a count_digits_length int_to_string_def)
  qed
qed

section \<open>The automaton\<close>

definition byte_type :: "nat \<Rightarrow> nat" where
  "byte_type b =
     (if b < 128 then 0 else if b < 144 then 1 else if b < 160 then 9 else if b < 192 then 7
      else if b < 194 then 8 else if b < 224 then 2 else if b = 224 then 10 else if b = 237 then 4
      else if b < 240 then 3 else if b = 240 then 11 else if b < 244 then 6 else if b = 244 then 5 else 8)"

definition next_state :: "nat \<Rightarrow> nat \<Rightarrow> nat" where
  "next_state q t =
     (if q = 0 then [0, 1, 2, 3, 5, 8, 7, 1, 1, 1, 4, 6] ! t
      else if q = 2 then (if t \<in> {1, 7, 9} then 0 else 1)
      else if q = 3 then (if t \<in> {1, 7, 9} then 2 else 1)
      else if q = 4 then (if t = 7 then 2 else 1)
      else if q = 5 then (if t \<in> {1, 9} then 2 else 1)
      else if q = 6 then (if t \<in> {7, 9} then 3 else 1)
      else if q = 7 then (if t \<in> {1, 7, 9} then 3 else 1)
      else if q = 8 then (if t = 1 then 3 else 1)
      else 1)"

lemma utf8d_types: "take 256 utf8d = map byte_type [0..<256]"
  by code_simp

lemma utf8d_states:
  "list_all (\<lambda>q. list_all (\<lambda>t. utf8d ! (256 + q * 16 + t) = next_state q t) [0..<12]) [0..<9]"
  by code_simp

lemma utf8d_type: "b < 256 \<Longrightarrow> utf8d ! b = byte_type b"
proof -
  assume b: "b < 256"
  then have "utf8d ! b = take 256 utf8d ! b" by simp
  also have "\<dots> = byte_type b" unfolding utf8d_types using b by simp
  finally show ?thesis .
qed

lemma utf8d_state: "q < 9 \<Longrightarrow> t < 12 \<Longrightarrow> utf8d ! (256 + q * 16 + t) = next_state q t"
  using utf8d_states by (simp add: list_all_iff)

lemma byte_type_less: "byte_type b < 12"
  by (simp add: byte_type_def)

lemma decode_eq:
  "q < 9 \<Longrightarrow> b < 256 \<Longrightarrow> decode q cp b =
     (next_state q (byte_type b),
      if q \<noteq> 0 then (b mod 64 + cp * 64) mod 2 ^ 32 else b mod (255 div 2 ^ byte_type b + 1))"
  by (simp add: decode_def Let_def utf8d_type utf8d_state byte_type_less UTF8_ACCEPT_def)

text \<open>How many bytes are missing in a state, and what the code point may be there.\<close>

definition missing :: "nat \<Rightarrow> nat" where
  "missing q = (if q = 0 then 0 else if q = 2 then 1 else if q \<in> {3, 4, 5} then 2 else 3)"

definition partial_ok :: "nat \<Rightarrow> nat \<Rightarrow> bool" where
  "partial_ok q cp \<longleftrightarrow>
     q = 0 \<or> (q = 2 \<and> 2 \<le> cp \<and> cp < 2 ^ 16) \<or> (q = 3 \<and> 1 \<le> cp \<and> cp < 2 ^ 10) \<or> (q = 4 \<and> cp = 0) \<or>
     (q = 5 \<and> cp = 13) \<or> (q = 6 \<and> cp = 0) \<or> (q = 7 \<and> 1 \<le> cp \<and> cp \<le> 3) \<or> (q = 8 \<and> cp = 4)"

lemma partial_ok_less: "partial_ok q cp \<Longrightarrow> q < 9"
  by (auto simp: partial_ok_def)

lemma decode_ASCII: "b < 128 \<Longrightarrow> decode 0 cp b = (0, b)"
  by (simp add: decode_eq byte_type_def next_state_def)

lemma decode_lead2: "194 \<le> b \<Longrightarrow> b < 224 \<Longrightarrow> decode 0 cp b = (2, b - 192)"
  by (simp add: decode_eq byte_type_def next_state_def mod_nat_eqI)

lemma decode_lead3: "224 < b \<Longrightarrow> b < 240 \<Longrightarrow> b \<noteq> 237 \<Longrightarrow> decode 0 cp b = (3, b - 224)"
  by (simp add: decode_eq byte_type_def next_state_def mod_nat_eqI)

lemma decode_lead4: "240 < b \<Longrightarrow> b < 244 \<Longrightarrow> decode 0 cp b = (7, b - 240)"
  by (simp add: decode_eq byte_type_def next_state_def mod_nat_eqI)

lemma decode_lead_single:
  "decode 0 cp 224 = (4, 0)" "decode 0 cp 237 = (5, 13)" "decode 0 cp 240 = (6, 0)" "decode 0 cp 244 = (8, 4)"
  by (simp_all add: decode_eq byte_type_def next_state_def)

lemma decode_lead_bad: "(128 \<le> b \<and> b < 194) \<or> (244 < b \<and> b < 256) \<Longrightarrow> fst (decode 0 cp b) = 1"
  by (auto simp: decode_eq byte_type_def next_state_def)

lemma decode_lead:
  assumes "b < 256" and "decode 0 cp b = (q', cp')" and "q' \<noteq> 1"
  shows "partial_ok q' cp' \<and> (if q' = 0 then b < 128 \<and> cp' = b else 128 \<le> b)"
proof -
  consider "b < 128" | "194 \<le> b" "b < 224" | "224 < b" "b < 240" "b \<noteq> 237" | "240 < b" "b < 244"
    | "b = 224" | "b = 237" | "b = 240" | "b = 244" | "(128 \<le> b \<and> b < 194) \<or> (244 < b \<and> b < 256)"
    using assms(1) by linarith
  then show ?thesis
  proof cases
    case 9
    from decode_lead_bad [OF this, of cp] assms(2,3) show ?thesis by simp
  qed (use assms in \<open>auto simp: decode_ASCII decode_lead2 decode_lead3 decode_lead4 decode_lead_single partial_ok_def\<close>)
qed

lemma byte_type_cont:
  "byte_type b = Suc 0 \<longleftrightarrow> 128 \<le> b \<and> b < 144"
  "byte_type b = 9 \<longleftrightarrow> 144 \<le> b \<and> b < 160"
  "byte_type b = 7 \<longleftrightarrow> 160 \<le> b \<and> b < 192"
  by (auto simp: byte_type_def)

lemma next_state_cont:
  "next_state 2 (byte_type b) = (if 128 \<le> b \<and> b < 192 then 0 else 1)"
  "next_state 3 (byte_type b) = (if 128 \<le> b \<and> b < 192 then 2 else 1)"
  "next_state 4 (byte_type b) = (if 160 \<le> b \<and> b < 192 then 2 else 1)"
  "next_state 5 (byte_type b) = (if 128 \<le> b \<and> b < 160 then 2 else 1)"
  "next_state 6 (byte_type b) = (if 144 \<le> b \<and> b < 192 then 3 else 1)"
  "next_state 7 (byte_type b) = (if 128 \<le> b \<and> b < 192 then 3 else 1)"
  "next_state 8 (byte_type b) = (if 128 \<le> b \<and> b < 144 then 3 else 1)"
  by (simp_all add: next_state_def byte_type_cont) linarith+

lemma missing_simps:
  "missing 0 = 0" "missing 2 = 1" "missing 3 = 2" "missing 4 = 2" "missing 5 = 2"
  "missing 6 = 3" "missing 7 = 3" "missing 8 = 3"
  by (simp_all add: missing_def)

lemma partial_ok_simps:
  "partial_ok 0 cp" "partial_ok 2 cp \<longleftrightarrow> 2 \<le> cp \<and> cp < 2 ^ 16" "partial_ok 3 cp \<longleftrightarrow> 1 \<le> cp \<and> cp < 2 ^ 10"
  by (simp_all add: partial_ok_def)

lemma decode_continue:
  assumes "b < 256" and "partial_ok q cp" and "q \<noteq> 0" and "decode q cp b = (q', cp')" and "q' \<noteq> 1"
  shows "128 \<le> b" and "partial_ok q' cp'" and "missing q = Suc (missing q')" and "q' = 0 \<Longrightarrow> 128 \<le> cp'"
proof -
  have q: "q < 9" using assms(2) by (rule partial_ok_less)
  have q': "q' = next_state q (byte_type b)" and "cp' = (b mod 64 + cp * 64) mod 2 ^ 32"
    using assms(4) unfolding decode_eq [OF q assms(1)] using assms(3) by simp_all
  moreover have "cp < 2 ^ 16" using assms(2,3) by (auto simp: partial_ok_def)
  moreover have "b mod 64 < 64" by simp
  ultimately have cp': "cp' = b mod 64 + cp * 64" by simp
  have low: "b mod 64 = b - 128" if "128 \<le> b" "b < 192" using that by (intro mod_nat_eqI) auto
  from assms(2,3) consider
    "q = 2" "2 \<le> cp" "cp < 2 ^ 16" | "q = 3" "1 \<le> cp" "cp < 2 ^ 10" | "q = 4" "cp = 0" | "q = 5" "cp = 13"
    | "q = 6" "cp = 0" | "q = 7" "1 \<le> cp" "cp \<le> 3" | "q = 8" "cp = 4"
    unfolding partial_ok_def by blast
  then have "128 \<le> b \<and> partial_ok q' cp' \<and> missing q = Suc (missing q') \<and> (q' = 0 \<longrightarrow> 128 \<le> cp')"
    using assms(5) unfolding q' cp'
    by cases (cases "128 \<le> b \<and> b < 192"; auto simp: next_state_cont missing_simps partial_ok_simps low)+
  then show "128 \<le> b" "partial_ok q' cp'" "missing q = Suc (missing q')" "q' = 0 \<Longrightarrow> 128 \<le> cp'" by simp_all
qed

section \<open>The string buffer never overflows\<close>

definition escape_inv :: "bool \<Rightarrow> escape_state \<Rightarrow> bool" where
  "escape_inv ea st \<longleftrightarrow>
     partial_ok (esc_state st) (esc_codepoint st) \<and>
     length (esc_buf st) \<le> 499 + (if ea \<or> esc_state st = 0 then 0 else 4 - missing (esc_state st)) \<and>
     esc_last_accept st \<le> 499"

lemma length_hex4 [simp]: "length (hex4 n) = 4"
  by (simp add: hex4_def)

lemma put_codepoint_fits:
  assumes "length buf \<le> 499 \<or> (\<not> ea \<and> 128 \<le> cp \<and> length buf \<le> 502)"
  shows "\<exists>cs. put_codepoint ea cp c buf = Inr (buf @ cs)"
  using assms by (auto simp: put_codepoint_def buf_put_def buf_snprintf_def)

lemma missing_le: "missing q \<le> 3"
  by (simp add: missing_def)

lemma flush_fits: "length (esc_buf (flush_if_full st)) \<le> 499"
  by (auto simp: flush_if_full_def)

lemma flush_content: "esc_out (flush_if_full st) @ esc_buf (flush_if_full st) = esc_out st @ esc_buf st"
  by (simp add: flush_if_full_def)

lemma flush_frame [simp]:
  "esc_state (flush_if_full st) = esc_state st"
  "esc_codepoint (flush_if_full st) = esc_codepoint st"
  "esc_undumped (flush_if_full st) = esc_undumped st"
  by (simp_all add: flush_if_full_def)

lemma escape_inv_0: "partial_ok 0 cp"
  by (simp add: partial_ok_def)

lemma decode_ok:
  assumes "escape_inv ea st" and "decode (esc_state st) (esc_codepoint st) (of_char c) = (q', cp')" and "q' \<noteq> 1"
  shows "partial_ok q' cp'"
    and "q' = 0 \<Longrightarrow> length (esc_buf st) \<le> 499 \<or> (\<not> ea \<and> 128 \<le> cp' \<and> length (esc_buf st) \<le> 502)"
    and "q' \<noteq> 0 \<Longrightarrow> length (esc_buf st) + (if ea then 0 else 1) \<le> 499 + (if ea then 0 else 4 - missing q')"
proof -
  have b: "of_char c < (256::nat)" by simp
  note i = assms(1) [unfolded escape_inv_def]
  have "partial_ok q' cp' \<and>
      (q' = 0 \<longrightarrow> length (esc_buf st) \<le> 499 \<or> (\<not> ea \<and> 128 \<le> cp' \<and> length (esc_buf st) \<le> 502)) \<and>
      (q' \<noteq> 0 \<longrightarrow> length (esc_buf st) + (if ea then 0 else 1) \<le> 499 + (if ea then 0 else 4 - missing q'))"
  proof (cases "esc_state st = 0")
    case True
    with decode_lead [OF b] assms(2,3) i missing_le [of q'] show ?thesis by auto
  next
    case False
    note d = decode_continue [OF b _ False assms(2,3)]
    have m: "missing (esc_state st) = Suc (missing q')" using d i by blast
    have "q' = 0 \<Longrightarrow> missing q' = 0" by (simp add: missing_def)
    with d i False m missing_le [of q'] show ?thesis by (auto split: if_splits)
  qed
  then show "partial_ok q' cp'"
    "q' = 0 \<Longrightarrow> length (esc_buf st) \<le> 499 \<or> (\<not> ea \<and> 128 \<le> cp' \<and> length (esc_buf st) \<le> 502)"
    "q' \<noteq> 0 \<Longrightarrow> length (esc_buf st) + (if ea then 0 else 1) \<le> 499 + (if ea then 0 else 4 - missing q')"
    by simp_all
qed

lemma escape_inv_accept:
  "esc_state st = 0 \<Longrightarrow> escape_inv ea ((remember_accept (flush_if_full st))\<lparr>esc_undumped := n\<rparr>)"
  "escape_inv ea ((remember_accept (flush_if_full st))\<lparr>esc_undumped := n, esc_state := 0\<rparr>)"
  "escape_inv ea ((remember_accept (flush_if_full st))\<lparr>esc_state := 0, esc_undumped := n\<rparr>)"
  using flush_fits [of st] by (simp_all add: escape_inv_def remember_accept_def partial_ok_simps)

lemma escape_step_safe:
  assumes inv: "escape_inv ea st"
  shows "case escape_step handler ea i c st of
           Inl e \<Rightarrow> \<exists>msg. handler = strict \<and> e = Type_error 316 msg
         | Inr (again, st') \<Rightarrow> escape_inv ea st'"
proof -
  obtain q' cp' where d: "decode (esc_state st) (esc_codepoint st) (of_char c) = (q', cp')" by force
  have la: "esc_last_accept st \<le> 499" using inv by (simp add: escape_inv_def)
  note ok = decode_ok [OF inv d]
  consider "q' = 0" | "q' = 1" | "q' \<noteq> 0" "q' \<noteq> 1" by blast
  then show ?thesis
  proof cases
    case 1
    then obtain cs where "put_codepoint ea cp' c (esc_buf st) = Inr (esc_buf st @ cs)"
      using put_codepoint_fits [OF ok(2)] by auto
    with 1 d la show ?thesis
      by (simp add: escape_step_def UTF8_ACCEPT_def res_simps escape_inv_accept)
  next
    case 2
    have "length (take (esc_last_accept st) (esc_buf st)) \<le> 499" using la by simp
    with 2 d la show ?thesis
      by (cases handler)
         (simp_all add: escape_step_def UTF8_ACCEPT_def UTF8_REJECT_def res_simps Let_def buf_put_def replacement_def
            flush_fits remember_accept_def escape_inv_def partial_ok_simps)
  next
    case 3
    have "length (esc_buf st) < 512"
      using inv missing_le [of "esc_state st"] by (auto simp: escape_inv_def split: if_splits)
    with 3 d la ok show ?thesis
      by (auto simp: escape_step_def UTF8_ACCEPT_def UTF8_REJECT_def res_simps Let_def buf_put_def escape_inv_def)
  qed
qed

lemma escape_loop_safe:
  "escape_inv ea st \<Longrightarrow> case escape_loop handler ea s i st of
     Inl e \<Rightarrow> \<exists>msg. handler = strict \<and> e = Type_error 316 msg | Inr st' \<Rightarrow> escape_inv ea st'"
proof (induction handler ea s i st rule: escape_loop.induct)
  case (1 handler ea s i st)
  show ?case
  proof (cases "i < length s")
    case True
    with 1 escape_step_safe [OF "1.prems", of handler i "s ! i"] show ?thesis
      by (subst escape_loop.simps) (auto simp: bind_res_def split: sum.splits prod.splits)
  qed (use 1 in \<open>simp add: escape_loop.simps\<close>)
qed

section \<open>What a string looks like in the output\<close>

text \<open>The states of the automaton alone, and the text of one byte.\<close>

fun utf8_run :: "nat \<Rightarrow> string \<Rightarrow> nat" where
  "utf8_run q [] = q"
| "utf8_run q (c # cs) = (if q = UTF8_REJECT then UTF8_REJECT else utf8_run (next_state q (byte_type (of_char c))) cs)"

definition valid_utf8 :: "string \<Rightarrow> bool" where
  "valid_utf8 s \<longleftrightarrow> utf8_run UTF8_ACCEPT s = UTF8_ACCEPT"

definition escape_char :: "char \<Rightarrow> string" where
  "escape_char c =
     (let n = of_char c in
      if n = 0x08 then [backslash, CHR ''b''] else if n = 0x09 then [backslash, CHR ''t'']
      else if n = 0x0A then [backslash, CHR ''n''] else if n = 0x0C then [backslash, CHR ''f'']
      else if n = 0x0D then [backslash, CHR ''r''] else if n = 0x22 then [backslash, quote]
      else if n = 0x5C then [backslash, backslash]
      else if n \<le> 0x1F then [backslash, CHR ''u''] @ hex4 n else [c])"

definition escape_text :: "string \<Rightarrow> string" where
  "escape_text s = concat (map escape_char s)"

lemma escape_char_high: "128 \<le> (of_char c :: nat) \<Longrightarrow> escape_char c = [c]"
  by (simp add: escape_char_def Let_def)

lemma put_codepoint_low:
  "length buf \<le> 499 \<Longrightarrow> put_codepoint False (of_char c) c buf = Inr (buf @ escape_char c)"
  by (simp add: put_codepoint_def escape_char_def Let_def buf_put_def buf_snprintf_def)

lemma put_codepoint_high:
  "128 \<le> cp \<Longrightarrow> length buf \<le> 502 \<Longrightarrow> put_codepoint False cp c buf = Inr (buf @ [c])"
  by (simp add: put_codepoint_def buf_put_def)

lemma next_state_decode:
  "escape_inv ea st \<Longrightarrow> fst (decode (esc_state st) (esc_codepoint st) (of_char c)) =
     next_state (esc_state st) (byte_type (of_char c))"
  using partial_ok_less [of "esc_state st" "esc_codepoint st"]
  by (simp add: escape_inv_def decode_eq)

lemma put_accepted:
  assumes inv: "escape_inv False st" and d: "decode (esc_state st) (esc_codepoint st) (of_char c) = (0, cp')"
  shows "put_codepoint False cp' c (esc_buf st) = Inr (esc_buf st @ escape_char c)"
proof -
  have b: "of_char c < (256 :: nat)" by simp
  note i = inv [unfolded escape_inv_def]
  show ?thesis
  proof (cases "esc_state st = 0")
    case True
    with decode_lead [OF b] d have "cp' = of_char c" by fastforce
    with True i show ?thesis by (simp add: put_codepoint_low)
  next
    case False
    note dc = decode_continue [OF b _ False d]
    have "length (esc_buf st) \<le> 502" using i False missing_le [of "esc_state st"] dc(3) by (auto split: if_splits)
    with dc i show ?thesis by (simp add: put_codepoint_high escape_char_high)
  qed
qed

lemma escape_step_strict:
  assumes inv: "escape_inv False st" and q: "q' = next_state (esc_state st) (byte_type (of_char c))" "q' \<noteq> 1"
  shows "\<exists>st'. escape_step strict False i c st = Inr (False, st') \<and> escape_inv False st' \<and>
     esc_state st' = q' \<and> esc_out st' @ esc_buf st' = esc_out st @ esc_buf st @ escape_char c"
proof -
  obtain cp' where d: "decode (esc_state st) (esc_codepoint st) (of_char c) = (q', cp')"
    using next_state_decode [OF inv, of c] q(1) by (metis prod.collapse)
  have safe: "\<And>a st'. escape_step strict False i c st = Inr (a, st') \<Longrightarrow> escape_inv False st'"
    using escape_step_safe [OF inv, of strict i c] by simp
  show ?thesis
  proof (cases "q' = 0")
    case True
    with d put_accepted [OF inv] safe [of False] show ?thesis
      by (simp add: escape_step_def UTF8_ACCEPT_def remember_accept_def flush_content Let_def)
  next
    case False
    have len: "length (esc_buf st) < 512"
      using inv missing_le [of "esc_state st"] by (auto simp: escape_inv_def split: if_splits)
    have "128 \<le> (of_char c :: nat)"
    proof (cases "esc_state st = 0")
      case True
      with decode_lead [of "of_char c" "esc_codepoint st" q' cp'] d q(2) False show ?thesis by simp
    next
      case ne: False
      with decode_continue(1) [of "of_char c" "esc_state st" "esc_codepoint st" q' cp'] d q(2) inv
      show ?thesis by (simp add: escape_inv_def)
    qed
    with False d q(2) len safe [of False] show ?thesis
      by (simp add: escape_step_def UTF8_ACCEPT_def UTF8_REJECT_def buf_put_def escape_char_high Let_def)
  qed
qed


lemma escape_step_reject:
  assumes inv: "escape_inv False st" and q: "next_state (esc_state st) (byte_type (of_char c)) = 1"
  shows "\<exists>msg. escape_step strict False i c st = Inl (Type_error 316 msg)"
proof -
  obtain cp' where "decode (esc_state st) (esc_codepoint st) (of_char c) = (1, cp')"
    using next_state_decode [OF inv, of c] q by (metis prod.collapse)
  then show ?thesis by (simp add: escape_step_def UTF8_ACCEPT_def UTF8_REJECT_def)
qed

lemma utf8_run_reject [simp]: "utf8_run 1 s = 1" "utf8_run (Suc 0) s = Suc 0"
  by (induction s) (simp_all add: UTF8_REJECT_def)

lemma escape_inv_not_reject: "escape_inv ea st \<Longrightarrow> esc_state st \<noteq> 1"
  by (auto simp: escape_inv_def partial_ok_def)

lemma escape_loop_strict:
  assumes "escape_inv False st" and "i \<le> length s"
  shows "case escape_loop strict False s i st of
       Inl e \<Rightarrow> (\<exists>msg. e = Type_error 316 msg) \<and> utf8_run (esc_state st) (drop i s) = 1
     | Inr st' \<Rightarrow> esc_state st' = utf8_run (esc_state st) (drop i s) \<and> esc_state st' \<noteq> 1 \<and>
         esc_out st' @ esc_buf st' = esc_out st @ esc_buf st @ escape_text (drop i s)"
  using assms
proof (induction "length s - i" arbitrary: i st)
  case 0
  then have "drop i s = []" by simp
  with 0 escape_inv_not_reject [OF 0(2)] show ?case
    by (simp add: escape_loop.simps [of strict False s i] escape_text_def)
next
  case (Suc n)
  then have i: "i < length s" by simp
  then have drp: "drop i s = s ! i # drop (Suc i) s" by (simp add: Cons_nth_drop_Suc)
  let ?q = "next_state (esc_state st) (byte_type (of_char (s ! i)))"
  have run: "utf8_run (esc_state st) (drop i s) = utf8_run ?q (drop (Suc i) s)"
    using escape_inv_not_reject [OF Suc.prems(1)] by (simp add: drp UTF8_REJECT_def)
  show ?case
  proof (cases "?q = 1")
    case True
    from escape_step_reject [OF Suc.prems(1) True, of i] i run True show ?thesis
      by (auto simp: escape_loop.simps [of strict False s i])
  next
    case False
    obtain st' where st': "escape_step strict False i (s ! i) st = Inr (False, st')" "escape_inv False st'"
      "esc_state st' = ?q" "esc_out st' @ esc_buf st' = esc_out st @ esc_buf st @ escape_char (s ! i)"
      using escape_step_strict [OF Suc.prems(1) refl False] by blast
    have "escape_text (drop i s) = escape_char (s ! i) @ escape_text (drop (Suc i) s)"
      by (simp add: escape_text_def drp)
    moreover have "escape_loop strict False s i st = escape_loop strict False s (Suc i) st'"
      using i st'(1) by (simp add: escape_loop.simps [of strict False s i])
    moreover have "esc_out st' @ esc_buf st' @ t = esc_out st @ esc_buf st @ escape_char (s ! i) @ t" for t
      using st'(4) by (metis append_assoc)
    moreover have "n = length s - Suc i" "Suc i \<le> length s" using Suc.hyps(2) i by auto
    note IH = Suc.hyps(1) [OF this(1) st'(2) this(2)]
    ultimately show ?thesis using IH st'(3) run by (cases "escape_loop strict False s (Suc i) st'") simp_all
  qed
qed

lemma escape_inv_start:
  "escape_inv ea \<lparr>esc_state = UTF8_ACCEPT, esc_codepoint = cp, esc_buf = [], esc_last_accept = 0,
     esc_undumped = 0, esc_out = out\<rparr>"
  by (simp add: escape_inv_def UTF8_ACCEPT_def partial_ok_simps)

lemma dump_escaped_strict:
  "valid_utf8 s \<Longrightarrow> dump_escaped strict False s out = Inr (out @ escape_text s)"
  "\<not> valid_utf8 s \<Longrightarrow> \<exists>msg. dump_escaped strict False s out = Inl (Type_error 316 msg)"
  using escape_loop_strict [OF escape_inv_start, of 0 s 0 out]
  by (auto simp: dump_escaped_def valid_utf8_def UTF8_ACCEPT_def bind_res_def split: sum.splits)

lemma dump_escaped_safe:
  "case dump_escaped handler ea s out of
     Inl e \<Rightarrow> handler = strict \<and> (\<exists>msg. e = Type_error 316 msg) | Inr out' \<Rightarrow> True"
  using escape_loop_safe [OF escape_inv_start [of ea 0 out], of handler s 0]
  by (cases handler) (auto simp: dump_escaped_def bind_res_def split: sum.splits)

section \<open>The compact form of a value\<close>

fun commas :: "string list \<Rightarrow> string" where
  "commas [] = []"
| "commas [t] = t"
| "commas (t # u # ts) = t @ CHR '','' # commas (u # ts)"

definition member_text :: "string \<times> string \<Rightarrow> string" where
  "member_text kt = quote # escape_text (fst kt) @ [quote, CHR '':''] @ snd kt"

primrec json_text :: "(u64 \<Rightarrow> string) \<Rightarrow> json \<Rightarrow> string" where
  "json_text df (JObject kvs) = ''{'' @ commas (map member_text (map (map_prod id (json_text df)) kvs)) @ ''}''"
| "json_text df (JArray vs) = ''['' @ commas (map (json_text df) vs) @ '']''"
| "json_text df (JString str) = quote # escape_text str @ [quote]"
| "json_text df (JBool b) = (if b then ''true'' else ''false'')"
| "json_text df (JInteger x) = int_to_string x"
| "json_text df (JUnsigned x) = to_string x"
| "json_text df (JFloat x) = df x"
| "json_text df JDiscarded = ''<discarded>''"
| "json_text df JNull = ''null''"

text \<open>Every string is UTF-8 and every number fits its type.\<close>

primrec json_ok :: "json \<Rightarrow> bool" where
  "json_ok (JObject kvs) \<longleftrightarrow> list_all (\<lambda>(k, b). valid_utf8 k \<and> b) (map (map_prod id json_ok) kvs)"
| "json_ok (JArray vs) \<longleftrightarrow> list_all (\<lambda>b. b) (map json_ok vs)"
| "json_ok (JString str) \<longleftrightarrow> valid_utf8 str"
| "json_ok (JBool b) \<longleftrightarrow> True"
| "json_ok (JInteger x) \<longleftrightarrow> - (2 ^ 63) \<le> x \<and> x < 2 ^ 63"
| "json_ok (JUnsigned x) \<longleftrightarrow> x < 2 ^ 64"
| "json_ok (JFloat x) \<longleftrightarrow> True"
| "json_ok JDiscarded \<longleftrightarrow> True"
| "json_ok JNull \<longleftrightarrow> True"

text \<open>A printer writes a text: it appends it to the output and leaves the indentation alone.\<close>

definition writes :: "(serializer \<Rightarrow> serializer res) \<Rightarrow> string \<Rightarrow> bool" where
  "writes p t \<longleftrightarrow> (\<forall>s. length (number_buffer s) = 64 \<longrightarrow>
     (\<exists>s'. p s = Inr s' \<and> ser_out s' = ser_out s @ t \<and> length (number_buffer s') = 64 \<and>
           indent_string s' = indent_string s))"

lemma writes_id: "writes Inr []"
  by (simp add: writes_def)

lemma writes_characters: "writes (write_characters t) t"
  by (simp add: writes_def write_characters_def)

lemma writes_bind: "writes p t \<Longrightarrow> writes q u \<Longrightarrow> writes (\<lambda>s. bind_res (p s) q) (t @ u)"
  unfolding writes_def by fastforce

lemma writes_escaped:
  "on_error opt = strict \<Longrightarrow> \<not> ensure_ascii opt \<Longrightarrow> valid_utf8 str \<Longrightarrow> writes (ser_escaped opt str) (escape_text str)"
  by (simp add: writes_def ser_escaped_def dump_escaped_strict)

lemma writes_integer: "\<bar>x\<bar> < 10 ^ 20 \<Longrightarrow> writes (ser_integer x) (int_to_string x)"
  unfolding writes_def
proof (intro allI impI)
  fix s :: serializer
  assume "\<bar>x\<bar> < 10 ^ 20" and "length (number_buffer s) = 64"
  from dump_integer_decimal [OF this(2,1), of "ser_out s"]
  show "\<exists>s'. ser_integer x s = Inr s' \<and> ser_out s' = ser_out s @ int_to_string x \<and>
      length (number_buffer s') = 64 \<and> indent_string s' = indent_string s"
    by (auto simp: ser_integer_def)
qed

definition compact :: "dump_options \<Rightarrow> bool" where
  "compact opt \<longleftrightarrow> \<not> pretty_print opt \<and> \<not> ensure_ascii opt \<and> on_error opt = strict"

lemma writes_separated:
  assumes "compact opt" and "list_all2 writes ps ts"
  shows "writes (dump_separated opt ps) (commas ts)"
  using assms(2)
proof (induction ps ts rule: list_all2_induct)
  case Nil
  then show ?case by (simp add: writes_def)
next
  case (Cons p ps t ts)
  show ?case
  proof (cases ps)
    case Nil
    with Cons show ?thesis by (simp add: writes_def)
  next
    case (Cons q qs)
    with Cons.hyps(2) obtain u us where ts: "ts = u # us" by (auto simp: list_all2_Cons1)
    have "writes (\<lambda>s. bind_res (p s) (\<lambda>s. bind_res (write_characters [CHR '',''] s) (dump_separated opt ps)))
        (t @ [CHR '',''] @ commas ts)"
      by (rule writes_bind [OF Cons.hyps(1) writes_bind [OF writes_characters Cons.IH]])
    moreover have "dump_separated opt (p # ps) =
        (\<lambda>s. bind_res (p s) (\<lambda>s. bind_res (write_characters [CHR '',''] s) (dump_separated opt ps)))"
      using assms(1) Cons by (simp add: fun_eq_iff compact_def)
    ultimately show ?thesis using ts by simp
  qed
qed

lemma writes_member:
  assumes "compact opt" and "valid_utf8 (fst kp)" and "writes (snd kp ind) t"
  shows "writes (dump_member opt ind kp) (member_text (fst kp, t))"
proof -
  have "writes (\<lambda>s. bind_res (write_characters [quote] s) (\<lambda>s. bind_res (ser_escaped opt (fst kp) s)
      (\<lambda>s. bind_res (write_characters [quote, CHR '':''] s) (snd kp ind))))
      ([quote] @ escape_text (fst kp) @ [quote, CHR '':''] @ t)"
    using assms by (intro writes_bind writes_characters writes_escaped) (simp_all add: compact_def)
  moreover have "dump_member opt ind kp =
      (\<lambda>s. bind_res (write_characters [quote] s) (\<lambda>s. bind_res (ser_escaped opt (fst kp) s)
        (\<lambda>s. bind_res (write_characters [quote, CHR '':''] s) (snd kp ind))))"
    using assms(1) by (simp add: fun_eq_iff compact_def dump_member_def)
  ultimately show ?thesis by (simp add: member_text_def)
qed

lemma writes_bracketed:
  assumes "compact opt" and "\<And>ind. list_all2 writes (items ind) ts"
  shows "writes (dump_bracketed opt a b items ind) (a # commas ts @ [b])"
proof (cases "items 0 = []")
  case True
  with assms(2) [of 0] have "ts = []" by simp
  with True writes_characters [of "[a, b]"] show ?thesis by (simp add: writes_def dump_bracketed_def)
next
  case False
  have "writes (\<lambda>s. bind_res (write_characters [a] s) (\<lambda>s. bind_res (dump_separated opt (items ind) s)
      (write_characters [b]))) ([a] @ commas ts @ [b])"
    by (intro writes_bind writes_characters writes_separated assms)
  with False assms(1) show ?thesis by (simp add: writes_def dump_bracketed_def compact_def)
qed

lemma dump_compact:
  assumes "compact opt" and "json_ok j"
  shows "writes (dump df opt j ind) (json_text df j)"
  using assms(2)
proof (induction j arbitrary: ind)
  case (JObject kvs)
  have "list_all2 writes (map (dump_member opt n) (map (map_prod id (dump df opt)) kvs))
      (map member_text (map (map_prod id (json_text df)) kvs))" for n
    unfolding list_all2_map1 list_all2_map2
  proof (rule list.rel_refl_strong)
    fix kv
    assume kv: "kv \<in> set kvs"
    with JObject.prems have "valid_utf8 (fst kv)" "json_ok (snd kv)" by (auto simp: list_all_iff split_def)
    with JObject.IH [OF kv, of "snd kv"] show "writes (dump_member opt n (map_prod id (dump df opt) kv))
        (member_text (map_prod id (json_text df) kv))"
      using writes_member [OF assms(1), of "map_prod id (dump df opt) kv" n "json_text df (snd kv)"]
      by (cases kv) simp
  qed
  from writes_bracketed [OF assms(1), where items = "\<lambda>ind. map (dump_member opt ind) (map (map_prod id (dump df opt)) kvs)", OF this]
  show ?case by simp
next
  case (JArray vs)
  have "list_all2 writes (map (dump_element opt n) (map (dump df opt) vs)) (map (json_text df) vs)" for n
    unfolding list_all2_map1 list_all2_map2
  proof (rule list.rel_refl_strong)
    fix v
    assume v: "v \<in> set vs"
    with JArray.prems JArray.IH [OF v, of n] assms(1) show "writes (dump_element opt n (dump df opt v)) (json_text df v)"
      by (auto simp: list_all_iff writes_def dump_element_def compact_def)
  qed
  from writes_bracketed [OF assms(1), where items = "\<lambda>ind. map (dump_element opt ind) (map (dump df opt) vs)", OF this]
  show ?case by simp
next
  case (JString str)
  have "writes (\<lambda>s. bind_res (write_characters [quote] s) (\<lambda>s. bind_res (ser_escaped opt str s) (write_characters [quote])))
      ([quote] @ escape_text str @ [quote])"
    using assms(1) JString by (intro writes_bind writes_characters writes_escaped) (simp_all add: compact_def)
  then show ?case by simp
next
  case (JInteger x)
  then have "\<bar>x\<bar> < 10 ^ 20" by auto
  from writes_integer [OF this] show ?case by simp
next
  case (JUnsigned x)
  then have "\<bar>int x\<bar> < 10 ^ 20" by simp
  from writes_integer [OF this] show ?case by (simp add: int_to_string_def)
qed (simp_all add: writes_characters)

lemma json_dump_compact:
  assumes "json_ok j"
  shows "json_dump df (-1) c False strict j = Inr (json_text df j)"
proof -
  let ?opt = "\<lparr>pretty_print = False, ensure_ascii = False, indent_step = 0, on_error = strict\<rparr>"
  have "compact ?opt" by (simp add: compact_def)
  from dump_compact [OF this assms, of df 0, unfolded writes_def, rule_format,
      of "\<lparr>ser_out = [], number_buffer = replicate 64 (CHR 0x00), indent_string = replicate 512 c\<rparr>"]
  show ?thesis by (auto simp: json_dump_def)
qed


section \<open>Plain strings and objects\<close>

definition plain_char :: "char \<Rightarrow> bool" where
  "plain_char c \<longleftrightarrow> (let n = of_char c :: nat in 32 \<le> n \<and> n < 128 \<and> n \<noteq> 34 \<and> n \<noteq> 92)"

lemma valid_utf8_ASCII: "\<forall>c \<in> set s. of_char c < (128 :: nat) \<Longrightarrow> valid_utf8 s"
  by (induction s) (simp_all add: valid_utf8_def UTF8_ACCEPT_def UTF8_REJECT_def byte_type_def next_state_def)

lemma valid_utf8_plain: "\<forall>c \<in> set s. plain_char c \<Longrightarrow> valid_utf8 s"
  by (rule valid_utf8_ASCII) (auto simp: plain_char_def Let_def)

lemma escape_text_plain: "\<forall>c \<in> set s. plain_char c \<Longrightarrow> escape_text s = s"
  by (induction s) (simp_all add: escape_text_def escape_char_def plain_char_def Let_def)

text \<open>An object is kept sorted by its keys; assigning is an update of the map.\<close>

definition sorted_keys :: "(string \<times> 'v) list \<Rightarrow> bool" where
  "sorted_keys m \<longleftrightarrow> sorted_wrt (<) (map fst m)"

lemma set_map_assign: "fst ` set (map_assign k v m) = insert k (fst ` set m)"
  by (induction k v m rule: map_assign.induct) auto

lemma sorted_map_assign: "sorted_keys m \<Longrightarrow> sorted_keys (map_assign k v m)"
proof (induction k v m rule: map_assign.induct)
  case (2 k v k' v' m)
  then show ?case
    using set_map_assign [of k v m] by (auto simp: sorted_keys_def)
qed (simp add: sorted_keys_def)

lemma map_of_map_assign: "sorted_keys m \<Longrightarrow> map_of (map_assign k v m) = (map_of m)(k \<mapsto> v)"
proof (induction k v m rule: map_assign.induct)
  case (2 k v k' v' m)
  have "k < k' \<Longrightarrow> map_of m k = None" using 2(2) by (force simp: sorted_keys_def map_of_eq_None_iff)
  with 2 show ?case by (auto simp: sorted_keys_def fun_eq_iff)
qed simp

text \<open>Two sorted objects with the same members are the same.\<close>

lemma sorted_keys_unique:
  assumes "sorted_keys m" and "sorted_keys m'" and "map_of m = map_of m'"
  shows "m = m'"
proof -
  have d: "distinct (map fst m)" "distinct (map fst m')"
    using assms(1,2) by (auto simp: sorted_keys_def strict_sorted_iff)
  with assms(3) have s: "set m = set m'" by (simp add: map_of_inject_set)
  have "map fst m = map fst m'"
    using assms(1,2) s by (intro strict_sorted_equal) (auto simp: sorted_keys_def)
  moreover have "inj_on fst (set m \<union> set m')" using d s by (simp add: distinct_map)
  ultimately show ?thesis by (rule map_inj_on)
qed

section \<open>Properties\<close>

text \<open>C12. The compact form of a value whose strings are UTF-8 and whose numbers fit their types is
  its JSON text: objects and arrays with commas between the members and without white space,
  strings escaped character by character, integers in decimal.\<close>

theorem dump_is_text:
  assumes "json_ok j"
  shows "json_dump df (-1) c False strict j = Inr (json_text df j)"
  using assms by (rule json_dump_compact)

theorem dump_is_text_witness:
  "json_dump (\<lambda>_. []) (-1) (CHR '' '') False strict (JObject [(''a'', JUnsigned 10), (''b'', JArray [JNull, JString [CHR 0x0A]])]) =
     Inr (''{'' @ [quote] @ ''a'' @ [quote] @ '':10,'' @ [quote] @ ''b'' @ [quote] @ '':[null,''
       @ [quote, backslash] @ ''n'' @ [quote] @ '']}'')"
proof -
  let ?j = "JObject [(''a'', JUnsigned 10), (''b'', JArray [JNull, JString [CHR 0x0A]])]"
  have "json_ok ?j" by (simp add: valid_utf8_ASCII)
  from dump_is_text [OF this, of "\<lambda>_. []" "CHR '' ''"] show ?thesis
    by (simp add: member_text_def escape_text_def escape_char_def Let_def to_string.simps digit_char_def eval_simps)
qed

text \<open>C13. Escaping never writes outside the 512 bytes of \<open>string_buffer\<close>, for every input, every
  handler and both values of \<open>ensure_ascii\<close>: the only failure is the exception 316 of the
  strict handler.\<close>

theorem dump_escaped_no_overflow:
  "case dump_escaped handler ea s out of
     Inl e \<Rightarrow> handler = strict \<and> (\<exists>msg. e = Type_error 316 msg) | Inr out' \<Rightarrow> True"
  by (rule dump_escaped_safe)

text \<open>C14. The strict handler accepts exactly the strings the UTF-8 automaton accepts. Such a string
  comes out escaped character by character, however often the buffer is flushed; any other
  string is the exception 316.\<close>

theorem dump_escaped_text:
  "if valid_utf8 s then dump_escaped strict False s out = Inr (out @ escape_text s)
   else (\<exists>msg. dump_escaped strict False s out = Inl (Type_error 316 msg))"
  using dump_escaped_strict [of s out] by simp

text \<open>C33. The decimal text of every integer up to 64 bits comes out, through the 64 bytes of
  \<open>number_buffer\<close>, whatever they held before.\<close>

theorem dump_integer_text:
  assumes "length nb = 64" and "- (2 ^ 63) \<le> x" and "x < 2 ^ 64"
  shows "\<exists>nb'. dump_integer x nb out = Inr (out @ int_to_string x, nb') \<and> length nb' = 64"
proof -
  have "\<bar>x\<bar> < 10 ^ 20" using assms(2,3) by auto
  with assms(1) show ?thesis by (rule dump_integer_decimal)
qed

theorem dump_integer_text_witness:
  "\<exists>nb'. dump_integer (- 120) (replicate 64 (CHR ''x'')) ''n='' = Inr (''n=-120'', nb') \<and> length nb' = 64"
proof -
  have "int_to_string (- 120) = ''-120''"
    by (simp add: int_to_string_def to_string.simps digit_char_def eval_simps)
  with dump_integer_text [of "replicate 64 (CHR ''x'')" "- 120" "''n=''"] show ?thesis by simp
qed

text \<open>The indentation string is doubled at most once per level, so a step of indentation
  above 1025 makes \<open>dump\<close> read behind it.\<close>

theorem dump_wide_indent:
  assumes "1025 < n" and "vs \<noteq> []"
  shows "json_dump df n c ea handler (JArray vs) = Inl Undefined_behaviour"
proof -
  obtain v ws where "vs = v # ws" using assms(2) by (cases vs) auto
  moreover obtain m where "n = int m" "1025 < m" using assms(1) by (intro that [of "nat n"]) linarith+
  ultimately show ?thesis
    by (cases ws) (simp_all add: json_dump_def dump_bracketed_def Let_def write_characters_def grow_indent_def
      dump_element_def write_indent_def)
qed

theorem dump_wide_indent_witness:
  "json_dump (\<lambda>_. []) 2000 (CHR '' '') False strict (JArray [JNull]) = Inl Undefined_behaviour"
  by (rule dump_wide_indent) simp_all

end
