(* ===== verification/Serveri.thy ===== *)
theory Serveri
  imports Dmx_Controller Json_Serializer "HOL-Library.AList"
begin

text \<open>
  Model of \<^verbatim>\<open>src/valoserveri/serveri.cpp\<close>, the server: its state, the callbacks the
  WebSocket library calls, the poll loop and \<open>main\<close>, in the build with
  \<open>USE_LIBWEBSOCKETS\<close>.

  The record \<open>serveri\<close> is the object; its field \<open>globalServeri\<close> says that the static pointer
  of that name points to it, otherwise the pointer is null.
  Three fields record what the object does to the outside: \<open>logger\<close>, \<open>lws_calls\<close> (the
  calls into the WebSocket library, in order) and, inside \<open>dmx\<close>, the bytes the serial
  device has taken. What comes from outside is an argument: the result of \<open>poll\<close>, the
  datagrams, the callbacks the library makes while it serves a descriptor (an arbitrary list
  of events), the results of \<open>socket\<close>, \<open>bind\<close> and \<open>write\<close>. A \<open>struct lws *\<close> is a
  number, 0 the null pointer. \<open>lws_write\<close> may use the \<open>LWS_PRE\<close> bytes in front of the
  message; the program never reads them.

  The library calls back while the server calls it, too. Where a callback of the server calls the
  library this is the last thing the callback does, so what the library calls back then are the
  next events of the list. Where the loop asks for a monitor to become writable the callbacks are
  an answer of the system, \<open>poll_calls\<close>.
\<close>

section \<open>State\<close>

type_synonym wsi = nat

record light_state =
  tag :: string
  lights :: "(u32 \<times> color) list"

record pollfd =
  fd :: int
  events :: "16 word"
  revents :: "16 word"

text \<open>The callbacks in the table of protocols: \<open>callback\<close>, \<open>callback_monitor\<close> and the
  library's \<open>lws_callback_http_dummy\<close>.\<close>

datatype protocol = Proto_default | Proto_monitor | Proto_http

record lws_protocol =
  proto_name :: "string option"
  proto_callback :: "protocol option"
  rx_buffer_size :: nat
  proto_id :: nat
  tx_packet_size :: nat

record lws_info =
  info_port :: u32
  info_protocols :: "lws_protocol list"
  vhost_name :: string
  ws_ping_pong_interval :: nat

datatype lws_call =
    Create_context lws_info
  | Service
  | Service_fd pollfd
  | On_writable wsi
  | Write wsi "byte list"
  | Destroy_context

record serveri =
  globalServeri :: bool
  UDPfd :: int
  dmx_of :: dmx
  whitelist :: "char set"
  currentState :: light_state
  buflen :: nat
  ws_context :: nat
  monitorConnections :: "(wsi \<times> string) list"
  monitorMessage :: "byte list"
  pollfds :: "pollfd list"
  lightsDirty :: bool
  logger :: log_world
  lws_calls :: "lws_call list"

definition ADDRSIZE :: nat where "ADDRSIZE = 16"
definition LWS_PRE :: nat where "LWS_PRE = 16"

definition POLLIN :: "16 word" where "POLLIN = 1"
definition POLLERR :: "16 word" where "POLLERR = 8"

definition tagWhitelist :: string where
  "tagWhitelist =
     ''abcdefghijklmnopqrstuvwxyzABCDEFGHJKLMNOPQRSTUVWXYZ 0123456789!#%&/()[]{}=?+-*,.;:|<>''"

text \<open>The loop runs to \<open>sizeof(tagWhitelist)\<close>, so the final NUL is inserted too.\<close>

definition init_whitelist :: "char set" where
  "init_whitelist = fold insert (tagWhitelist @ [CHR 0x00]) {}"

definition log_to :: "log_level \<Rightarrow> string \<Rightarrow> serveri \<Rightarrow> serveri res" where
  "log_to l msg this = bind_res (log_message l msg (logger this)) (\<lambda>w. Inr (this\<lparr>logger := w\<rparr>))"

definition call_lws :: "lws_call \<Rightarrow> serveri \<Rightarrow> serveri" where
  "call_lws c this = this\<lparr>lws_calls := lws_calls this @ [c]\<rparr>"

section \<open>The table of descriptors\<close>

definition new_pollfd :: "int \<Rightarrow> int \<Rightarrow> pollfd" where
  "new_pollfd f ev = \<lparr>fd = f, events = word_of_int ev, revents = 0\<rparr>"

definition addFD :: "int \<Rightarrow> int \<Rightarrow> serveri \<Rightarrow> serveri res" where
  "addFD f ev this =
     bind_res (log_to Debug (''addFD '' @ int_to_string f @ '' '' @ int_to_string ev) this) (\<lambda>this.
       Inr (this\<lparr>pollfds := pollfds this @ [new_pollfd f ev]\<rparr>))"

fun erase_fd :: "int \<Rightarrow> pollfd list \<Rightarrow> pollfd list" where
  "erase_fd f [] = []"
| "erase_fd f (p # ps) = (if fd p = f then erase_fd f ps else p # erase_fd f ps)"

definition deleteFD :: "int \<Rightarrow> serveri \<Rightarrow> serveri res" where
  "deleteFD f this =
     bind_res (log_to Debug (''deleteFD '' @ int_to_string f) this) (\<lambda>this.
       Inr (this\<lparr>pollfds := erase_fd f (pollfds this)\<rparr>))"

fun update_events :: "int \<Rightarrow> int \<Rightarrow> pollfd list \<Rightarrow> pollfd list" where
  "update_events f ev [] = []"
| "update_events f ev (p # ps) =
     (if fd p = f then p\<lparr>events := word_of_int ev\<rparr> else p) # update_events f ev ps"

definition setFDEvents :: "int \<Rightarrow> int \<Rightarrow> serveri \<Rightarrow> serveri res" where
  "setFDEvents f ev this =
     bind_res (log_to Debug (''setModeFD '' @ int_to_string f @ '' '' @ int_to_string ev) this) (\<lambda>this.
       Inr (this\<lparr>pollfds := update_events f ev (pollfds this)\<rparr>))"

section \<open>The message for the monitors\<close>

definition hex2 :: "byte \<Rightarrow> string" where
  "hex2 b = [hex_digit (unat b div 16), hex_digit (unat b mod 16)]"

definition color_text :: "color \<Rightarrow> string" where
  "color_text c = hex2 (red c) @ hex2 (green c) @ hex2 (blue c)"

text \<open>\<open>currentState.lights[i]\<close>: a missing entry is inserted with the default colour.\<close>

definition lights_index :: "u32 \<Rightarrow> (u32 \<times> color) list \<Rightarrow> color \<times> (u32 \<times> color) list" where
  "lights_index i ls = (case map_of ls i of Some c \<Rightarrow> (c, ls) | None \<Rightarrow> (Color, ls @ [(i, Color)]))"

definition add_light_member ::
    "nat \<Rightarrow> json \<times> (u32 \<times> color) list \<Rightarrow> (json \<times> (u32 \<times> color) list) res" where
  "add_light_member i = (\<lambda>(j, ls).
     let (c, ls') = lights_index (of_nat i) ls in
     bind_res (json_index_assign (''light'' @ to_string i) (JString (color_text c)) j) (\<lambda>j'.
       Inr (j', ls')))"

definition state_json :: "light_state \<Rightarrow> (json \<times> (u32 \<times> color) list) res" where
  "state_json st =
     (let numLights = of_nat (length (lights st)) :: u32 in
      bind_res (json_index_assign ''numLights'' (JUnsigned (unat numLights)) JNull) (\<lambda>j.
      bind_res (json_index_assign ''tag'' (JString (tag st)) j) (\<lambda>j.
        for_each add_light_member [0..<unat numLights] (j, lights st))))"

definition resize :: "nat \<Rightarrow> 'a \<Rightarrow> 'a list \<Rightarrow> 'a list" where
  "resize n x v = take n v @ replicate (n - length v) x"

text \<open>The text of a floating-point number is not needed: the message has none.\<close>

definition no_floats :: "u64 \<Rightarrow> string" where
  "no_floats x = []"

definition updateMonitorMessage :: "serveri \<Rightarrow> serveri res" where
  "updateMonitorMessage this =
     bind_res (state_json (currentState this)) (\<lambda>(j, ls).
     bind_res (json_dump no_floats (-1) (CHR '' '') False strict j) (\<lambda>s.
       let message = resize (LWS_PRE + length s) 0 (monitorMessage this) in
       bind_res (vec_get message LWS_PRE) (\<lambda>_.
         Inr (this\<lparr>currentState := (currentState this)\<lparr>lights := ls\<rparr>,
                   monitorMessage := overwrite LWS_PRE (bytes_of_string s) message\<rparr>))))"

section \<open>Monitoring connections\<close>

text \<open>\<open>lws_get_peer_simple\<close> fills a zeroed buffer of \<open>ADDRSIZE\<close> bytes up to its last byte.\<close>

definition peer_address :: "(wsi \<Rightarrow> string) \<Rightarrow> wsi \<Rightarrow> string" where
  "peer_address peer w = c_str (take (ADDRSIZE - 1) (peer w))"

definition addMonitor :: "(wsi \<Rightarrow> string) \<Rightarrow> wsi \<Rightarrow> serveri \<Rightarrow> serveri res" where
  "addMonitor peer w this =
     bind_res (assert_that (w \<noteq> 0)) (\<lambda>_.
       let addr = peer_address peer w;
           this' = this\<lparr>monitorConnections := map_emplace w addr (monitorConnections this)\<rparr>
       in if map_of (monitorConnections this) w = None
          then log_to Debug (''Added monitoring connection '' @ addr) this'
          else log_to Error (''Tried to add duplicate monitoring connection '' @ addr) this')"

definition deleteMonitor :: "wsi \<Rightarrow> serveri \<Rightarrow> serveri res" where
  "deleteMonitor w this =
     bind_res (assert_that (w \<noteq> 0)) (\<lambda>_.
       case map_of (monitorConnections this) w of
         Some addr \<Rightarrow>
           bind_res (log_to Debug (''Deleted monitoring connection '' @ addr) this) (\<lambda>this.
             Inr (this\<lparr>monitorConnections := AList.delete w (monitorConnections this)\<rparr>))
       | None \<Rightarrow> log_to Error ''Tried to delete nonexistent monitoring connection'' this)"

section \<open>A light packet\<close>

fun erase_bad :: "char set \<Rightarrow> string \<Rightarrow> string" where
  "erase_bad wl [] = []"
| "erase_bad wl (c # cs) = (if c \<notin> wl then erase_bad wl cs else c # erase_bad wl cs)"

definition light_line :: "light_color \<Rightarrow> string" where
  "light_line l = to_string (unat (lc_index l)) @ '': '' @ to_string (unat (red (lc_color l))) @ '' ''
     @ to_string (unat (green (lc_color l))) @ '' '' @ to_string (unat (blue (lc_color l)))"

definition apply_light :: "light_color \<Rightarrow> serveri \<Rightarrow> serveri res" where
  "apply_light l this =
     bind_res (log_to Debug (light_line l) this) (\<lambda>this.
     bind_res (setLightColor (lc_index l) (lc_color l) (logger this, dmx_of this)) (\<lambda>(w, d).
       let st = currentState this;
           st' = (if map_of (lights st) (lc_index l) \<noteq> None
                  then st\<lparr>lights := AList.update (lc_index l) (lc_color l) (lights st)\<rparr> else st)
       in Inr (this\<lparr>logger := w, dmx_of := d, currentState := st'\<rparr>)))"

definition lightPacket :: "byte span \<Rightarrow> serveri \<Rightarrow> serveri res" where
  "lightPacket buf this =
     bind_res (parseLightPacket buf) (\<lambda>packet.
     bind_res (log_to Info (''number lights in packet: '' @ to_string (length (lp_lights packet))) this) (\<lambda>this.
       let st = currentState this;
           this1 = this\<lparr>currentState := st\<lparr>tag := erase_bad (whitelist this) (lp_tag packet)\<rparr>\<rparr> in
       bind_res (for_each apply_light (lp_lights packet) this1) (\<lambda>this2.
         Inr (this2\<lparr>lightsDirty := True\<rparr>))))"

section \<open>Callbacks\<close>

datatype lws_reason =
    CB_PROTOCOL_INIT
  | CB_ESTABLISHED
  | CB_CLOSED
  | CB_SERVER_WRITEABLE
  | CB_RECEIVE "byte list option" nat
  | CB_ADD_POLL_FD int int
  | CB_DEL_POLL_FD int
  | CB_CHANGE_MODE_POLL_FD int int
  | CB_other nat

fun reason_number :: "lws_reason \<Rightarrow> nat" where
  "reason_number CB_PROTOCOL_INIT = 27"
| "reason_number CB_ESTABLISHED = 0"
| "reason_number CB_CLOSED = 4"
| "reason_number CB_SERVER_WRITEABLE = 11"
| "reason_number (CB_RECEIVE _ _) = 6"
| "reason_number (CB_ADD_POLL_FD _ _) = 32"
| "reason_number (CB_DEL_POLL_FD _) = 33"
| "reason_number (CB_CHANGE_MODE_POLL_FD _ _) = 34"
| "reason_number (CB_other n) = n"

text \<open>Access through \<open>globalServeri\<close>: a null pointer is undefined behaviour.\<close>

definition deref_global :: "serveri \<Rightarrow> serveri res" where
  "deref_global this = (if globalServeri this then Inr this else Inl Undefined_behaviour)"

definition callback :: "(wsi \<Rightarrow> string) \<Rightarrow> wsi \<Rightarrow> lws_reason \<Rightarrow> serveri \<Rightarrow> serveri res" where
  "callback peer w reason this =
     (case reason of
        CB_PROTOCOL_INIT \<Rightarrow> Inr this
      | CB_ESTABLISHED \<Rightarrow> Inr this
      | CB_CLOSED \<Rightarrow> Inr this
      | CB_SERVER_WRITEABLE \<Rightarrow> bind_res (assert_that False) (\<lambda>_. Inr this)
      | CB_RECEIVE inp len \<Rightarrow>
          bind_res (log_to Debug (''Received websocket packet from '' @ peer_address peer w) this) (\<lambda>this.
          bind_res (make_span_ptr inp len) (\<lambda>packet.
          bind_res (deref_global this) (lightPacket packet)))
      | CB_ADD_POLL_FD f ev \<Rightarrow> bind_res (deref_global this) (addFD f ev)
      | CB_DEL_POLL_FD f \<Rightarrow> bind_res (deref_global this) (deleteFD f)
      | CB_CHANGE_MODE_POLL_FD f ev \<Rightarrow> bind_res (deref_global this) (setFDEvents f ev)
      | CB_other n \<Rightarrow>
          log_to Debug (''unhandled callback reason: '' @ to_string (reason_number reason)) this)"

definition callback_monitor :: "(wsi \<Rightarrow> string) \<Rightarrow> wsi \<Rightarrow> lws_reason \<Rightarrow> serveri \<Rightarrow> serveri res" where
  "callback_monitor peer w reason this =
     bind_res (assert_that (globalServeri this)) (\<lambda>_.
       case reason of
         CB_ESTABLISHED \<Rightarrow>
           bind_res (assert_that (w \<noteq> 0)) (\<lambda>_.
           bind_res (addMonitor peer w this) (\<lambda>this.
             Inr (call_lws (On_writable w) this)))
       | CB_CLOSED \<Rightarrow>
           bind_res (assert_that (w \<noteq> 0)) (\<lambda>_. deleteMonitor w this)
       | CB_SERVER_WRITEABLE \<Rightarrow>
           bind_res (log_to Debug ''monitor writeable'' this) (\<lambda>this.
           bind_res (vec_get (monitorMessage this) LWS_PRE) (\<lambda>_.
             Inr (call_lws (Write w (drop LWS_PRE (monitorMessage this))) this)))
       | _ \<Rightarrow>
           log_to Debug (''unhandled monitor callback reason: '' @ to_string (reason_number reason)) this)"

text \<open>The library calls back through the table of protocols. The callback of the protocol
  \<open>http\<close> is the library's own and does not touch the server.\<close>

record lws_event =
  ev_protocol :: protocol
  ev_wsi :: wsi
  ev_reason :: lws_reason

definition dispatch :: "(wsi \<Rightarrow> string) \<Rightarrow> lws_event \<Rightarrow> serveri \<Rightarrow> serveri res" where
  "dispatch peer e this =
     (case ev_protocol e of
        Proto_default \<Rightarrow> callback peer (ev_wsi e) (ev_reason e) this
      | Proto_monitor \<Rightarrow> callback_monitor peer (ev_wsi e) (ev_reason e) this
      | Proto_http \<Rightarrow> Inr this)"

text \<open>\<open>lws_callback_on_writable\<close> from the loop: the library changes the mode of the connection's
  descriptor, and around that calls protocol 0 for its lock and its thread.\<close>

datatype poll_call = Change_mode int int | Other_call nat

fun poll_reason :: "poll_call \<Rightarrow> lws_reason" where
  "poll_reason (Change_mode f ev) = CB_CHANGE_MODE_POLL_FD f ev"
| "poll_reason (Other_call n) = CB_other n"

definition on_writable :: "(wsi \<Rightarrow> string) \<Rightarrow> poll_call list \<Rightarrow> wsi \<Rightarrow> serveri \<Rightarrow> serveri res" where
  "on_writable peer calls w this =
     for_each (\<lambda>c. callback peer w (poll_reason c)) calls (call_lws (On_writable w) this)"

section \<open>Construction and destruction\<close>

text \<open>What the system answers while the object is made. \<open>bind_errno\<close> is 0 when \<open>bind\<close>
  succeeds; the two lists of events are the callbacks during \<open>lws_create_context\<close> and
  \<open>lws_service\<close>.\<close>

record startup =
  open_tty :: "string \<Rightarrow> int"
  socket_fd :: int
  bind_errno :: "u16 \<Rightarrow> nat"
  strerror :: "nat \<Rightarrow> string"
  context_ptr :: nat
  create_events :: "lws_event list"
  service_events :: "lws_event list"
  peer_simple :: "wsi \<Rightarrow> string"

definition protocols :: "nat \<Rightarrow> lws_protocol list" where
  "protocols len =
     [\<lparr>proto_name = Some ''default'', proto_callback = Some Proto_default, rx_buffer_size = len, proto_id = 1, tx_packet_size = 0\<rparr>,
      \<lparr>proto_name = Some ''monitor'', proto_callback = Some Proto_monitor, rx_buffer_size = len, proto_id = 2, tx_packet_size = 0\<rparr>,
      \<lparr>proto_name = Some ''http'', proto_callback = Some Proto_http, rx_buffer_size = 0, proto_id = 0, tx_packet_size = 0\<rparr>,
      \<lparr>proto_name = None, proto_callback = None, rx_buffer_size = 0, proto_id = 0, tx_packet_size = 0\<rparr>]"

definition initial_lights :: "lights_config \<Rightarrow> (u32 \<times> color) list" where
  "initial_lights config_lights = fold (\<lambda>l. map_emplace (fst l) Color) config_lights []"

definition Serveri :: "startup \<Rightarrow> config \<Rightarrow> log_world \<Rightarrow> serveri res" where
  "Serveri sys config w =
     bind_res (DMXController (open_tty sys) config w) (\<lambda>(w, d).
     bind_res (get_unsigned config ''global'' ''udpPort'' 9909) (\<lambda>port.
       let this = \<lparr>globalServeri = True, UDPfd = socket_fd sys, dmx_of = d, whitelist = init_whitelist,
                   currentState = \<lparr>tag = [], lights = initial_lights (getLightsConfig d)\<rparr>,
                   buflen = 2048, ws_context = 0, monitorConnections = [], monitorMessage = [],
                   pollfds = [], lightsDirty = True, logger = w, lws_calls = []\<rparr> in
       bind_res (log_to Info (''udp fd: '' @ int_to_string (UDPfd this)) this) (\<lambda>this.
       let err = bind_errno sys (ucast port) in
       if err \<noteq> 0 then
         bind_res (log_to Error (''bind error: '' @ to_string err @ '' '' @ quoted (strerror sys err)) this) (\<lambda>_.
           Inl (Runtime_error ''bind error''))
       else
         let this = this\<lparr>pollfds := pollfds this @ [\<lparr>fd = UDPfd this, events = or POLLIN POLLERR, revents = 0\<rparr>]\<rparr> in
         bind_res (updateMonitorMessage this) (\<lambda>this.
         bind_res (get_unsigned config ''global'' ''wsPort'' 9910) (\<lambda>wsPort.
           let info = \<lparr>info_port = wsPort, info_protocols = protocols (buflen this),
                       vhost_name = ''127.0.0.1'', ws_ping_pong_interval = 10\<rparr> in
           bind_res (for_each (dispatch (peer_simple sys)) (create_events sys) (call_lws (Create_context info) this)) (\<lambda>this.
             for_each (dispatch (peer_simple sys)) (service_events sys)
               (call_lws Service (this\<lparr>ws_context := context_ptr sys\<rparr>))))))))"

text \<open>The destructor, with the callbacks during \<open>lws_context_destroy\<close>; the member \<open>dmx\<close> is
  destroyed last.\<close>

definition Serveri_destroy :: "(wsi \<Rightarrow> string) \<Rightarrow> lws_event list \<Rightarrow> serveri \<Rightarrow> serveri res" where
  "Serveri_destroy peer evs this =
     bind_res (for_each (dispatch peer) evs (call_lws Destroy_context this)) (\<lambda>this.
       Inr (this\<lparr>ws_context := 0, UDPfd := 0, globalServeri := False,
                 dmx_of := DMXController_destroy (dmx_of this)\<rparr>))"

section \<open>The poll loop\<close>

record datagram =
  dg_len :: int
  dg_data :: "byte list"
  dg_from :: string
  dg_port :: nat

text \<open>What the system does in one round: the result of \<open>poll\<close> with the \<open>revents\<close> it stores,
  what \<open>recvfrom\<close> returns when the entry of a given index is read, the callbacks made while
  the n-th deferred descriptor is served and while the n-th monitor is asked for, and the result of
  \<open>write\<close>.\<close>

record round =
  pollresult :: int
  poll_errno :: nat
  poll_strerror :: "nat \<Rightarrow> string"
  poll_revents :: "nat \<Rightarrow> 16 word"
  recvfrom :: "nat \<Rightarrow> datagram"
  service :: "nat \<Rightarrow> lws_event list"
  poll_calls :: "nat \<Rightarrow> poll_call list"
  write_result :: int
  peer_name :: "wsi \<Rightarrow> string"

record scan =
  srv :: serveri
  buffer :: "byte list"
  processFDs :: "pollfd list"
  count :: int

definition store_revents :: "(nat \<Rightarrow> 16 word) \<Rightarrow> pollfd list \<Rightarrow> pollfd list" where
  "store_revents rv ps = map (\<lambda>(i, p). p\<lparr>revents := rv i\<rparr>) (enumerate 0 ps)"

definition received_line :: "datagram \<Rightarrow> string" where
  "received_line dg =
     ''received '' @ int_to_string (dg_len dg) @ '' bytes from '' @ quoted (dg_from dg) @ '':''
       @ to_string (dg_port dg) @ [CHR 0x0A]"

definition clear_revents :: "nat \<Rightarrow> serveri \<Rightarrow> serveri" where
  "clear_revents i this = this\<lparr>pollfds := (pollfds this)[i := (pollfds this ! i)\<lparr>revents := 0\<rparr>]\<rparr>"

definition read_datagram :: "datagram \<Rightarrow> scan \<Rightarrow> scan res" where
  "read_datagram dg sc =
     (let buf = overwrite 0 (take (nat (dg_len dg)) (dg_data dg)) (buffer sc) in
      bind_res (log_to Debug (received_line dg) (srv sc)) (\<lambda>this.
      bind_res (first (make_span_vector buf) (nat (dg_len dg mod 2 ^ 64))) (\<lambda>packet.
      bind_res (lightPacket packet this) (\<lambda>this.
        Inr (sc\<lparr>srv := this, buffer := buf\<rparr>)))))"

definition scan_fd :: "round \<Rightarrow> nat \<Rightarrow> scan \<Rightarrow> scan res" where
  "scan_fd r i sc =
     (let p = pollfds (srv sc) ! i in
      if revents p \<noteq> 0 then
        bind_res
          (if fd p = UDPfd (srv sc) then read_datagram (recvfrom r i) sc
           else Inr (sc\<lparr>processFDs := processFDs sc @ [p]\<rparr>)) (\<lambda>sc.
          Inr (sc\<lparr>srv := clear_revents i (srv sc), count := count sc + 1\<rparr>))
      else Inr sc)"

fun scan_loop :: "round \<Rightarrow> nat list \<Rightarrow> scan \<Rightarrow> scan res" where
  "scan_loop r [] sc = Inr sc"
| "scan_loop r (i # is) sc =
     (if pollresult r \<le> count sc then Inr sc
      else bind_res (scan_fd r i sc) (scan_loop r is))"

definition service_fd :: "round \<Rightarrow> nat \<times> pollfd \<Rightarrow> serveri \<Rightarrow> serveri res" where
  "service_fd r = (\<lambda>(n, p) this.
     for_each (dispatch (peer_name r)) (service r n) (call_lws (Service_fd p) this))"

definition notify_monitors :: "round \<Rightarrow> serveri \<Rightarrow> serveri res" where
  "notify_monitors r this =
     (if monitorConnections this \<noteq> [] then
        bind_res (log_to Debug (''send updates to '' @ to_string (length (monitorConnections this))
            @ '' monitoring connections'') this) (\<lambda>this.
          for_each (\<lambda>(n, c). on_writable (peer_name r) (poll_calls r n) (fst c)) (enumerate 0 (monitorConnections this)) this)
      else Inr this)"

definition flush_lights :: "round \<Rightarrow> serveri \<Rightarrow> serveri res" where
  "flush_lights r this =
     (if lightsDirty this then
        bind_res (dmx_update (write_result r) (logger this, dmx_of this)) (\<lambda>(w, d).
        bind_res (updateMonitorMessage (this\<lparr>logger := w, dmx_of := d, lightsDirty := False\<rparr>))
          (notify_monitors r))
      else Inr this)"

text \<open>One round of the loop; the flag says that the loop has returned. The contents of
  \<open>buffer\<close> go from round to round.\<close>

definition run_round :: "round \<Rightarrow> byte list \<times> serveri \<Rightarrow> (bool \<times> byte list \<times> serveri) res" where
  "run_round r = (\<lambda>(buf, this).
     if pollresult r < 0 then
       bind_res (log_to Error (''poll failed: '' @ poll_strerror r (poll_errno r)) this) (\<lambda>this.
         Inr (True, buf, this))
     else
       let this = this\<lparr>pollfds := store_revents (poll_revents r) (pollfds this)\<rparr> in
       bind_res (scan_loop r [0..<length (pollfds this)]
           \<lparr>srv = this, buffer = buf, processFDs = [], count = 0\<rparr>) (\<lambda>sc.
       bind_res (for_each (service_fd r) (enumerate 0 (processFDs sc)) (srv sc)) (\<lambda>this.
       bind_res (flush_lights r this) (\<lambda>this.
         Inr (False, buffer sc, this)))))"

text \<open>The loop on a sequence of rounds, up to the round in which it returns or to the end of
  the sequence.\<close>

fun run_rounds :: "round list \<Rightarrow> byte list \<times> serveri \<Rightarrow> (bool \<times> byte list \<times> serveri) res" where
  "run_rounds [] s = Inr (False, s)"
| "run_rounds (r # rs) s =
     bind_res (run_round r s) (\<lambda>(returned, s').
       if returned then Inr (True, s') else run_rounds rs s')"

definition run :: "round list \<Rightarrow> serveri \<Rightarrow> (bool \<times> byte list \<times> serveri) res" where
  "run rs this = run_rounds rs (replicate (buflen this) 0, this)"

section \<open>The program\<close>

record process =
  files :: "string \<Rightarrow> string option"
  fopen_ok :: "string \<Rightarrow> bool"
  start_time :: string
  stop_time :: string
  sys_startup :: startup
  rounds :: "round list"
  destroy_events :: "lws_event list"

datatype outcome = Running serveri | Exited "string list" serveri

text \<open>\<open>main\<close>: with a loop that returns, the server and then the logger are destroyed and the
  log file is complete.\<close>

definition main :: "process \<Rightarrow> outcome res" where
  "main p =
     (let config = Config (files p) ''valoserveri.conf'' in
      bind_res (Logger (fopen_ok p) (start_time p) config \<lparr>global_logger = None, stdout = []\<rparr>) (\<lambda>w.
      bind_res (Serveri (sys_startup p) config w) (\<lambda>this.
      bind_res (run (rounds p) this) (\<lambda>(returned, _, this).
        if \<not> returned then Inr (Running this)
        else
          bind_res (Serveri_destroy (peer_simple (sys_startup p)) (destroy_events p) this) (\<lambda>this.
          bind_res (Logger_destroy (stop_time p) (logger this)) (\<lambda>(log, w).
            Inr (Exited log (this\<lparr>logger := w\<rparr>))))))))"

end
