(* ===== verification/Server_Message.thy ===== *)
theory Server_Message
  imports Serveri
begin

text \<open>
  The text the server sends to its monitors: what \<open>updateMonitorMessage\<close> of
  \<^verbatim>\<open>src/valoserveri/serveri.cpp\<close> makes of the state of the lights. A tag that went through
  the whitelist needs no escaping, so the message is the JSON text of an object with the
  members \<open>numLights\<close>, \<open>tag\<close> and one member per light.
\<close>

section \<open>Loops over lists\<close>

lemma erase_fd_filter: "erase_fd f ps = filter (\<lambda>p. fd p \<noteq> f) ps"
  by (induction ps) simp_all

lemma update_events_map: "update_events f ev ps = map (\<lambda>p. if fd p = f then p\<lparr>events := word_of_int ev\<rparr> else p) ps"
  by (induction ps) simp_all

lemma erase_bad_filter: "erase_bad wl s = filter (\<lambda>c. c \<in> wl) s"
  by (induction s) simp_all

section \<open>The whitelist\<close>

lemma init_whitelist_set: "init_whitelist = insert (CHR 0x00) (set tagWhitelist)"
  by (simp add: init_whitelist_def union_set_fold [symmetric])

lemma tagWhitelist_plain: "\<forall>c \<in> set tagWhitelist. plain_char c"
  unfolding list_all_iff [symmetric] by code_simp

lemma packet_tag_no_NUL: "CHR 0x00 \<notin> set (lp_tag (packet_spec bs))"
proof -
  have "0 \<notin> set (fst (split_tag body))" for body
    by (auto simp: split_tag_def dest: set_takeWhileD)
  then show ?thesis
    by (auto simp: packet_spec_def empty_packet_def string_of_bytes_def split: list.splits)
      (metis char_of_byte_NUL_iff)
qed

lemma clean_tag: "set (erase_bad init_whitelist (lp_tag (packet_spec bs))) \<subseteq> set tagWhitelist"
  using packet_tag_no_NUL [of bs] by (auto simp: erase_bad_filter init_whitelist_set)

section \<open>The message for the monitors\<close>

definition light_value :: "light_state \<Rightarrow> nat \<Rightarrow> json" where
  "light_value st i = JString (color_text (the (map_of (lights st) (of_nat i))))"

definition monitor_object :: "light_state \<Rightarrow> (string \<times> json) list" where
  "monitor_object st =
     fold (\<lambda>i. map_assign (light_section i) (light_value st i)) [0..<length (lights st)]
       (map_assign ''tag'' (JString (tag st)) [(''numLights'', JUnsigned (length (lights st)))])"

definition monitor_text :: "light_state \<Rightarrow> string" where
  "monitor_text st = json_text no_floats (JObject (monitor_object st))"

text \<open>The lights of a state are numbered from 0.\<close>

definition numbered :: "(u32 \<times> 'a) list \<Rightarrow> bool" where
  "numbered ls \<longleftrightarrow> length ls < 2 ^ 32 \<and> map fst ls = map of_nat [0..<length ls]"

lemma numbered_lookup:
  assumes "numbered ls" and "i < length ls"
  shows "map_of ls (of_nat i) \<noteq> None"
proof -
  have "of_nat i \<in> set (map fst ls)" using assms by (auto simp: numbered_def)
  then show ?thesis by (simp add: map_of_eq_None_iff)
qed

lemma numbered_distinct: "numbered ls \<Longrightarrow> distinct (map fst ls)"
  unfolding numbered_def by (metis distinct_of_nat_upt less_imp_le)

lemma add_members:
  assumes "numbered (lights st)" and "k \<le> length (lights st)"
  shows "for_each add_light_member [0..<k] (JObject m, lights st) =
     Inr (JObject (fold (\<lambda>i. map_assign (light_section i) (light_value st i)) [0..<k] m), lights st)"
  using assms(2)
proof (induction k)
  case (Suc k)
  with numbered_lookup [OF assms(1), of k] obtain c where "map_of (lights st) (of_nat k) = Some c" by auto
  with Suc show ?case
    by (simp add: for_each_append add_light_member_def lights_index_def json_index_assign_def light_value_def light_section_def)
qed simp

lemma state_json_object:
  assumes "numbered (lights st)"
  shows "state_json st = Inr (JObject (monitor_object st), lights st)"
proof -
  have "unat (of_nat (length (lights st)) :: u32) = length (lights st)"
    using assms by (simp add: numbered_def unat_of_nat_u32)
  with add_members [OF assms, of "length (lights st)"] show ?thesis
    by (simp add: state_json_def json_index_assign_def monitor_object_def Let_def)
qed


lemma set_map_assign_subset: "set (map_assign k v m) \<subseteq> insert (k, v) (set m)"
  by (induction k v m rule: map_assign.induct) auto

lemma isdigit_plain: "isdigit c \<Longrightarrow> plain_char c"
  by (auto simp: isdigit_def plain_char_def Let_def)

lemma light_section_plain: "\<forall>c \<in> set (light_section i). plain_char c"
  using to_string_digits [of i] isdigit_plain by (auto simp: light_section_def) (simp_all add: plain_char_def)

lemma hex_digit_plain: "d < 16 \<Longrightarrow> plain_char (hex_digit d)"
  by (auto simp: hex_digit_def plain_char_def Let_def)

lemma hex2_plain: "\<forall>c \<in> set (hex2 b). plain_char c"
proof -
  have "unat b < 2 ^ LENGTH(8)" by (rule unsigned_less)
  then show ?thesis by (simp add: hex2_def hex_digit_plain)
qed

lemma color_text_plain: "\<forall>c \<in> set (color_text x). plain_char c"
  using hex2_plain by (auto simp: color_text_def)

lemma monitor_object_members:
  assumes "(k, v) \<in> set (monitor_object st)"
  shows "(k, v) \<in> insert (''tag'', JString (tag st)) (insert (''numLights'', JUnsigned (length (lights st)))
     ((\<lambda>i. (light_section i, light_value st i)) ` {..<length (lights st)}))"
proof -
  have "set (fold (\<lambda>i. map_assign (light_section i) (light_value st i)) is m) \<subseteq>
      set m \<union> (\<lambda>i. (light_section i, light_value st i)) ` set is" for "is" and m
  proof (induction "is" arbitrary: m)
    case (Cons i "is")
    with set_map_assign_subset [of "light_section i" "light_value st i" m] show ?case by fastforce
  qed simp
  from subsetD [OF this assms [unfolded monitor_object_def]] show ?thesis
    using set_map_assign_subset [of "''tag''" "JString (tag st)" "[(''numLights'', JUnsigned (length (lights st)))]"]
    by auto
qed

lemma monitor_object_ok:
  assumes "numbered (lights st)" and "set (tag st) \<subseteq> set tagWhitelist"
  shows "json_ok (JObject (monitor_object st))"
proof -
  have n: "length (lights st) < 2 ^ 64" using assms(1) by (simp add: numbered_def)
  have tag: "valid_utf8 (tag st)" using assms(2) tagWhitelist_plain by (blast intro: valid_utf8_plain)
  have lit: "valid_utf8 ''tag''" "valid_utf8 ''numLights''" by (rule valid_utf8_ASCII, simp)+
  have "valid_utf8 k \<and> json_ok v" if "(k, v) \<in> set (monitor_object st)" for k v
    using monitor_object_members [OF that] n tag lit valid_utf8_plain [OF light_section_plain]
      valid_utf8_plain [OF color_text_plain]
    by (auto simp: light_value_def)
  then show ?thesis by (auto simp: list_all_iff)
qed

lemma monitor_text_nonempty: "monitor_text st \<noteq> []"
  by (simp add: monitor_text_def)

lemma length_resize [simp]: "length (resize n x v) = n"
  by (simp add: resize_def)

lemma updateMonitorMessage_text:
  assumes "numbered (lights (currentState s))" and "set (tag (currentState s)) \<subseteq> set tagWhitelist"
  shows "\<exists>msg. updateMonitorMessage s = Inr (s\<lparr>monitorMessage := msg\<rparr>) \<and>
     drop LWS_PRE msg = bytes_of_string (monitor_text (currentState s)) \<and>
     length msg = LWS_PRE + length (monitor_text (currentState s))"
proof -
  let ?t = "monitor_text (currentState s)"
  let ?m = "resize (LWS_PRE + length ?t) 0 (monitorMessage s)"
  have "json_dump no_floats (-1) (CHR '' '') False strict (JObject (monitor_object (currentState s))) = Inr ?t"
    unfolding monitor_text_def by (rule json_dump_compact [OF monitor_object_ok [OF assms]])
  moreover have "drop LWS_PRE (overwrite LWS_PRE (bytes_of_string ?t) ?m) = bytes_of_string ?t"
    by (simp add: overwrite_def)
  moreover have "LWS_PRE < length ?m" using monitor_text_nonempty by simp
  moreover have "updateMonitorMessage s = Inr (s\<lparr>monitorMessage := overwrite LWS_PRE (bytes_of_string ?t) ?m\<rparr>)"
    using calculation by (simp add: updateMonitorMessage_def state_json_object [OF assms(1)] Let_def)
  ultimately show ?thesis
    by (intro exI [of _ "overwrite LWS_PRE (bytes_of_string ?t) ?m"]) simp
qed

lemma light_section_inject [simp]: "light_section i = light_section j \<longleftrightarrow> i = j"
  by (simp add: light_section_def)

lemma light_section_other [simp]: "light_section i \<noteq> ''tag''" "light_section i \<noteq> ''numLights''"
  "''tag'' \<noteq> light_section i" "''numLights'' \<noteq> light_section i"
  by (simp_all add: light_section_def)

lemma fold_assign_sorted:
  "sorted_keys m \<Longrightarrow> sorted_keys (fold (\<lambda>i. map_assign (light_section i) (g i)) is m)"
  by (induction "is" arbitrary: m) (simp_all add: sorted_map_assign)

lemma fold_assign_light:
  "sorted_keys m \<Longrightarrow> map_of (fold (\<lambda>i. map_assign (light_section i) (g i)) is m) (light_section j) =
     (if j \<in> set is then Some (g j) else map_of m (light_section j))"
  by (induction "is" arbitrary: m) (auto simp: sorted_map_assign map_of_map_assign)

lemma fold_assign_other:
  "sorted_keys m \<Longrightarrow> x \<notin> range light_section \<Longrightarrow>
     map_of (fold (\<lambda>i. map_assign (light_section i) (g i)) is m) x = map_of m x"
  by (induction "is" arbitrary: m) (auto simp: sorted_map_assign map_of_map_assign)

lemma monitor_object_lookup:
  "sorted_keys (monitor_object st)"
  "map_of (monitor_object st) ''numLights'' = Some (JUnsigned (length (lights st)))"
  "map_of (monitor_object st) ''tag'' = Some (JString (tag st))"
  "map_of (monitor_object st) (light_section i) = (if i < length (lights st) then Some (light_value st i) else None)"
proof -
  let ?n = "[(''numLights'', JUnsigned (length (lights st)))]"
  have n: "sorted_keys ?n" by (simp add: sorted_keys_def)
  note s = sorted_map_assign [OF n, of "''tag''" "JString (tag st)"]
  note m = map_of_map_assign [OF n, of "''tag''" "JString (tag st)"]
  show "sorted_keys (monitor_object st)" unfolding monitor_object_def by (rule fold_assign_sorted [OF s])
  show "map_of (monitor_object st) ''numLights'' = Some (JUnsigned (length (lights st)))"
    unfolding monitor_object_def by (subst fold_assign_other [OF s]) (auto simp: m)
  show "map_of (monitor_object st) ''tag'' = Some (JString (tag st))"
    unfolding monitor_object_def by (subst fold_assign_other [OF s]) (auto simp: m)
  show "map_of (monitor_object st) (light_section i) = (if i < length (lights st) then Some (light_value st i) else None)"
    unfolding monitor_object_def by (subst fold_assign_light [OF s]) (auto simp: m)
qed

end
