(* ===== verification/Server_State.thy ===== *)
theory Server_State
  imports Server_Message
begin

text \<open>
  The invariant of the server's state and that every callback and every round of the poll
  loop keeps it, from \<^verbatim>\<open>src/valoserveri/serveri.cpp\<close>.
\<close>

section \<open>Logging does not fail\<close>

lemma log_to_succeeds:
  "logger_ready (logger s) \<Longrightarrow> (\<And>w. logger_ready w \<Longrightarrow> P (s\<lparr>logger := w\<rparr>)) \<Longrightarrow> succeeds P (log_to l msg s)"
  using log.msg_ready [of "logger s" l msg] by (auto simp: log_to_def)

section \<open>The state after a packet\<close>

definition set_light :: "light_color \<Rightarrow> (u32 \<times> color) list \<Rightarrow> (u32 \<times> color) list" where
  "set_light l ls = (if map_of ls (lc_index l) \<noteq> None then AList.update (lc_index l) (lc_color l) ls else ls)"

lemma set_light_keys [simp]: "map fst (set_light l ls) = map fst ls"
  by (auto simp: set_light_def update_keys map_of_eq_None_iff)

lemma map_of_set_light:
  "map_of (set_light l ls) = (if map_of ls (lc_index l) \<noteq> None then (map_of ls)(lc_index l \<mapsto> lc_color l) else map_of ls)"
  by (simp add: set_light_def update_conv')

definition commands :: "light_color list \<Rightarrow> (u32 \<times> color) list" where
  "commands ls = map (\<lambda>l. (lc_index l, lc_color l)) ls"

lemma apply_light_spec:
  assumes "logger_ready (logger s)" and "wf_dmx (dmx_of s)"
  shows "\<exists>w. apply_light l s = Inr (s\<lparr>logger := w, dmx_of := dmx_set (lc_index l) (lc_color l) (dmx_of s),
       currentState := (currentState s)\<lparr>lights := set_light l (lights (currentState s))\<rparr>\<rparr>) \<and> logger_ready w"
proof -
  from log.msg_ready [OF assms(1), of Debug "light_line l"] obtain w1 where
    w1: "log_to Debug (light_line l) s = Inr (s\<lparr>logger := w1\<rparr>)" "logger_ready w1"
    by (auto simp: log_to_def)
  from setLightColor_set [OF w1(2) assms(2)] obtain w2 where
    "setLightColor (lc_index l) (lc_color l) (w1, dmx_of s) = Inr (w2, dmx_set (lc_index l) (lc_color l) (dmx_of s))"
    "logger_ready w2" by blast
  with w1 show ?thesis
    by (intro exI [of _ w2]) (simp add: apply_light_def set_light_def Let_def)
qed

lemma apply_lights_spec:
  assumes "logger_ready (logger s)" and "wf_dmx (dmx_of s)"
  shows "\<exists>w. for_each apply_light ls s = Inr (s\<lparr>logger := w, dmx_of := display.drive (commands ls) (dmx_of s),
       currentState := (currentState s)\<lparr>lights := fold set_light ls (lights (currentState s))\<rparr>\<rparr>) \<and> logger_ready w"
  using assms
proof (induction ls arbitrary: s)
  case Nil
  then show ?case by (intro exI [of _ "logger s"]) (simp add: commands_def)
next
  case (Cons l ls)
  from apply_light_spec [OF Cons.prems, of l] obtain w where
    w: "apply_light l s = Inr (s\<lparr>logger := w, dmx_of := dmx_set (lc_index l) (lc_color l) (dmx_of s),
       currentState := (currentState s)\<lparr>lights := set_light l (lights (currentState s))\<rparr>\<rparr>)" (is "_ = Inr ?s")
    "logger_ready w" by blast
  have "logger_ready (logger ?s)" "wf_dmx (dmx_of ?s)" using w(2) Cons.prems(2) by (simp_all add: wf_dmx_set)
  from Cons.IH [OF this] w(1) show ?case by (simp add: commands_def)
qed

definition packet_state :: "light_packet \<Rightarrow> light_state \<Rightarrow> light_state" where
  "packet_state p st = \<lparr>tag = erase_bad init_whitelist (lp_tag p), lights = fold set_light (lp_lights p) (lights st)\<rparr>"

lemma lightPacket_spec:
  assumes "logger_ready (logger s)" and "wf_dmx (dmx_of s)" and "whitelist s = init_whitelist" and "wf_span buf"
  defines "p \<equiv> packet_spec (span_list buf)"
  shows "\<exists>w. lightPacket buf s = Inr (s\<lparr>logger := w, dmx_of := display.drive (commands (lp_lights p)) (dmx_of s),
       currentState := packet_state p (currentState s), lightsDirty := True\<rparr>) \<and> logger_ready w"
proof -
  from log.msg_ready [OF assms(1), of Info "''number lights in packet: '' @ to_string (length (lp_lights p))"]
  obtain w1 where
    w1: "log_to Info (''number lights in packet: '' @ to_string (length (lp_lights p))) s = Inr (s\<lparr>logger := w1\<rparr>)"
    "logger_ready w1" by (auto simp: log_to_def)
  let ?s = "s\<lparr>logger := w1, currentState := (currentState s)\<lparr>tag := erase_bad init_whitelist (lp_tag p)\<rparr>\<rparr>"
  have "logger_ready (logger ?s)" "wf_dmx (dmx_of ?s)" using w1(2) assms(2) by simp_all
  from apply_lights_spec [OF this, of "lp_lights p"] obtain w where
    "for_each apply_light (lp_lights p) ?s = Inr (?s\<lparr>logger := w, dmx_of := display.drive (commands (lp_lights p)) (dmx_of ?s),
       currentState := (currentState ?s)\<lparr>lights := fold set_light (lp_lights p) (lights (currentState ?s))\<rparr>\<rparr>)"
    "logger_ready w" by blast
  with w1(1) assms(3) parse_refines [OF assms(4)] show ?thesis
    by (intro exI [of _ w]) (simp add: lightPacket_def p_def [symmetric] packet_state_def Let_def)
qed

lemma drive_frame [simp]:
  "lightConfig (display.drive cmds d) = lightConfig d"
  "tty_stream (display.drive cmds d) = tty_stream d"
  "dmx_fd (display.drive cmds d) = dmx_fd d"
  by (induction cmds arbitrary: d) simp_all

lemma wf_drive: "wf_dmx d \<Longrightarrow> wf_dmx (display.drive cmds d)"
  by (induction cmds arbitrary: d) (simp_all add: wf_dmx_set)

lemma set_lights_keys [simp]: "map fst (fold set_light ls m) = map fst m"
  by (induction ls arbitrary: m) simp_all

section \<open>The frame and the state agree\<close>

text \<open>The frame shows a colour on a light, or the light has never been set and is dark.\<close>

definition light_window :: "dmx \<Rightarrow> light \<Rightarrow> byte list" where
  "light_window d l = window (light_offset l) (channel_count l) (dmxPacket d)"

definition reflects :: "dmx \<Rightarrow> u32 \<Rightarrow> color \<Rightarrow> bool" where
  "reflects d i c \<longleftrightarrow>
     (case map_of (lightConfig d) i of
        None \<Rightarrow> False
      | Some l \<Rightarrow> light_window d l = light_channels l c \<or>
                  (c = Color \<and> light_window d l = replicate (channel_count l) 0))"

definition in_step :: "dmx \<Rightarrow> (u32 \<times> color) list \<Rightarrow> bool" where
  "in_step d ls \<longleftrightarrow> (\<forall>i c. map_of ls i = Some c \<longrightarrow> reflects d i c)"

lemma reflects_set_same: "wf_dmx d \<Longrightarrow> dmx_known d i \<Longrightarrow> reflects (dmx_set i c d) i c"
  using dmx_shows_set_same [of d i c] by (auto simp: reflects_def dmx_shows_def light_window_def split: option.splits)

lemma reflects_set_other:
  assumes "dmx_ok d" and "j \<noteq> i" and "reflects d j c'"
  shows "reflects (dmx_set i c d) j c'"
proof -
  from assms(3) obtain m where m: "map_of (lightConfig d) j = Some m" by (auto simp: reflects_def split: option.splits)
  with dmx_window_other [OF assms(1,2) m] assms(3) show ?thesis by (simp add: reflects_def light_window_def)
qed

lemma in_step_set:
  assumes "dmx_ok d" and "map fst ls = map fst (lightConfig d)" and "in_step d ls"
  shows "in_step (dmx_set (lc_index l) (lc_color l) d) (set_light l ls)"
proof -
  have known: "map_of ls i \<noteq> None \<longleftrightarrow> dmx_known d i" for i
    using assms(2) by (metis dmx_known_def map_of_eq_None_iff set_map)
  have "reflects (dmx_set (lc_index l) (lc_color l) d) i c" if "map_of (set_light l ls) i = Some c" for i c
  proof (cases "i = lc_index l")
    case True
    with that known [of i] assms(1) show ?thesis
      by (auto simp: map_of_set_light dmx_ok_def reflects_set_same split: if_splits)
  next
    case False
    with that have "map_of ls i = Some c" by (auto simp: map_of_set_light split: if_splits)
    with assms(3) have "reflects d i c" by (simp add: in_step_def)
    with assms(1) False show ?thesis by (intro reflects_set_other)
  qed
  then show ?thesis by (simp add: in_step_def)
qed

lemma in_step_drive:
  "dmx_ok d \<Longrightarrow> map fst ls = map fst (lightConfig d) \<Longrightarrow> in_step d ls \<Longrightarrow>
     in_step (display.drive (commands cs) d) (fold set_light cs ls)"
proof (induction cs arbitrary: d ls)
  case (Cons l cs)
  then have "in_step (dmx_set (lc_index l) (lc_color l) d) (set_light l ls)" by (intro in_step_set)
  with Cons show ?case by (simp add: commands_def display.ok_set)
qed (simp add: commands_def)

lemma light_window_stream [simp]: "light_window (d\<lparr>tty_stream := b\<rparr>) l = light_window d l"
  by (simp add: light_window_def)

lemma in_step_stream [simp]: "in_step (d\<lparr>tty_stream := b\<rparr>) ls = in_step d ls"
  by (simp add: in_step_def reflects_def cong: option.case_cong)

section \<open>The invariant\<close>

definition server_inv :: "serveri \<Rightarrow> bool" where
  "server_inv s \<longleftrightarrow>
     globalServeri s \<and> logger_ready (logger s) \<and>
     wf_dmx (dmx_of s) \<and> numbered (lightConfig (dmx_of s)) \<and>
     map fst (lights (currentState s)) = map fst (lightConfig (dmx_of s)) \<and>
     (disjoint_lights (lightConfig (dmx_of s)) \<longrightarrow> in_step (dmx_of s) (lights (currentState s))) \<and>
     whitelist s = init_whitelist \<and> set (tag (currentState s)) \<subseteq> set tagWhitelist \<and>
     distinct (map fst (monitorConnections s)) \<and> 0 \<notin> fst ` set (monitorConnections s) \<and>
     LWS_PRE < length (monitorMessage s) \<and> buflen s = 2048"

text \<open>The message is up to date unless the state has changed since.\<close>

definition message_current :: "serveri \<Rightarrow> bool" where
  "message_current s \<longleftrightarrow> drop LWS_PRE (monitorMessage s) = bytes_of_string (monitor_text (currentState s))"

definition server_ok :: "serveri \<Rightarrow> bool" where
  "server_ok s \<longleftrightarrow> server_inv s \<and> (lightsDirty s \<or> message_current s)"

lemma numbered_keys: "map fst ls = map fst ms \<Longrightarrow> numbered ms \<Longrightarrow> numbered ls"
  unfolding numbered_def by (metis length_map)

lemma server_inv_numbered: "server_inv s \<Longrightarrow> numbered (lights (currentState s))"
  by (auto simp: server_inv_def intro: numbered_keys)

lemma server_ok_log [simp]: "logger_ready w \<Longrightarrow> server_ok s \<Longrightarrow> server_ok (s\<lparr>logger := w\<rparr>)"
  by (simp add: server_ok_def server_inv_def message_current_def)

lemma server_ok_ready: "server_ok s \<Longrightarrow> logger_ready (logger s)"
  by (simp add: server_ok_def server_inv_def)

lemma server_ok_frame [simp]:
  "server_ok (s\<lparr>pollfds := ps\<rparr>) = server_ok s"
  "server_ok (s\<lparr>lws_calls := cs\<rparr>) = server_ok s"
  "server_ok (s\<lparr>ws_context := c\<rparr>) = server_ok s"
  "server_ok (call_lws c' s) = server_ok s"
  by (simp_all add: server_ok_def server_inv_def message_current_def call_lws_def)

lemma log_to_ok: "server_ok s \<Longrightarrow> (\<And>w. server_ok (s\<lparr>logger := w\<rparr>) \<Longrightarrow> P (s\<lparr>logger := w\<rparr>)) \<Longrightarrow> succeeds P (log_to l msg s)"
  by (rule log_to_succeeds) (simp_all add: server_ok_ready)

section \<open>What a run of callbacks does\<close>

text \<open>The messages handed to the library for monitors, and the events that ask for one.\<close>

definition monitor_writes :: "lws_call list \<Rightarrow> (wsi \<times> byte list) list" where
  "monitor_writes cs = concat (map (\<lambda>c. case c of Write w m \<Rightarrow> [(w, m)] | _ \<Rightarrow> []) cs)"

definition asks_monitor :: "lws_event \<Rightarrow> bool" where
  "asks_monitor e \<longleftrightarrow> ev_protocol e = Proto_monitor \<and> ev_reason e = CB_SERVER_WRITEABLE"

text \<open>The state of the lights changes only together with the mark for the next update, the message
  is not touched, and each monitor that is asked for gets the message.\<close>

definition served :: "lws_event list \<Rightarrow> serveri \<Rightarrow> serveri \<Rightarrow> bool" where
  "served es s s' \<longleftrightarrow> server_ok s' \<and> monitorMessage s' = monitorMessage s \<and>
     (lightsDirty s \<longrightarrow> lightsDirty s') \<and> (lightsDirty s' \<or> currentState s' = currentState s) \<and>
     (\<exists>cs. lws_calls s' = lws_calls s @ cs \<and>
        monitor_writes cs = map (\<lambda>e. (ev_wsi e, drop LWS_PRE (monitorMessage s))) (filter asks_monitor es))"

lemma monitor_writes_simps [simp]:
  "monitor_writes [] = []" "monitor_writes (c # cs) = (case c of Write w m \<Rightarrow> [(w, m)] | _ \<Rightarrow> []) @ monitor_writes cs"
  "monitor_writes (cs @ ds) = monitor_writes cs @ monitor_writes ds"
  by (simp_all add: monitor_writes_def)

lemma served_ok: "served es s s' \<Longrightarrow> server_ok s'"
  by (simp add: served_def)

lemma served_refl: "server_ok s \<Longrightarrow> served [] s s"
  by (simp add: served_def)

lemma served_trans:
  assumes "served es s t" and "served es' t u"
  shows "served (es @ es') s u"
proof -
  from assms obtain cs ds where
    "lws_calls t = lws_calls s @ cs" "monitor_writes cs = map (\<lambda>e. (ev_wsi e, drop LWS_PRE (monitorMessage s))) (filter asks_monitor es)"
    "lws_calls u = lws_calls t @ ds" "monitor_writes ds = map (\<lambda>e. (ev_wsi e, drop LWS_PRE (monitorMessage t))) (filter asks_monitor es')"
    unfolding served_def by blast
  then have "lws_calls u = lws_calls s @ (cs @ ds)" "monitor_writes (cs @ ds) =
      map (\<lambda>e. (ev_wsi e, drop LWS_PRE (monitorMessage s))) (filter asks_monitor (es @ es'))"
    using assms by (simp_all add: served_def)
  then have "\<exists>cs. lws_calls u = lws_calls s @ cs \<and> monitor_writes cs =
      map (\<lambda>e. (ev_wsi e, drop LWS_PRE (monitorMessage s))) (filter asks_monitor (es @ es'))" by blast
  moreover have "lightsDirty s \<longrightarrow> lightsDirty u" "lightsDirty u \<or> currentState u = currentState s"
    using assms by (auto simp: served_def)
  ultimately show ?thesis using assms by (simp add: served_def)
qed

lemma served_call:
  "served es s t \<Longrightarrow> lws_calls t = lws_calls s \<Longrightarrow> (\<And>w m. c \<noteq> Write w m) \<Longrightarrow> served es s (call_lws c t)"
  by (cases c) (auto simp: served_def call_lws_def)

section \<open>Every operation keeps the invariant\<close>

lemma log_to_only: "server_ok s \<Longrightarrow> succeeds (\<lambda>t. \<exists>w. t = s\<lparr>logger := w\<rparr> \<and> server_ok t) (log_to l msg s)"
  by (rule log_to_ok) auto

lemma log_to_served: "server_ok s \<Longrightarrow> succeeds (served [] s) (log_to l msg s)"
  by (rule log_to_ok) (simp_all add: served_def)

lemma fd_served:
  assumes "server_ok s"
  shows "succeeds (served [] s) (addFD f ev s)" and "succeeds (served [] s) (deleteFD f s)"
    and "succeeds (served [] s) (setFDEvents f ev s)"
  unfolding addFD_def deleteFD_def setFDEvents_def
  by (rule succeeds_bind [OF log_to_only [OF assms]], auto simp: served_def)+

lemma addMonitor_ok:
  assumes "server_ok s" and "w \<noteq> 0"
  shows "succeeds (\<lambda>s'. served [] s s' \<and> lws_calls s' = lws_calls s) (addMonitor peer w s)"
proof -
  have "server_ok (s\<lparr>monitorConnections := map_emplace w a (monitorConnections s)\<rparr>)" for a
    using assms by (auto simp: server_ok_def server_inv_def message_current_def distinct_map_emplace
        map_emplace_def map_of_eq_None_iff split: option.splits)
  then show ?thesis using assms(2)
    by (auto simp: addMonitor_def Let_def served_def intro!: log_to_ok)
qed

lemma deleteMonitor_ok:
  assumes "server_ok s" and "w \<noteq> 0"
  shows "succeeds (served [] s) (deleteMonitor w s)"
proof -
  have del: "server_ok (t\<lparr>monitorConnections := AList.delete w (monitorConnections t)\<rparr>)" if "server_ok t" for t
    using that by (auto simp: server_ok_def server_inv_def message_current_def AList.delete_eq distinct_map_filter)
  have l: "succeeds (\<lambda>t. served [] s (t\<lparr>monitorConnections := AList.delete w (monitorConnections t)\<rparr>)) (log_to l msg s)" for l msg
    using assms(1) by (intro log_to_ok) (use del [of "s\<lparr>logger := w\<rparr>" for w] in \<open>simp_all add: served_def\<close>)
  show ?thesis using assms(2) log_to_served [OF assms(1)]
    by (auto simp: deleteMonitor_def split: option.splits intro!: succeeds_bind [OF l])
qed

lemma lightPacket_ok:
  assumes "server_ok s" and "wf_span buf"
  shows "succeeds (\<lambda>s'. served [] s s' \<and> lightsDirty s' \<and> pollfds s' = pollfds s \<and> UDPfd s' = UDPfd s) (lightPacket buf s)"
proof -
  let ?p = "packet_spec (span_list buf)"
  have s: "logger_ready (logger s)" "wf_dmx (dmx_of s)" "whitelist s = init_whitelist"
    using assms(1) by (simp_all add: server_ok_def server_inv_def)
  from lightPacket_spec [OF s assms(2)] obtain w where
    w: "lightPacket buf s = Inr (s\<lparr>logger := w, dmx_of := display.drive (commands (lp_lights ?p)) (dmx_of s),
       currentState := packet_state ?p (currentState s), lightsDirty := True\<rparr>)" "logger_ready w" by blast
  have "set (tag (packet_state ?p (currentState s))) \<subseteq> set tagWhitelist"
    unfolding packet_state_def using clean_tag by simp
  moreover have "disjoint_lights (lightConfig (dmx_of s)) \<Longrightarrow>
      in_step (display.drive (commands (lp_lights ?p)) (dmx_of s)) (lights (packet_state ?p (currentState s)))"
    using assms(1) unfolding packet_state_def
    by (simp add: server_ok_def server_inv_def in_step_drive dmx_ok_def)
  ultimately have "server_ok (s\<lparr>logger := w, dmx_of := display.drive (commands (lp_lights ?p)) (dmx_of s),
       currentState := packet_state ?p (currentState s), lightsDirty := True\<rparr>)" using w(2) assms(1)
    by (simp add: server_ok_def server_inv_def wf_drive) (simp add: packet_state_def)
  with w(1) show ?thesis by (simp add: served_def)
qed

section \<open>Callbacks\<close>

text \<open>What the library guarantees: a packet it passes lies in memory, and the handle of a monitor's
  connection is not null.\<close>

definition event_ok :: "lws_event \<Rightarrow> bool" where
  "event_ok e \<longleftrightarrow>
     (case ev_protocol e of
        Proto_default \<Rightarrow>
          (case ev_reason e of
             CB_RECEIVE inp len \<Rightarrow> len < 2 ^ 31 \<and> (case inp of None \<Rightarrow> len = 0 | Some cells \<Rightarrow> len \<le> length cells)
           | _ \<Rightarrow> True)
      | Proto_monitor \<Rightarrow> ev_wsi e \<noteq> 0
      | Proto_http \<Rightarrow> True)"

text \<open>The one event the server does not survive: the protocol for lights is asked to write, which its
  callback takes to be impossible.\<close>

definition asks_default :: "lws_event \<Rightarrow> bool" where
  "asks_default e \<longleftrightarrow> ev_protocol e = Proto_default \<and> ev_reason e = CB_SERVER_WRITEABLE"

definition event_fault :: "lws_event list \<Rightarrow> cpp_error \<Rightarrow> bool" where
  "event_fault es err \<longleftrightarrow> err = Assertion_failure \<and> list_ex asks_default es"

lemma make_span_ptr_ok:
  assumes "case inp of None \<Rightarrow> len = 0 | Some cells \<Rightarrow> len \<le> length cells" and "len < 2 ^ 31"
  shows "succeeds wf_span (make_span_ptr inp len)"
  using assms by (auto simp: make_span_ptr_def span_ptr_count_def wf_span_def split: option.splits)

lemma deref_ok: "server_ok s \<Longrightarrow> deref_global s = Inr s"
  by (simp add: deref_global_def server_ok_def server_inv_def)

lemma served_nil: "served [] s s' \<Longrightarrow> \<not> asks_monitor e \<Longrightarrow> served [e] s s'"
  by (simp add: served_def)

lemma callback_receive:
  assumes "server_ok s" and "case inp of None \<Rightarrow> len = 0 | Some cells \<Rightarrow> len \<le> length cells" and "len < 2 ^ 31"
  shows "succeeds (served [] s) (callback peer w (CB_RECEIVE inp len) s)"
proof -
  have pkt: "succeeds (served [] s) (lightPacket p t)" if "served [] s t" "wf_span p" for p t
    by (rule succeeds_mono [OF lightPacket_ok [OF served_ok [OF that(1)] that(2)]]) (use served_trans [OF that(1)] in auto)
  have "succeeds (served [] s) (bind_res (make_span_ptr inp len) (\<lambda>p. bind_res (deref_global t) (lightPacket p)))"
    if "served [] s t" for t
    by (rule succeeds_bind [OF make_span_ptr_ok [OF assms(2,3)]]) (simp add: that deref_ok [OF served_ok [OF that]] pkt)
  then show ?thesis by (auto simp: callback_def intro!: succeeds_bind [OF log_to_served [OF assms(1)]])
qed

lemma callback_served:
  assumes "server_ok s" and "event_ok e" and "ev_protocol e = Proto_default"
  shows "fails_only (event_fault [e]) (served [] s) (callback peer (ev_wsi e) (ev_reason e) s)"
proof (cases "ev_reason e")
  case (CB_RECEIVE inp len)
  with assms(2,3) callback_receive [OF assms(1), where inp = inp and len = len and peer = peer and w = "ev_wsi e"] show ?thesis
    by (auto simp: event_ok_def intro: succeeds_fails_only)
next
  case CB_SERVER_WRITEABLE
  with assms(3) show ?thesis by (simp add: callback_def assert_that_def event_fault_def asks_default_def)
qed (use fd_served [OF assms(1)] log_to_served [OF assms(1)] served_refl [OF assms(1)] deref_ok [OF assms(1)]
     in \<open>auto simp: callback_def intro: succeeds_fails_only\<close>)

lemma callback_monitor_served:
  assumes "server_ok s" and "ev_wsi e \<noteq> 0" and "ev_protocol e = Proto_monitor"
  shows "succeeds (served [e] s) (callback_monitor peer (ev_wsi e) (ev_reason e) s)"
proof -
  have g: "globalServeri s" "LWS_PRE < length (monitorMessage s)" using assms(1) by (simp_all add: server_ok_def server_inv_def)
  have quiet: "succeeds (served [e] s) m" if "succeeds (served [] s) m" "ev_reason e \<noteq> CB_SERVER_WRITEABLE" for m
    using that by (auto simp: asks_monitor_def elim!: succeeds_mono intro: served_nil)
  show ?thesis
  proof (cases "ev_reason e")
    case CB_ESTABLISHED
    have "succeeds (served [] s) (bind_res (addMonitor peer (ev_wsi e) s) (\<lambda>this. Inr (call_lws (On_writable (ev_wsi e)) this)))"
      by (rule succeeds_bind [OF addMonitor_ok [OF assms(1,2)]]) (auto intro: served_call)
    with quiet CB_ESTABLISHED g(1) assms(2) show ?thesis by (simp add: callback_monitor_def)
  next
    case CB_CLOSED
    with quiet [OF deleteMonitor_ok [OF assms(1,2)]] g(1) assms(2) show ?thesis by (simp add: callback_monitor_def)
  next
    case CB_SERVER_WRITEABLE
    with assms(3) g show ?thesis
      by (auto simp: callback_monitor_def call_lws_def served_def asks_monitor_def intro!: succeeds_bind [OF log_to_only [OF assms(1)]])
  qed (use quiet [OF log_to_served [OF assms(1)]] g(1) in \<open>simp_all add: callback_monitor_def\<close>)
qed

lemma dispatch_served:
  assumes "server_ok s" and "event_ok e"
  shows "fails_only (event_fault [e]) (served [e] s) (dispatch peer e s)"
proof (cases "ev_protocol e")
  case Proto_default
  then have "\<not> asks_monitor e" by (simp add: asks_monitor_def)
  with callback_served [OF assms Proto_default, of peer] Proto_default show ?thesis
    by (auto simp: dispatch_def elim!: fails_only_mono intro: served_nil)
next
  case Proto_monitor
  with assms callback_monitor_served [OF assms(1) _ Proto_monitor, of peer] show ?thesis
    by (auto simp: dispatch_def event_ok_def intro: succeeds_fails_only)
qed (use assms in \<open>simp add: dispatch_def served_def asks_monitor_def\<close>)

lemma dispatch_all_served:
  assumes "server_ok s" and "list_all event_ok es"
  shows "fails_only (event_fault es) (served es s) (for_each (dispatch peer) es s)"
  using assms
proof (induction es arbitrary: s)
  case (Cons e es)
  have e: "fails_only (event_fault (e # es)) (served [e] s) (dispatch peer e s)"
    by (rule fails_only_mono [OF dispatch_served]) (use Cons.prems in \<open>auto simp: event_fault_def\<close>)
  have "fails_only (event_fault (e # es)) (served (e # es) s) (for_each (dispatch peer) es t)" if t: "served [e] s t" for t
    by (rule fails_only_mono [OF Cons.IH])
      (use Cons.prems served_trans [OF t] served_ok [OF t] in \<open>auto simp: event_fault_def\<close>)
  with e show ?case unfolding for_each.simps by (rule fails_only_bind)
qed (simp add: served_refl)

lemma dispatch_all_ok:
  "server_ok s \<Longrightarrow> list_all event_ok es \<Longrightarrow> fails_only (event_fault es) server_ok (for_each (dispatch peer) es s)"
  by (rule fails_only_mono [OF dispatch_all_served]) (auto dest: served_ok)

section \<open>Asking for monitors\<close>

text \<open>The callbacks while the loop asks for a monitor change the modes of descriptors and nothing else.\<close>

definition poll_effect :: "poll_call \<Rightarrow> pollfd list \<Rightarrow> pollfd list" where
  "poll_effect c ps = (case c of Change_mode f ev \<Rightarrow> update_events f ev ps | Other_call n \<Rightarrow> ps)"

lemma poll_call_spec:
  assumes "server_ok s"
  shows "succeeds (\<lambda>t. server_ok t \<and> (\<exists>lg. t = s\<lparr>logger := lg, pollfds := poll_effect c (pollfds s)\<rparr>))
      (callback peer w (poll_reason c) s)"
proof (cases c)
  case (Change_mode f ev)
  then show ?thesis
    by (auto simp: callback_def setFDEvents_def deref_ok [OF assms] poll_effect_def intro!: succeeds_bind [OF log_to_only [OF assms]])
next
  case (Other_call n)
  then show ?thesis
    by (auto simp: callback_def poll_effect_def intro!: succeeds_mono [OF log_to_only [OF assms]])
qed

lemma poll_calls_spec:
  "server_ok s \<Longrightarrow> succeeds (\<lambda>t. server_ok t \<and> (\<exists>lg. t = s\<lparr>logger := lg, pollfds := fold poll_effect calls (pollfds s)\<rparr>))
      (for_each (\<lambda>c. callback peer w (poll_reason c)) calls s)"
proof (induction calls arbitrary: s)
  case Nil
  then show ?case by (auto intro!: exI [of _ "logger s"])
next
  case (Cons c calls)
  show ?case unfolding for_each.simps
  proof (rule succeeds_bind [OF poll_call_spec [OF Cons.prems]], elim conjE exE)
    fix t lg assume t: "server_ok t" "t = s\<lparr>logger := lg, pollfds := poll_effect c (pollfds s)\<rparr>"
    show "succeeds (\<lambda>t. server_ok t \<and> (\<exists>lg. t = s\<lparr>logger := lg, pollfds := fold poll_effect (c # calls) (pollfds s)\<rparr>))
        (for_each (\<lambda>c. callback peer w (poll_reason c)) calls t)"
      by (rule succeeds_mono [OF Cons.IH [OF t(1)]]) (auto simp: t(2))
  qed
qed

lemma on_writable_spec:
  assumes "server_ok s"
  shows "succeeds (\<lambda>t. server_ok t \<and> (\<exists>lg. t = s\<lparr>lws_calls := lws_calls s @ [On_writable w], logger := lg,
     pollfds := fold poll_effect calls (pollfds s)\<rparr>)) (on_writable peer calls w s)"
proof -
  have "server_ok (call_lws (On_writable w) s)" using assms by simp
  from poll_calls_spec [OF this, of calls peer w] show ?thesis
    unfolding on_writable_def by (rule succeeds_mono) (auto simp: call_lws_def)
qed

end
