(* ===== verification/Server_Loop.thy ===== *)
theory Server_Loop
  imports Server_State
begin

text \<open>
  The poll loop of \<^verbatim>\<open>src/valoserveri/serveri.cpp\<close>: what a round does, that it keeps the invariant
  and in which two ways it can fail (\<open>round_fault\<close>), that construction establishes the
  invariant, that every ready descriptor is handled once per round, and that the table of descriptors
  means what the WebSocket library asked for. The locale \<open>guarded_loop\<close> lifts one round to
  sequences of rounds and to reachable states; the locale \<open>fd_table\<close> is the contract of the
  table.
\<close>

section \<open>A round of the loop\<close>

text \<open>What a round may bring: \<open>recvfrom\<close> returns an error or a datagram that fits the buffer, and the
  callbacks are as above. In a quiet round there is no error.\<close>

definition round_possible :: "round \<Rightarrow> bool" where
  "round_possible r \<longleftrightarrow>
     (\<forall>i. -1 \<le> dg_len (recvfrom r i) \<and> dg_len (recvfrom r i) \<le> 2048) \<and>
     (\<forall>n. list_all event_ok (service r n))"

definition round_ok :: "round \<Rightarrow> bool" where
  "round_ok r \<longleftrightarrow>
     (\<forall>i. 0 \<le> dg_len (recvfrom r i) \<and> dg_len (recvfrom r i) \<le> 2048) \<and>
     (\<forall>n. list_all event_ok (service r n))"

text \<open>The two ways to fail: \<open>recvfrom\<close> reports an error, whose value is taken for a length, and the
  protocol for lights is asked to write.\<close>

definition recv_fault :: "round \<Rightarrow> cpp_error \<Rightarrow> bool" where
  "recv_fault r err \<longleftrightarrow> err = Terminate \<and> (\<exists>i. dg_len (recvfrom r i) < 0)"

definition service_fault :: "round \<Rightarrow> cpp_error \<Rightarrow> bool" where
  "service_fault r err \<longleftrightarrow> err = Assertion_failure \<and> (\<exists>n. list_ex asks_default (service r n))"

definition round_fault :: "round \<Rightarrow> cpp_error \<Rightarrow> bool" where
  "round_fault r err \<longleftrightarrow> recv_fault r err \<or> service_fault r err"

lemma round_ok_possible: "round_ok r \<Longrightarrow> round_possible r"
  unfolding round_ok_def round_possible_def by (meson dual_order.trans zero_le_one neg_le_0_iff_le)

lemma served_frame [simp]:
  "served es s (t\<lparr>pollfds := ps\<rparr>) = served es s t" "served es (s\<lparr>pollfds := ps\<rparr>) t = served es s t"
  by (simp_all add: served_def)

subsection \<open>The scan\<close>

definition scan_ok :: "scan \<Rightarrow> bool" where
  "scan_ok sc \<longleftrightarrow> server_ok (srv sc) \<and> length (buffer sc) = 2048"

definition same_table :: "scan \<Rightarrow> scan \<Rightarrow> bool" where
  "same_table sc sc' \<longleftrightarrow> processFDs sc' = processFDs sc \<and> count sc' = count sc \<and>
     pollfds (srv sc') = pollfds (srv sc) \<and> UDPfd (srv sc') = UDPfd (srv sc)"

lemma read_datagram_keeps:
  assumes "scan_ok sc" and "0 \<le> dg_len dg" and "dg_len dg \<le> 2048"
  shows "succeeds (\<lambda>sc'. scan_ok sc' \<and> same_table sc sc' \<and> served [] (srv sc) (srv sc')) (read_datagram dg sc)"
proof -
  define buf where "buf = overwrite 0 (take (nat (dg_len dg)) (dg_data dg)) (buffer sc)"
  have "length (take (nat (dg_len dg)) (dg_data dg)) \<le> 2048" using assms(2,3) by simp
  then have len: "length buf = 2048" using assms(1) by (simp add: buf_def scan_ok_def)
  have "nat (dg_len dg mod 2 ^ 64) = nat (dg_len dg)" using assms(2,3) by simp
  moreover have "nat (dg_len dg) \<le> span_size (make_span_vector buf)" using assms(3) len by simp
  ultimately obtain t where t: "first (make_span_vector buf) (nat (dg_len dg mod 2 ^ 64)) = Inr t" "wf_span t"
    using first_refines [of "make_span_vector buf" "nat (dg_len dg)"] len by auto
  let ?P = "\<lambda>this. served [] (srv sc) this \<and> pollfds this = pollfds (srv sc) \<and> UDPfd this = UDPfd (srv sc)"
  have pkt: "succeeds (\<lambda>sc'. scan_ok sc' \<and> same_table sc sc' \<and> served [] (srv sc) (srv sc'))
      (bind_res (lightPacket t this) (\<lambda>this. Inr (sc\<lparr>srv := this, buffer := buf\<rparr>)))"
    if "?P this" for this
  proof (rule succeeds_bind [OF lightPacket_ok [OF _ t(2)]])
    show "server_ok this" using that served_ok by blast
    fix this' assume "served [] this this' \<and> lightsDirty this' \<and> pollfds this' = pollfds this \<and> UDPfd this' = UDPfd this"
    with that served_trans [of "[]" "srv sc" this "[]" this'] served_ok [of "[]" this this']
    show "succeeds (\<lambda>sc'. scan_ok sc' \<and> same_table sc sc' \<and> served [] (srv sc) (srv sc')) (Inr (sc\<lparr>srv := this', buffer := buf\<rparr>))"
      by (simp add: scan_ok_def same_table_def len)
  qed
  have "succeeds ?P (log_to Debug (received_line dg) (srv sc))"
    using assms(1) by (intro log_to_ok) (simp_all add: scan_ok_def served_def)
  then show ?thesis unfolding read_datagram_def buf_def [symmetric] Let_def t(1)
    using pkt by (auto elim: succeeds_bind)
qed

lemma read_datagram_error:
  assumes "logger_ready (logger (srv sc))" and "length (buffer sc) = 2048" and "dg_len dg = -1"
  shows "read_datagram dg sc = Inl Terminate"
proof -
  have "span_size (make_span_vector (buffer sc)) < nat (dg_len dg mod 2 ^ 64)" using assms(2,3) by simp
  from first_violation [OF this] log.msg_ready [OF assms(1), of Debug "received_line dg"] assms(3) show ?thesis
    by (auto simp: read_datagram_def log_to_def)
qed

lemma scan_fd_ok:
  assumes "round_possible r" and "scan_ok sc"
  shows "fails_only (recv_fault r) (\<lambda>sc'. scan_ok sc' \<and> served [] (srv sc) (srv sc')) (scan_fd r i sc)"
proof -
  have sc: "server_ok (srv sc)" "length (buffer sc) = 2048" using assms(2) by (simp_all add: scan_ok_def)
  have dg: "-1 \<le> dg_len (recvfrom r i)" "dg_len (recvfrom r i) \<le> 2048" using assms(1) by (simp_all add: round_possible_def)
  have "fails_only (recv_fault r) (\<lambda>sc'. scan_ok sc' \<and> served [] (srv sc) (srv sc')) (read_datagram (recvfrom r i) sc)"
  proof (cases "0 \<le> dg_len (recvfrom r i)")
    case True
    show ?thesis by (rule succeeds_fails_only, rule succeeds_mono [OF read_datagram_keeps [OF assms(2) True dg(2)]]) simp
  next
    case False
    then have "dg_len (recvfrom r i) = -1" "dg_len (recvfrom r i) < 0" using dg(1) by simp_all
    with read_datagram_error [OF server_ok_ready [OF sc(1)] sc(2)] have
      "read_datagram (recvfrom r i) sc = Inl Terminate" "\<exists>i. dg_len (recvfrom r i) < 0" by blast+
    then show ?thesis by (simp add: recv_fault_def)
  qed
  then have step: "fails_only (recv_fault r) (\<lambda>sc'. scan_ok sc' \<and> served [] (srv sc) (srv sc'))
      (if fd p = UDPfd (srv sc) then read_datagram (recvfrom r i) sc else Inr (sc\<lparr>processFDs := processFDs sc @ [p]\<rparr>))" for p
    using sc by (simp add: scan_ok_def served_refl)
  show ?thesis
  proof (cases "revents (pollfds (srv sc) ! i) = 0")
    case False
    then show ?thesis unfolding scan_fd_def Let_def
      by (simp only: not_False_eq_True if_True, intro fails_only_bind [OF step])
        (simp add: clear_revents_def scan_ok_def)
  qed (simp add: scan_fd_def Let_def assms(2) sc served_refl)
qed

lemma scan_loop_ok:
  "round_possible r \<Longrightarrow> scan_ok sc \<Longrightarrow>
     fails_only (recv_fault r) (\<lambda>sc'. scan_ok sc' \<and> served [] (srv sc) (srv sc')) (scan_loop r is sc)"
proof (induction "is" arbitrary: sc)
  case (Cons i "is")
  show ?case
  proof (cases "pollresult r \<le> count sc")
    case False
    show ?thesis unfolding scan_loop.simps if_not_P [OF False]
    proof (rule fails_only_bind [OF scan_fd_ok [OF Cons.prems]])
      fix sc1 assume sc1: "scan_ok sc1 \<and> served [] (srv sc) (srv sc1)"
      show "fails_only (recv_fault r) (\<lambda>sc'. scan_ok sc' \<and> served [] (srv sc) (srv sc')) (scan_loop r is sc1)"
        by (rule fails_only_mono [OF Cons.IH [OF Cons.prems(1)]])
          (use sc1 served_trans [of "[]" "srv sc" "srv sc1" "[]"] in auto)
    qed
  qed (use Cons.prems in \<open>simp add: scan_ok_def served_refl\<close>)
qed (simp add: scan_ok_def served_refl)

subsection \<open>Serving the descriptors\<close>

lemma service_fd_ok:
  assumes "round_possible r" and "server_ok s"
  shows "fails_only (service_fault r) (served (service r n) s) (service_fd r (n, p) s)"
proof -
  let ?s = "call_lws (Service_fd p) s"
  have s: "served [] s ?s" by (rule served_call) (simp_all add: served_refl assms(2))
  have "fails_only (event_fault (service r n)) (served (service r n) ?s) (for_each (dispatch (peer_name r)) (service r n) ?s)"
    by (rule dispatch_all_served) (use assms in \<open>simp_all add: round_possible_def\<close>)
  then show ?thesis unfolding service_fd_def prod.case
    by (rule fails_only_mono) (use served_trans [OF s] in \<open>auto simp: event_fault_def service_fault_def\<close>)
qed

lemma service_ok:
  assumes "round_possible r" and "server_ok s"
  shows "fails_only (service_fault r) (served (concat (map (service r) [k..<k + length ps])) s)
     (for_each (service_fd r) (enumerate k ps) s)"
  using assms(2)
proof (induction ps arbitrary: k s)
  case (Cons p ps)
  have upt: "[k..<k + length (p # ps)] = k # [Suc k..<Suc k + length ps]" by (simp add: upt_conv_Cons del: upt_Suc)
  show ?case unfolding enumerate_simps for_each.simps upt
  proof (rule fails_only_bind [OF service_fd_ok [OF assms(1) Cons.prems]])
    fix t assume t: "served (service r k) s t"
    show "fails_only (service_fault r) (served (concat (map (service r) (k # [Suc k..<Suc k + length ps]))) s)
        (for_each (service_fd r) (enumerate (Suc k) ps) t)"
      by (rule fails_only_mono [OF Cons.IH [OF served_ok [OF t]]]) (use served_trans [OF t] in auto)
  qed
qed (simp add: served_refl)

subsection \<open>The update\<close>

lemma notify_all:
  assumes "server_ok s"
  shows "succeeds (\<lambda>t. server_ok t \<and> (\<exists>lg. t = s\<lparr>lws_calls := lws_calls s @ map (On_writable \<circ> fst) cs, logger := lg,
       pollfds := fold poll_effect (concat (map (poll_calls r) [k..<k + length cs])) (pollfds s)\<rparr>))
     (for_each (\<lambda>(n, c). on_writable (peer_name r) (poll_calls r n) (fst c)) (enumerate k cs) s)"
  using assms
proof (induction cs arbitrary: k s)
  case Nil
  then show ?case by (auto intro!: exI [of _ "logger s"])
next
  case (Cons c cs)
  have upt: "[k..<k + length (c # cs)] = k # [Suc k..<Suc k + length cs]" by (simp add: upt_conv_Cons del: upt_Suc)
  show ?case unfolding enumerate_simps for_each.simps upt prod.case
  proof (rule succeeds_bind [OF on_writable_spec [OF Cons.prems]], elim conjE exE)
    fix t lg assume t: "server_ok t" "t = s\<lparr>lws_calls := lws_calls s @ [On_writable (fst c)], logger := lg,
      pollfds := fold poll_effect (poll_calls r k) (pollfds s)\<rparr>"
    show "succeeds (\<lambda>t. server_ok t \<and> (\<exists>lg. t = s\<lparr>lws_calls := lws_calls s @ map (On_writable \<circ> fst) (c # cs), logger := lg,
         pollfds := fold poll_effect (concat (map (poll_calls r) (k # [Suc k..<Suc k + length cs]))) (pollfds s)\<rparr>))
       (for_each (\<lambda>(n, c). on_writable (peer_name r) (poll_calls r n) (fst c)) (enumerate (Suc k) cs) t)"
      by (rule succeeds_mono [OF Cons.IH [OF t(1)]]) (auto simp: t(2) comp_def simp del: upt_Suc)
  qed
qed

lemma notify_monitors_spec:
  assumes "server_ok s"
  shows "succeeds (\<lambda>t. server_ok t \<and> (\<exists>lg. t = s\<lparr>lws_calls := lws_calls s @ map (On_writable \<circ> fst) (monitorConnections s), logger := lg,
       pollfds := fold poll_effect (concat (map (poll_calls r) [0..<length (monitorConnections s)])) (pollfds s)\<rparr>))
     (notify_monitors r s)"
proof (cases "monitorConnections s = []")
  case True
  with assms show ?thesis by (auto simp: notify_monitors_def intro!: exI [of _ "logger s"])
next
  case False
  show ?thesis unfolding notify_monitors_def if_P [OF False]
  proof (rule succeeds_bind [OF log_to_only [OF assms]], elim exE conjE)
    fix t lg assume t: "t = s\<lparr>logger := lg\<rparr>" "server_ok t"
    from notify_all [OF t(2), where cs = "monitorConnections s" and k = 0 and r = r] show
      "succeeds (\<lambda>t. server_ok t \<and> (\<exists>lg. t = s\<lparr>lws_calls := lws_calls s @ map (On_writable \<circ> fst) (monitorConnections s), logger := lg,
         pollfds := fold poll_effect (concat (map (poll_calls r) [0..<length (monitorConnections s)])) (pollfds s)\<rparr>))
       (for_each (\<lambda>(n, c). on_writable (peer_name r) (poll_calls r n) (fst c)) (enumerate 0 (monitorConnections t)) t)"
      by (auto simp: t(1) elim!: succeeds_mono)
  qed
qed

text \<open>What a round leaves behind when the state was dirty: the frame is written, the message is
  made anew and every monitor is asked for.\<close>

lemma flush_dirty:
  assumes "server_ok s" and "lightsDirty s"
  shows "\<exists>lg msg. flush_lights r s = Inr (s\<lparr>lightsDirty := False, monitorMessage := msg,
       dmx_of := (dmx_of s)\<lparr>tty_stream := tty_stream (dmx_of s) @ take (nat (write_result r)) (dmxPacket (dmx_of s))\<rparr>,
       lws_calls := lws_calls s @ map (On_writable \<circ> fst) (monitorConnections s), logger := lg,
       pollfds := fold poll_effect (concat (map (poll_calls r) [0..<length (monitorConnections s)])) (pollfds s)\<rparr>) \<and>
     logger_ready lg \<and> drop LWS_PRE msg = bytes_of_string (monitor_text (currentState s)) \<and> LWS_PRE < length msg"
proof -
  let ?d = "(dmx_of s)\<lparr>tty_stream := tty_stream (dmx_of s) @ take (nat (write_result r)) (dmxPacket (dmx_of s))\<rparr>"
  from log.msg_ready [OF server_ok_ready [OF assms(1)], of Debug "''write returned '' @ int_to_string (write_result r)"]
  obtain w where w: "dmx_update (write_result r) (logger s, dmx_of s) = Inr (w, ?d)" "logger_ready w"
    by (auto simp: dmx_update_def Let_def LOG_DEBUG_def)
  let ?s = "s\<lparr>logger := w, dmx_of := ?d, lightsDirty := False\<rparr>"
  have "numbered (lights (currentState ?s))" "set (tag (currentState ?s)) \<subseteq> set tagWhitelist"
    using assms(1) by (simp_all add: server_ok_def server_inv_numbered) (simp add: server_inv_def)
  from updateMonitorMessage_text [OF this] obtain msg where
    msg: "updateMonitorMessage ?s = Inr (?s\<lparr>monitorMessage := msg\<rparr>)"
      "drop LWS_PRE msg = bytes_of_string (monitor_text (currentState s))"
      "length msg = LWS_PRE + length (monitor_text (currentState s))" by auto
  have len: "LWS_PRE < length msg" using msg(3) monitor_text_nonempty [of "currentState s"] by simp
  have ok: "server_ok (?s\<lparr>monitorMessage := msg\<rparr>)" using assms(1) w(2) msg(2) len
    by (simp add: server_ok_def server_inv_def message_current_def wf_dmx_def)
  have flush: "flush_lights r s = notify_monitors r (?s\<lparr>monitorMessage := msg\<rparr>)"
    using w(1) msg(1) assms(2) by (simp add: flush_lights_def)
  obtain lg where lg: "notify_monitors r (?s\<lparr>monitorMessage := msg\<rparr>) = Inr (?s\<lparr>monitorMessage := msg,
      lws_calls := lws_calls s @ map (On_writable \<circ> fst) (monitorConnections s), logger := lg,
      pollfds := fold poll_effect (concat (map (poll_calls r) [0..<length (monitorConnections s)])) (pollfds s)\<rparr>)" "logger_ready lg"
    using notify_monitors_spec [OF ok, of r] by (auto simp: succeeds_iff dest!: server_ok_ready)
  show ?thesis unfolding flush lg(1) using lg(2) msg(2) len by (intro exI [of _ lg] exI [of _ msg]) simp
qed

lemma flush_ok:
  assumes "server_ok s"
  shows "succeeds (\<lambda>s'. server_ok s' \<and> \<not> lightsDirty s' \<and> monitorConnections s' = monitorConnections s \<and> currentState s' = currentState s \<and>
     (\<exists>cs. lws_calls s' = lws_calls s @ cs \<and> monitor_writes cs = [] \<and>
        (lightsDirty s \<longrightarrow> (\<forall>w \<in> fst ` set (monitorConnections s). On_writable w \<in> set cs)))) (flush_lights r s)"
proof (cases "lightsDirty s")
  case True
  have none: "monitor_writes (map (On_writable \<circ> fst) cs) = []" for cs :: "(wsi \<times> string) list" by (induction cs) simp_all
  from flush_dirty [OF assms True, of r] assms show ?thesis
    by (auto simp: server_ok_def server_inv_def message_current_def wf_dmx_def none)
qed (simp add: flush_lights_def assms)

subsection \<open>The whole round\<close>

definition loop_ok :: "byte list \<times> serveri \<Rightarrow> bool" where
  "loop_ok = (\<lambda>(buf, s). server_ok s \<and> length buf = 2048)"

text \<open>How many descriptors the scan puts on the list of those to be served.\<close>

definition deferred :: "round \<Rightarrow> byte list \<times> serveri \<Rightarrow> nat" where
  "deferred r = (\<lambda>(buf, s).
     let this = s\<lparr>pollfds := store_revents (poll_revents r) (pollfds s)\<rparr> in
     case scan_loop r [0..<length (pollfds this)] \<lparr>srv = this, buffer = buf, processFDs = [], count = 0\<rparr> of
       Inl e \<Rightarrow> 0 | Inr sc \<Rightarrow> length (processFDs sc))"

text \<open>What a round that goes on has done: the monitors it was asked for got the message as it was before, and when the
  state has changed all monitors are asked for.\<close>

definition told :: "round \<Rightarrow> byte list \<times> serveri \<Rightarrow> serveri \<Rightarrow> bool" where
  "told r bs s' \<longleftrightarrow> \<not> lightsDirty s' \<and> (\<exists>cs. lws_calls s' = lws_calls (snd bs) @ cs \<and>
     monitor_writes cs = map (\<lambda>e. (ev_wsi e, drop LWS_PRE (monitorMessage (snd bs))))
       (filter asks_monitor (concat (map (service r) [0..<deferred r bs]))) \<and>
     (currentState s' \<noteq> currentState (snd bs) \<longrightarrow> (\<forall>w \<in> fst ` set (monitorConnections s'). On_writable w \<in> set cs)))"

lemma served_flushed:
  assumes "served es s t" and "server_ok t"
  shows "succeeds (\<lambda>s'. server_ok s' \<and> \<not> lightsDirty s' \<and> (\<exists>cs. lws_calls s' = lws_calls s @ cs \<and>
     monitor_writes cs = map (\<lambda>e. (ev_wsi e, drop LWS_PRE (monitorMessage s))) (filter asks_monitor es) \<and>
     (currentState s' \<noteq> currentState s \<longrightarrow> (\<forall>w \<in> fst ` set (monitorConnections s'). On_writable w \<in> set cs)))) (flush_lights r t)"
proof (rule succeeds_mono [OF flush_ok [OF assms(2)]], elim conjE exE)
  fix s' ds
  assume s': "server_ok s'" "\<not> lightsDirty s'" "monitorConnections s' = monitorConnections t" "currentState s' = currentState t"
    and ds: "lws_calls s' = lws_calls t @ ds" "monitor_writes ds = []"
      "lightsDirty t \<longrightarrow> (\<forall>w \<in> fst ` set (monitorConnections t). On_writable w \<in> set ds)"
  from assms(1) obtain cs where cs: "lws_calls t = lws_calls s @ cs"
      "monitor_writes cs = map (\<lambda>e. (ev_wsi e, drop LWS_PRE (monitorMessage s))) (filter asks_monitor es)"
    and d: "lightsDirty t \<or> currentState t = currentState s" unfolding served_def by blast
  have "\<forall>w \<in> fst ` set (monitorConnections s'). On_writable w \<in> set (cs @ ds)" if "currentState s' \<noteq> currentState s"
    using that d ds(3) s'(3,4) by auto
  with s'(1,2) cs ds(1,2) show "server_ok s' \<and> \<not> lightsDirty s' \<and> (\<exists>cs. lws_calls s' = lws_calls s @ cs \<and>
     monitor_writes cs = map (\<lambda>e. (ev_wsi e, drop LWS_PRE (monitorMessage s))) (filter asks_monitor es) \<and>
     (currentState s' \<noteq> currentState s \<longrightarrow> (\<forall>w \<in> fst ` set (monitorConnections s'). On_writable w \<in> set cs)))"
    by (intro conjI exI [of _ "cs @ ds"]) simp_all
qed

lemma run_round_ok:
  assumes "round_possible r" and "loop_ok bs"
  shows "fails_only (round_fault r) (\<lambda>(returned, bs'). loop_ok bs' \<and> (returned \<longleftrightarrow> pollresult r < 0) \<and>
     (returned \<or> told r bs (snd bs'))) (run_round r bs)"
proof -
  obtain buf s where bs: "bs = (buf, s)" by (cases bs)
  with assms(2) have s: "server_ok s" "length buf = 2048" by (simp_all add: loop_ok_def)
  show ?thesis
  proof (cases "pollresult r < 0")
    case True
    with s bs show ?thesis
      by (auto simp: run_round_def loop_ok_def intro!: succeeds_fails_only succeeds_bind [OF log_to_ok [where P = server_ok]])
  next
    case False
    let ?s = "s\<lparr>pollfds := store_revents (poll_revents r) (pollfds s)\<rparr>"
    let ?scan = "scan_loop r [0..<length (pollfds ?s)] \<lparr>srv = ?s, buffer = buf, processFDs = [], count = 0\<rparr>"
    have "fails_only (recv_fault r) (\<lambda>sc. scan_ok sc \<and> served [] s (srv sc)) ?scan"
      using scan_loop_ok [OF assms(1), of "\<lparr>srv = ?s, buffer = buf, processFDs = [], count = 0\<rparr>"] s by (simp add: scan_ok_def)
    then have scan: "fails_only (round_fault r) (\<lambda>sc. scan_ok sc \<and> served [] s (srv sc) \<and> deferred r bs = length (processFDs sc)) ?scan"
      by (cases ?scan) (simp_all add: round_fault_def deferred_def bs)
    show ?thesis unfolding run_round_def bs Let_def prod.case if_not_P [OF False]
    proof (rule fails_only_bind [OF scan], elim conjE, fold bs)
      fix sc :: scan
      assume sc: "scan_ok sc" "served [] s (srv sc)" "deferred r bs = length (processFDs sc)"
      let ?es = "concat (map (service r) [0..<deferred r bs])"
      have "fails_only (service_fault r) (served ?es (srv sc)) (for_each (service_fd r) (enumerate 0 (processFDs sc)) (srv sc))"
        using service_ok [OF assms(1), of "srv sc" 0 "processFDs sc"] sc(1,3) by (simp add: scan_ok_def)
      then have sv: "fails_only (round_fault r) (served ?es s) (for_each (service_fd r) (enumerate 0 (processFDs sc)) (srv sc))"
        by (rule fails_only_mono) (use served_trans [OF sc(2), of ?es] in \<open>simp_all add: round_fault_def\<close>)
      show "fails_only (round_fault r) (\<lambda>(returned, bs'). loop_ok bs' \<and> (returned \<longleftrightarrow> pollresult r < 0) \<and> (returned \<or> told r bs (snd bs')))
         (bind_res (for_each (service_fd r) (enumerate 0 (processFDs sc)) (srv sc))
           (\<lambda>this. bind_res (flush_lights r this) (\<lambda>this. Inr (False, buffer sc, this))))"
        by (rule fails_only_bind [OF sv], rule fails_only_bind_succeeds [OF served_flushed])
          (use sc(1) False served_ok in \<open>auto simp: loop_ok_def scan_ok_def told_def bs\<close>)
    qed
  qed
qed

section \<open>The loop as a machine\<close>

text \<open>A loop that consumes inputs, each step of which keeps a good state good and, on an allowed input,
  fails only with an error the input is to blame for.\<close>

locale guarded_loop =
  fixes step :: "'i \<Rightarrow> 's \<Rightarrow> (bool \<times> 's) res"
    and good :: "'s \<Rightarrow> bool"
    and allowed :: "'i \<Rightarrow> bool"
    and fault :: "'i \<Rightarrow> cpp_error \<Rightarrow> bool"
  assumes step_good: "allowed i \<Longrightarrow> good s \<Longrightarrow> fails_only (fault i) (\<lambda>(returned, s'). good s') (step i s)"
begin

fun steps :: "'i list \<Rightarrow> 's \<Rightarrow> (bool \<times> 's) res" where
  "steps [] s = Inr (False, s)"
| "steps (i # is) s = bind_res (step i s) (\<lambda>(returned, s'). if returned then Inr (True, s') else steps is s')"

inductive reaches :: "'s \<Rightarrow> 's \<Rightarrow> bool" where
  here: "reaches s s"
| there: "reaches s s' \<Longrightarrow> allowed i \<Longrightarrow> step i s' = Inr (returned, s'') \<Longrightarrow> reaches s s''"

lemma steps_good:
  "list_all allowed is \<Longrightarrow> good s \<Longrightarrow> fails_only (\<lambda>e. \<exists>i \<in> set is. fault i e) (\<lambda>(returned, s'). good s') (steps is s)"
proof (induction "is" arbitrary: s)
  case (Cons i "is")
  have "fails_only (\<lambda>e. \<exists>i \<in> set (i # is). fault i e) (\<lambda>(returned, s'). good s') (step i s)"
    by (rule fails_only_mono [OF step_good]) (use Cons.prems in auto)
  then show ?case unfolding steps.simps
  proof (rule fails_only_bind)
    fix x :: "bool \<times> 's" assume x: "case x of (returned, s') \<Rightarrow> good s'"
    show "fails_only (\<lambda>e. \<exists>i \<in> set (i # is). fault i e) (\<lambda>(returned, s'). good s')
       (case x of (returned, s') \<Rightarrow> if returned then Inr (True, s') else steps is s')"
      using x Cons.IH [of "snd x"] Cons.prems(1) by (auto split: prod.splits elim!: fails_only_mono)
  qed
qed simp

lemma reaches_good: "reaches s s' \<Longrightarrow> good s \<Longrightarrow> good s'"
proof (induction rule: reaches.induct)
  case (there s s' i returned s'')
  then show ?case using step_good [of i s'] by simp
qed

lemma reaches_step: "reaches s s' \<Longrightarrow> good s \<Longrightarrow> allowed i \<Longrightarrow> step i s' = Inl e \<Longrightarrow> fault i e"
  using reaches_good [of s s'] step_good [of i s'] by simp

end

interpretation server_loop: guarded_loop run_round loop_ok round_possible round_fault
proof
  fix r :: round and bs
  assume "round_possible r" and "loop_ok bs"
  from run_round_ok [OF this] show "fails_only (round_fault r) (\<lambda>(returned, bs'). loop_ok bs') (run_round r bs)"
    by (rule fails_only_mono) auto
qed

lemma run_rounds_steps: "run_rounds rs = server_loop.steps rs"
proof (induction rs)
  case (Cons r rs)
  show ?case by (rule ext) (simp only: run_rounds.simps server_loop.steps.simps Cons)
qed (simp add: fun_eq_iff)

lemma run_ok:
  assumes "server_ok s" and "list_all round_possible rs"
  shows "fails_only (\<lambda>e. \<exists>r \<in> set rs. round_fault r e) (\<lambda>(returned, bs'). loop_ok bs') (run rs s)"
proof -
  have "loop_ok (replicate (buflen s) 0, s)" using assms(1) by (simp add: loop_ok_def server_ok_def server_inv_def)
  with server_loop.steps_good [OF assms(2)] show ?thesis by (simp add: run_def run_rounds_steps)
qed


section \<open>Construction\<close>

definition good_lights :: "config \<Rightarrow> bool" where
  "good_lights config \<longleftrightarrow> cfg.numeric config ''global'' ''lights'' \<and>
     (\<forall>n. get_unsigned config ''global'' ''lights'' 0 = Inr n \<longrightarrow> (\<forall>i < unat n. good_light config i))"

lemma LightsConfig_parse_succeeds:
  assumes "good_lights config" and "logger_ready w"
  shows "\<exists>r. LightsConfig_parse config w = Inr r"
proof -
  obtain n where n: "get_unsigned config ''global'' ''lights'' 0 = Inr n"
    using assms(1) cfg.uint_numeric [of "''global''" "''lights''" config 0] by (auto simp: good_lights_def)
  with assms(1) have "\<forall>i \<in> set [0..<unat n]. good_light config i" by (simp add: good_lights_def)
  from parse_lights_succeed [OF this] n log.msg_ready [OF assms(2), of Info "''number lights: '' @ to_string (unat n)"]
  show ?thesis by (auto simp: LightsConfig_parse_def LOG_INFO_def)
qed

lemma DMXController_succeeds:
  assumes "good_lights config" and "logger_ready w"
  shows "\<exists>r. DMXController opn config w = Inr r"
proof -
  obtain w' ls where "LightsConfig_parse config w = Inr (w', ls)" using LightsConfig_parse_succeeds [OF assms] by auto
  then show ?thesis
    using cfg.str_value [of "''global''" "''device''" config "''/dev/ttyUSB0''"]
    unfolding DMXController_def initial_packet_eq by (simp add: Let_def)
qed

lemma DMXController_numbered:
  assumes "DMXController opn config w = Inr (w', d)"
  shows "numbered (lightConfig d)"
proof -
  obtain n where n: "map fst (lightConfig d) = map of_nat [0..<unat (n :: u32)]"
    using DMXController_wf(3) [OF assms] by blast
  have len: "length (lightConfig d) = unat n" using arg_cong [OF n, of length] by simp
  have "unat n < 2 ^ LENGTH(32)" by (rule unsigned_less)
  with n len show ?thesis by (simp add: numbered_def)
qed

lemma initial_lights_map:
  assumes "distinct (map fst ls)"
  shows "initial_lights ls = map (\<lambda>l. (fst l, Color)) ls"
proof -
  have "fold (\<lambda>l. map_emplace (fst l) Color) ls m = m @ map (\<lambda>l. (fst l, Color)) ls"
    if "distinct (map fst ls)" "fst ` set ls \<inter> fst ` set m = {}" for m :: "(u32 \<times> color) list"
    using that
  proof (induction ls arbitrary: m)
    case (Cons l ls)
    have "map_of m (fst l) = None" using Cons.prems(2) by (auto simp: map_of_eq_None_iff)
    with Cons.prems Cons.IH [of "m @ [(fst l, Color)]"] show ?case by (auto simp: map_emplace_def)
  qed simp
  from this [OF assms, of "[]"] show ?thesis by (simp add: initial_lights_def)
qed

lemma initial_window:
  assumes "initial_packet = Inr p" and "4 \<le> k" and "k + n \<le> 516"
  shows "window k n p = replicate n 0"
proof -
  define header :: "byte list" where "header = [0x7e, 0x06, 0x00, 0x02]"
  have len: "length header = 4" by (simp add: header_def)
  have p: "p = header @ replicate 512 0 @ [0xe7]" using assms(1) unfolding initial_packet_eq header_def by simp
  obtain m where k: "k = 4 + m" using assms(2) le_Suc_ex by blast
  have "drop k p = replicate (512 - m) 0 @ [0xe7]" unfolding p k using assms(3) k len by simp
  with assms(3) k show ?thesis by (simp add: window_def)
qed

lemma in_step_initial:
  assumes "initial_packet = Inr (dmxPacket d)"
  shows "in_step d (map (\<lambda>l. (fst l, Color)) (lightConfig d))"
proof -
  have "reflects d i c" if "map_of (map (\<lambda>l. (fst l, Color)) (lightConfig d)) i = Some c" for i c
  proof -
    have "map_of (map (\<lambda>l. (fst l, Color)) ls) i = map_option (\<lambda>_. Color) (map_of ls i)" for ls :: lights_config
      by (induction ls) auto
    with that obtain l where l: "map_of (lightConfig d) i = Some l" "c = Color" by auto
    have "light_offset l + channel_count l \<le> 516"
      using light_offset_bound [of l c] by (simp add: length_light_channels_count)
    from initial_window [OF assms light_offset_ge this] l show ?thesis by (simp add: reflects_def light_window_def)
  qed
  then show ?thesis by (simp add: in_step_def)
qed


text \<open>What the configuration and the system have to provide for the server to start.\<close>

definition startup_ok :: "startup \<Rightarrow> config \<Rightarrow> bool" where
  "startup_ok sys config \<longleftrightarrow>
     good_lights config \<and> cfg.numeric config ''global'' ''udpPort'' \<and> cfg.numeric config ''global'' ''wsPort'' \<and>
     (\<forall>port. bind_errno sys port = 0) \<and> list_all event_ok (create_events sys) \<and> list_all event_ok (service_events sys)"

definition fresh_server :: "dmx \<Rightarrow> serveri \<Rightarrow> bool" where
  "fresh_server d s \<longleftrightarrow>
     logger_ready (logger s) \<and> dmx_of s = d \<and> globalServeri s \<and> whitelist s = init_whitelist \<and>
     currentState s = \<lparr>tag = [], lights = initial_lights (getLightsConfig d)\<rparr> \<and>
     buflen s = 2048 \<and> monitorConnections s = [] \<and> lightsDirty s"

lemma fresh_server_ok:
  assumes "DMXController opn config w = Inr (w', d)" and "fresh_server d s"
  shows "succeeds server_ok (updateMonitorMessage s)"
proof -
  note d = DMXController_wf [OF assms(1)] DMXController_numbered [OF assms(1)]
  have ls: "lights (currentState s) = map (\<lambda>l. (fst l, Color)) (lightConfig d)"
    using assms(2) initial_lights_map numbered_distinct [OF d(6)]
    by (simp add: getLightsConfig_def fresh_server_def)
  have keys: "map fst (lights (currentState s)) = map fst (lightConfig d)" by (simp add: ls)
  have t: "tag (currentState s) = []" using assms(2) by (simp add: fresh_server_def)
  from updateMonitorMessage_text [OF numbered_keys [OF keys d(6)]] t obtain msg where
    msg: "updateMonitorMessage s = Inr (s\<lparr>monitorMessage := msg\<rparr>)"
      "length msg = LWS_PRE + length (monitor_text (currentState s))" by auto
  have "LWS_PRE < length msg" using msg(2) monitor_text_nonempty [of "currentState s"] by simp
  moreover have "in_step d (lights (currentState s))" unfolding ls by (rule in_step_initial [OF d(2)])
  ultimately show ?thesis using msg(1) assms(2) d(1,6) keys t
    by (simp add: server_ok_def server_inv_def fresh_server_def)
qed

lemma Serveri_ok:
  assumes "startup_ok sys config" and "logger_ready w"
  shows "fails_only (event_fault (create_events sys @ service_events sys)) server_ok (Serveri sys config w)"
proof -
  obtain w1 d where dmx: "DMXController (open_tty sys) config w = Inr (w1, d)"
    using DMXController_succeeds assms by (fastforce simp: startup_ok_def)
  obtain port where port: "get_unsigned config ''global'' ''udpPort'' 9909 = Inr port"
    using cfg.uint_numeric [of "''global''" "''udpPort''" config] assms(1) by (auto simp: startup_ok_def)
  obtain wsPort where wsPort: "get_unsigned config ''global'' ''wsPort'' 9910 = Inr wsPort"
    using cfg.uint_numeric [of "''global''" "''wsPort''" config] assms(1) by (auto simp: startup_ok_def)
  have w1: "logger_ready w1" using DMXController_wf(5) [OF dmx] assms(2) by simp
  have bind: "bind_errno sys p = 0" for p using assms(1) by (simp add: startup_ok_def)
  have events: "list_all event_ok (create_events sys)" "list_all event_ok (service_events sys)"
    using assms(1) by (simp_all add: startup_ok_def)
  let ?E = "event_fault (create_events sys @ service_events sys)"
  have lws: "fails_only ?E server_ok (bind_res (for_each (dispatch (peer_simple sys)) (create_events sys) (call_lws c t))
      (\<lambda>this. for_each (dispatch (peer_simple sys)) (service_events sys)
         (call_lws Service (this\<lparr>ws_context := context_ptr sys\<rparr>))))" if "server_ok t" for c t
    by (rule fails_only_bind [where Q = server_ok]; rule fails_only_mono [OF dispatch_all_ok])
      (use that events in \<open>auto simp: event_fault_def\<close>)
  show ?thesis unfolding Serveri_def dmx Let_def
    by (simp add: port bind wsPort, intro fails_only_bind_succeeds [OF log_to_succeeds [where P = "fresh_server d"]]
        fails_only_bind_succeeds [OF fresh_server_ok [OF dmx]] lws)
      (simp_all add: w1 fresh_server_def)
qed

section \<open>Every ready descriptor is handled once\<close>

definition ready :: "pollfd \<Rightarrow> bool" where
  "ready p \<longleftrightarrow> revents p \<noteq> 0"

definition cleared :: "pollfd \<Rightarrow> pollfd" where
  "cleared p = p\<lparr>revents := 0\<rparr>"

lemma cleared_not_ready: "\<not> ready p \<Longrightarrow> cleared p = p"
  by (simp add: ready_def cleared_def)

lemma scan_fd_handles:
  assumes "round_ok r" and "scan_ok sc" and "pollfds (srv sc) = ps" and "i < length ps"
  shows "succeeds (\<lambda>sc'. scan_ok sc' \<and> UDPfd (srv sc') = UDPfd (srv sc) \<and>
       pollfds (srv sc') = ps[i := cleared (ps ! i)] \<and>
       processFDs sc' = processFDs sc @ (if ready (ps ! i) \<and> fd (ps ! i) \<noteq> UDPfd (srv sc) then [ps ! i] else []) \<and>
       count sc' = count sc + (if ready (ps ! i) then 1 else 0)) (scan_fd r i sc)"
proof -
  let ?Q = "\<lambda>sc'. scan_ok sc' \<and> UDPfd (srv sc') = UDPfd (srv sc) \<and> pollfds (srv sc') = ps \<and> count sc' = count sc \<and>
    processFDs sc' = processFDs sc @ (if fd (ps ! i) \<noteq> UDPfd (srv sc) then [ps ! i] else [])"
  have "succeeds ?Q (if fd (ps ! i) = UDPfd (srv sc) then read_datagram (recvfrom r i) sc
      else Inr (sc\<lparr>processFDs := processFDs sc @ [ps ! i]\<rparr>))"
  proof (cases "fd (ps ! i) = UDPfd (srv sc)")
    case True
    have "succeeds ?Q (read_datagram (recvfrom r i) sc)"
      by (rule succeeds_mono [OF read_datagram_keeps])
        (use assms True in \<open>auto simp: round_ok_def same_table_def\<close>)
    with True show ?thesis by simp
  qed (use assms in \<open>simp add: scan_ok_def\<close>)
  note step = this
  show ?thesis
  proof (cases "ready (ps ! i)")
    case True
    then have "revents (ps ! i) \<noteq> 0" by (simp add: ready_def)
    then show ?thesis unfolding scan_fd_def Let_def assms(3)
      using True assms(3,4)
      by (simp only: not_False_eq_True if_True, intro succeeds_bind [OF step])
        (simp add: clear_revents_def scan_ok_def cleared_def)
  next
    case False
    then have "ps[i := cleared (ps ! i)] = ps" by (simp add: cleared_not_ready)
    with False assms show ?thesis by (simp add: scan_fd_def Let_def ready_def)
  qed
qed

lemma scan_loop_handles:
  assumes "round_ok r" and "scan_ok sc" and "pollfds (srv sc) = ps" and "k \<le> length ps"
    and "count sc + int (length (filter ready (drop k ps))) \<le> pollresult r"
  shows "succeeds (\<lambda>sc'. scan_ok sc' \<and> UDPfd (srv sc') = UDPfd (srv sc) \<and>
       pollfds (srv sc') = take k ps @ map cleared (drop k ps) \<and>
       processFDs sc' = processFDs sc @ filter (\<lambda>p. ready p \<and> fd p \<noteq> UDPfd (srv sc)) (drop k ps) \<and>
       count sc' = count sc + int (length (filter ready (drop k ps)))) (scan_loop r [k..<length ps] sc)"
  using assms(2-)
proof (induction "length ps - k" arbitrary: k sc ps)
  case 0
  then show ?case by simp
next
  case (Suc n)
  then have k: "k < length ps" by simp
  have drp: "drop k ps = ps ! k # drop (Suc k) ps" using k by (simp add: Cons_nth_drop_Suc)
  have upt: "[k..<length ps] = k # [Suc k..<length ps]" using k by (simp add: upt_conv_Cons)
  show ?case
  proof (cases "pollresult r \<le> count sc")
    case True
    with Suc.prems(4) have "length (filter ready (drop k ps)) = 0" by linarith
    then have none: "filter ready (drop k ps) = []" by simp
    then have "\<forall>p \<in> set (drop k ps). \<not> ready p" by (simp add: filter_empty_conv)
    then have "map cleared (drop k ps) = drop k ps" "filter (\<lambda>p. ready p \<and> fd p \<noteq> UDPfd (srv sc)) (drop k ps) = []"
      by (simp_all add: cleared_not_ready map_idI filter_empty_conv)
    with True none Suc.prems show ?thesis by (simp add: upt)
  next
    case False
    let ?ps = "ps[k := cleared (ps ! k)]"
    have tk: "take (Suc k) ?ps = take k ps @ [cleared (ps ! k)]" using k by (simp add: take_Suc_conv_app_nth)
    have dk: "drop (Suc k) ?ps = drop (Suc k) ps" by simp
    show ?thesis unfolding upt scan_loop.simps if_not_P [OF False]
    proof (rule succeeds_bind [OF scan_fd_handles [OF assms(1) Suc.prems(1,2) k]], elim conjE, goal_cases)
      case (1 sc1)
      have "n = length ?ps - Suc k" "Suc k \<le> length ?ps" using Suc.hyps(2) k by simp_all
      moreover have "count sc1 + int (length (filter ready (drop (Suc k) ?ps))) \<le> pollresult r"
        using Suc.prems(4) 1 by (cases "ready (ps ! k)") (simp_all add: drp)
      ultimately show ?case
        using Suc.hyps(1) [of ?ps "Suc k" sc1] 1 unfolding tk dk
        by (auto simp: drp elim!: succeeds_mono)
    qed
  qed
qed


section \<open>The table of descriptors\<close>

text \<open>What the library expects of the table it registers its sockets in.\<close>

locale fd_table =
  fixes add :: "'f \<Rightarrow> 'e \<Rightarrow> 't \<Rightarrow> 't"
    and del :: "'f \<Rightarrow> 't \<Rightarrow> 't"
    and set_mode :: "'f \<Rightarrow> 'e \<Rightarrow> 't \<Rightarrow> 't"
    and mask :: "'e \<Rightarrow> 'm"
    and fds :: "'t \<Rightarrow> 'f list"
    and mode_of :: "'t \<Rightarrow> 'f \<rightharpoonup> 'm"
  assumes fds_add: "fds (add f e t) = fds t @ [f]"
    and fds_del: "fds (del f t) = filter (\<lambda>g. g \<noteq> f) (fds t)"
    and fds_mode: "fds (set_mode f e t) = fds t"
    and mode_dom: "dom (mode_of t) = set (fds t)"
    and mode_add: "f \<notin> set (fds t) \<Longrightarrow> mode_of (add f e t) = (mode_of t)(f \<mapsto> mask e)"
    and mode_del: "mode_of (del f t) = (mode_of t)(f := None)"
    and mode_set: "mode_of (set_mode f e t) = (if f \<in> set (fds t) then (mode_of t)(f \<mapsto> mask e) else mode_of t)"
begin

text \<open>The requests of the library and what they mean for a map from descriptors to modes. The
  flag tells an added descriptor from a changed mode; a request without a mode deletes.\<close>

fun request :: "'f \<times> 'e option \<times> bool \<Rightarrow> 't \<Rightarrow> 't" where
  "request (f, Some e, True) t = add f e t"
| "request (f, Some e, False) t = set_mode f e t"
| "request (f, None, b) t = del f t"

fun meaning :: "'f \<times> 'e option \<times> bool \<Rightarrow> ('f \<rightharpoonup> 'm) \<Rightarrow> ('f \<rightharpoonup> 'm)" where
  "meaning (f, Some e, True) d = d(f \<mapsto> mask e)"
| "meaning (f, Some e, False) d = (if f \<in> dom d then d(f \<mapsto> mask e) else d)"
| "meaning (f, None, b) d = d(f := None)"

text \<open>A descriptor is not added while it is in the table.\<close>

fun disciplined :: "('f \<times> 'e option \<times> bool) list \<Rightarrow> 'f set \<Rightarrow> bool" where
  "disciplined [] A = True"
| "disciplined ((f, Some e, True) # rs) A = (f \<notin> A \<and> disciplined rs (insert f A))"
| "disciplined ((f, Some e, False) # rs) A = disciplined rs A"
| "disciplined ((f, None, b) # rs) A = disciplined rs (A - {f})"

lemma request_step:
  assumes "disciplined (rq # rs) (set (fds t))" and "distinct (fds t)"
  shows "disciplined rs (set (fds (request rq t)))" and "distinct (fds (request rq t))"
    and "mode_of (request rq t) = meaning rq (mode_of t)"
proof -
  obtain f eo b where rq: "rq = (f, eo, b)" by (metis prod_cases3)
  have "disciplined rs (set (fds (request rq t))) \<and> distinct (fds (request rq t)) \<and>
      mode_of (request rq t) = meaning rq (mode_of t)"
  proof (cases eo)
    case None
    have "set (fds t) - {f} = {x \<in> set (fds t). x \<noteq> f}" by auto
    with None assms rq show ?thesis by (simp add: fds_del mode_del)
  next
    case (Some e)
    with assms rq show ?thesis
      by (cases b) (simp_all add: fds_add fds_mode mode_add mode_set mode_dom)
  qed
  then show "disciplined rs (set (fds (request rq t)))" "distinct (fds (request rq t))"
    "mode_of (request rq t) = meaning rq (mode_of t)" by simp_all
qed

lemma requests_table:
  "disciplined rs (set (fds t)) \<Longrightarrow> distinct (fds t) \<Longrightarrow>
     distinct (fds (fold request rs t)) \<and> mode_of (fold request rs t) = fold meaning rs (mode_of t)"
proof (induction rs arbitrary: t)
  case (Cons rq rs)
  note st = request_step [OF Cons.prems]
  from Cons.IH [OF st(1,2)] st(3) show ?case by simp
qed simp

end

definition table_modes :: "pollfd list \<Rightarrow> int \<rightharpoonup> 16 word" where
  "table_modes ps = map_of (map (\<lambda>p. (fd p, events p)) ps)"

definition table_add :: "int \<Rightarrow> int \<Rightarrow> pollfd list \<Rightarrow> pollfd list" where
  "table_add f ev ps = ps @ [new_pollfd f ev]"

interpretation table: fd_table table_add erase_fd update_events "word_of_int :: int \<Rightarrow> 16 word" "map fd" table_modes
proof
  fix f ev :: int and t :: "pollfd list"
  show "map fd (table_add f ev t) = map fd t @ [f]" by (simp add: table_add_def new_pollfd_def)
  show "map fd (erase_fd f t) = filter (\<lambda>g. g \<noteq> f) (map fd t)" by (induction t) simp_all
  show "map fd (update_events f ev t) = map fd t" by (induction t) simp_all
  show "dom (table_modes t) = set (map fd t)"
    by (simp add: table_modes_def dom_map_of_conv_image_fst image_image)
  show "table_modes (erase_fd f t) = (table_modes t)(f := None)"
    by (induction t) (auto simp: table_modes_def fun_eq_iff)
  show "table_modes (update_events f ev t) =
      (if f \<in> set (map fd t) then (table_modes t)(f \<mapsto> word_of_int ev) else table_modes t)"
    by (induction t) (auto simp: table_modes_def fun_eq_iff)
  assume "f \<notin> set (map fd t)"
  then show "table_modes (table_add f ev t) = (table_modes t)(f \<mapsto> word_of_int ev)"
    by (induction t) (auto simp: table_modes_def table_add_def new_pollfd_def fun_eq_iff)
qed

text \<open>The callbacks of the library as requests to the table.\<close>

fun fd_reason :: "int \<times> int option \<times> bool \<Rightarrow> lws_reason" where
  "fd_reason (f, Some ev, True) = CB_ADD_POLL_FD f ev"
| "fd_reason (f, Some ev, False) = CB_CHANGE_MODE_POLL_FD f ev"
| "fd_reason (f, None, b) = CB_DEL_POLL_FD f"

lemma callback_request:
  assumes "server_ok s"
  shows "succeeds (\<lambda>s'. server_ok s' \<and> UDPfd s' = UDPfd s \<and> pollfds s' = table.request rq (pollfds s))
     (callback peer w (fd_reason rq) s)"
proof -
  have g: "deref_global s = Inr s" using assms by (simp add: deref_global_def server_ok_def server_inv_def)
  let ?P = "\<lambda>s'. server_ok s' \<and> UDPfd s' = UDPfd s \<and> pollfds s' = pollfds s"
  have l: "succeeds ?P (log_to Debug msg s)" for msg using assms by (intro log_to_ok) simp_all
  show ?thesis
    by (cases rq rule: fd_reason.cases)
      (simp_all add: callback_def g addFD_def deleteFD_def setFDEvents_def table_add_def succeeds_bind [OF l])
qed

section \<open>The whole program\<close>

definition process_ok :: "process \<Rightarrow> bool" where
  "process_ok p \<longleftrightarrow>
     (let config = Config (files p) ''valoserveri.conf'' in
      config_value config ''logging'' ''level'' \<in> insert None (Some ` set levelStrings) \<and>
      (\<forall>name. fopen_ok p name) \<and> startup_ok (sys_startup p) config \<and>
      list_all round_possible (rounds p) \<and> list_all event_ok (destroy_events p))"

text \<open>What a failure of the program can come from: in some round \<open>recvfrom\<close> has reported an error, or the
  protocol for lights was asked to write, in a round or while the library was set up or taken down.\<close>

definition process_fault :: "process \<Rightarrow> cpp_error \<Rightarrow> bool" where
  "process_fault p err \<longleftrightarrow> (\<exists>r \<in> set (rounds p). round_fault r err) \<or>
     event_fault (create_events (sys_startup p) @ service_events (sys_startup p) @ destroy_events p) err"

lemma Logger_succeeds:
  assumes "config_value config ''logging'' ''level'' \<in> insert None (Some ` set levelStrings)"
    and "\<forall>name. opens name" and "global_logger w = None"
  shows "succeeds logger_ready (Logger opens now config w)"
proof -
  obtain f where f: "get_string config ''logging'' ''file'' ''valoserveri.log'' = Inr f"
    using cfg.str_value [of "''logging''" "''file''" config "''valoserveri.log''"] by simp
  obtain l where "get_string config ''logging'' ''level'' ''error'' = Inr l" "l \<in> set levelStrings"
    using cfg.str_value [of "''logging''" "''level''" config "''error''"] assms(1)
    by (auto simp: levelStrings_def split: option.splits)
  moreover from this(2) obtain lv where "parseLogLevel l = Inr lv"
    by (auto simp: parseLogLevel_def levelStrings_def)
  ultimately show ?thesis using f assms(2,3)
    by (auto simp: Logger_def LoggerImpl_def logger_ready_def split: prod.splits)
qed

lemma Serveri_destroy_ok:
  assumes "server_ok s" and "list_all event_ok es"
  shows "fails_only (event_fault es) (\<lambda>s'. logger_ready (logger s') \<and> \<not> globalServeri s' \<and> UDPfd s' = 0 \<and> dmx_fd (dmx_of s') = 0)
     (Serveri_destroy peer es s)"
  unfolding Serveri_destroy_def
  by (rule fails_only_bind [OF dispatch_all_ok]) (use assms in \<open>simp_all add: server_ok_ready DMXController_destroy_def\<close>)

lemma main_outcome:
  assumes "process_ok p"
  shows "fails_only (process_fault p) (\<lambda>out. case out of Running s \<Rightarrow> server_ok s
      | Exited log s \<Rightarrow> \<not> globalServeri s \<and> global_logger (logger s) = None) (main p)"
proof -
  let ?c = "Config (files p) ''valoserveri.conf''"
  have c: "config_value ?c ''logging'' ''level'' \<in> insert None (Some ` set levelStrings)" "\<forall>name. fopen_ok p name"
    "startup_ok (sys_startup p) ?c" "list_all round_possible (rounds p)" "list_all event_ok (destroy_events p)"
    using assms unfolding process_ok_def Let_def by blast+
  have lg: "succeeds logger_ready (Logger (fopen_ok p) (start_time p) ?c \<lparr>global_logger = None, stdout = []\<rparr>)"
    using c(1,2) by (intro Logger_succeeds) simp_all
  have sv: "fails_only (process_fault p) server_ok (Serveri (sys_startup p) ?c w)" if "logger_ready w" for w
    by (rule fails_only_mono [OF Serveri_ok [OF c(3) that]]) (auto simp: process_fault_def event_fault_def)
  have rn: "fails_only (process_fault p) (\<lambda>(returned, bs'). loop_ok bs') (run (rounds p) s)" if "server_ok s" for s
    by (rule fails_only_mono [OF run_ok [OF that c(4)]]) (auto simp: process_fault_def)
  have ds: "fails_only (process_fault p) (\<lambda>s'. logger_ready (logger s') \<and> \<not> globalServeri s' \<and> UDPfd s' = 0 \<and> dmx_fd (dmx_of s') = 0)
      (Serveri_destroy peer (destroy_events p) s)" if "server_ok s" for peer s
    by (rule fails_only_mono [OF Serveri_destroy_ok [OF that c(5)]]) (auto simp: process_fault_def event_fault_def)
  show ?thesis unfolding main_def Let_def
    apply (rule fails_only_bind_succeeds [OF lg])
    apply (rule fails_only_bind [OF sv], assumption)
    apply (rule fails_only_bind [OF rn], assumption)
    apply (auto simp: loop_ok_def)
    apply (rule fails_only_bind [OF ds], assumption)
    apply (auto simp: Logger_destroy_def logger_ready_def split: prod.splits)
    done
qed

end
