(* ===== verification/Example_Run.thy ===== *)
theory Example_Run
  imports Server_Loop
begin

text \<open>
  A concrete configuration file with two lights, a system that answers as expected and one
  round of the poll loop with a packet in it. They show that the assumptions of the theorems
  about the server can be met together.
\<close>

section \<open>A configuration\<close>

definition demo_file :: string where
  "demo_file = concat (map (\<lambda>l. l @ [newline])
     [''[global]'', ''lights = 2'', ''[light0]'', ''address = 1'', ''[light1]'', ''address = 10'', ''type = uv''])"

definition demo_config :: config where
  "demo_config = Config (\<lambda>_. Some demo_file) ''valoserveri.conf''"

lemma demo_values:
  "config_value demo_config ''global'' ''lights'' = Some ''2''"
  "config_value demo_config ''global'' ''udpPort'' = None"
  "config_value demo_config ''global'' ''wsPort'' = None"
  "config_value demo_config ''light0'' ''address'' = Some ''1''"
  "config_value demo_config ''light1'' ''address'' = Some ''10''"
  "config_value demo_config ''light0'' ''numChannels'' = None"
  "config_value demo_config ''light1'' ''numChannels'' = None"
  "config_value demo_config ''light0'' ''type'' = None"
  "config_value demo_config ''light1'' ''type'' = Some ''uv''"
  "config_value demo_config ''logging'' ''level'' = None"
  by code_simp+


definition demo_sys :: startup where
  "demo_sys = \<lparr>open_tty = \<lambda>_. 5, socket_fd = 4, bind_errno = \<lambda>_. 0, strerror = \<lambda>_. [], context_ptr = 1,
     create_events = [\<lparr>ev_protocol = Proto_default, ev_wsi = 0, ev_reason = CB_ADD_POLL_FD 7 1\<rparr>],
     service_events = [\<lparr>ev_protocol = Proto_monitor, ev_wsi = 9, ev_reason = CB_ESTABLISHED\<rparr>],
     peer_simple = \<lambda>_. ''10.0.0.1''\<rparr>"

definition demo_packet :: "byte list" where
  "demo_packet = encode_packet ''me'' [(0, \<lparr>red = 255, green = 1, blue = 2\<rparr>), (1, \<lparr>red = 9, green = 9, blue = 9\<rparr>)]"

definition demo_round :: round where
  "demo_round = \<lparr>pollresult = 1, poll_errno = 0, poll_strerror = \<lambda>_. [], poll_revents = \<lambda>i. if i = 0 then POLLIN else 0,
     recvfrom = \<lambda>_. \<lparr>dg_len = int (length demo_packet), dg_data = demo_packet, dg_from = ''10.0.0.2'', dg_port = 4000\<rparr>,
     service = \<lambda>_. [], poll_calls = \<lambda>_. [Other_call 35, Change_mode 7 5, Other_call 36], write_result = 517, peer_name = \<lambda>_. []\<rparr>"

definition demo_process :: process where
  "demo_process = \<lparr>files = \<lambda>_. Some demo_file, fopen_ok = \<lambda>_. True, start_time = ''start'', stop_time = ''stop'',
     sys_startup = demo_sys, rounds = [demo_round, demo_round\<lparr>pollresult := -1\<rparr>], destroy_events = []\<rparr>"

definition demo_log :: log_world where
  "demo_log = \<lparr>global_logger = Some \<lparr>log_filename = ''log'', log_file = [], log_threshold = Error\<rparr>, stdout = []\<rparr>"

lemma demo_log_ready: "logger_ready demo_log"
  by (simp add: logger_ready_def demo_log_def)

lemma to_string_literals: "to_string 1 = ''1''" "to_string 2 = ''2''" "to_string 10 = ''10''"
  by (simp_all add: to_string.simps digit_char_def eval_simps)

lemma demo_startup_ok: "startup_ok demo_sys demo_config"
proof -
  have num: "cfg.numeric demo_config ''global'' ''lights''" "cfg.numeric demo_config ''global'' ''udpPort''"
    "cfg.numeric demo_config ''global'' ''wsPort''" "cfg.numeric demo_config ''light0'' ''address''"
    "cfg.numeric demo_config ''light1'' ''address''" "cfg.numeric demo_config ''light0'' ''numChannels''"
    "cfg.numeric demo_config ''light1'' ''numChannels''"
    unfolding cfg.numeric_def demo_values
    by (auto simp: to_string_literals [symmetric] intro: exI [of _ 2] exI [of _ 1] exI [of _ 10])
  have "get_unsigned demo_config ''global'' ''lights'' 0 = Inr 2"
    using cfg.uint_number [of "''global''" "''lights''" demo_config 2 0] by (simp add: demo_values to_string_literals)
  moreover have "light_section 0 = ''light0''" "light_section 1 = ''light1''"
    by (simp_all add: light_section_def to_string_literals to_string.simps digit_char_def eval_simps)
  ultimately have "good_lights demo_config"
    using num by (auto simp: good_lights_def good_light_def demo_values less_2_cases_iff)
  with num show ?thesis by (simp add: startup_ok_def demo_sys_def event_ok_def)
qed

lemma demo_round_ok: "round_ok demo_round" "round_ok (demo_round\<lparr>pollresult := n\<rparr>)"
  by (simp_all add: round_ok_def demo_round_def demo_packet_def encode_packet_def encode_light_def)

lemma demo_round_possible: "round_possible demo_round" "round_possible (demo_round\<lparr>pollresult := n\<rparr>)"
  using demo_round_ok by (blast intro: round_ok_possible)+

lemma demo_round_quiet: "\<not> round_fault demo_round err" "\<not> round_fault (demo_round\<lparr>pollresult := n\<rparr>) err"
  by (simp_all add: round_fault_def recv_fault_def service_fault_def demo_round_def)

lemma demo_process_ok: "process_ok demo_process"
  using demo_startup_ok demo_round_possible
  by (simp add: process_ok_def demo_process_def demo_config_def [symmetric] demo_values)

lemma demo_server: "\<exists>s. Serveri demo_sys demo_config demo_log = Inr s \<and> server_ok s"
  using fails_only_succeeds [OF Serveri_ok [OF demo_startup_ok demo_log_ready]]
  by (simp add: succeeds_iff event_fault_def demo_sys_def asks_default_def)

text \<open>A round in which a monitor can be written to.\<close>

definition demo_ask :: round where
  "demo_ask = demo_round\<lparr>poll_revents := \<lambda>i. if i = 1 then 4 else 0,
     service := \<lambda>_. [\<lparr>ev_protocol = Proto_monitor, ev_wsi = 9, ev_reason = CB_SERVER_WRITEABLE\<rparr>]\<rparr>"

lemma demo_ask_possible: "round_possible demo_ask"
  using demo_round_possible(1) by (simp add: round_possible_def demo_ask_def event_ok_def)

lemma demo_ask_quiet: "\<not> round_fault demo_ask err"
  by (simp add: round_fault_def recv_fault_def service_fault_def demo_ask_def demo_round_def asks_default_def)

text \<open>A server with two lights that has not received a packet yet.\<close>

definition demo_dmx :: dmx where
  "demo_dmx = \<lparr>dmx_fd = 5, dmxPacket = [0x7e, 0x06, 0x00, 0x02] @ replicate 512 0 @ [0xe7],
     lightConfig = [(0, \<lparr>light_kind = RGB, address = 1, numChannels = 5\<rparr>),
                    (1, \<lparr>light_kind = UV, address = 10, numChannels = 2\<rparr>)],
     tty_mode = Some tty_settings, tty_stream = []\<rparr>"

definition demo_state :: serveri where
  "demo_state = \<lparr>globalServeri = True, UDPfd = 4, dmx_of = demo_dmx, whitelist = init_whitelist,
     currentState = \<lparr>tag = ''me'', lights = [(0, Color), (1, Color)]\<rparr>, buflen = 2048, ws_context = 1,
     monitorConnections = [(9, ''10.0.0.1'')], monitorMessage = replicate 20 0,
     pollfds = [\<lparr>fd = 4, events = 9, revents = 0\<rparr>, \<lparr>fd = 7, events = 1, revents = 0\<rparr>],
     lightsDirty = True, logger = demo_log, lws_calls = []\<rparr>"

lemma demo_dmx_ok: "dmx_ok demo_dmx" "numbered (lightConfig demo_dmx)" "initial_packet = Inr (dmxPacket demo_dmx)"
proof -
  show i: "initial_packet = Inr (dmxPacket demo_dmx)" by (simp add: initial_packet_eq demo_dmx_def)
  have "wf_packet (dmxPacket demo_dmx)" using initial_packet_wf i by (metis sum.inject(2))
  then show "dmx_ok demo_dmx"
    by (simp add: dmx_ok_def wf_dmx_def) (simp add: demo_dmx_def disjoint_lights_def light_offset_def channel_count_def)
  show "numbered (lightConfig demo_dmx)" by (simp add: numbered_def demo_dmx_def)
qed

lemma demo_state_ok: "server_ok demo_state"
proof -
  have "in_step demo_dmx [(0, Color), (1, Color)]"
    using in_step_initial [OF demo_dmx_ok(3)] by (simp add: demo_dmx_def)
  moreover have "set ''me'' \<subseteq> set tagWhitelist" by (simp add: tagWhitelist_def)
  moreover have "map fst [(0, Color), (1, Color)] = map fst (lightConfig demo_dmx)" by (simp add: demo_dmx_def)
  ultimately show ?thesis using demo_dmx_ok demo_log_ready
    by (simp add: server_ok_def server_inv_def demo_state_def LWS_PRE_def dmx_ok_def)
qed

text \<open>A first round without packets writes what is known; then the monitor's descriptor is ready.\<close>

lemma demo_first_round:
  "\<exists>s. run_round (demo_round\<lparr>pollresult := 0\<rparr>) (replicate 2048 0, demo_state) = Inr (False, replicate 2048 0, s) \<and>
     currentState s = currentState demo_state \<and> deferred demo_ask (replicate 2048 0, s) = 1"
proof -
  let ?r = "demo_round\<lparr>pollresult := 0\<rparr>" and ?s = "demo_state\<lparr>pollfds := store_revents (poll_revents demo_round) (pollfds demo_state)\<rparr>"
  have "server_ok ?s" "lightsDirty ?s" using demo_state_ok by simp (simp add: demo_state_def)
  from flush_dirty [OF this, of ?r] obtain s where
    s: "flush_lights ?r ?s = Inr s" "currentState s = currentState demo_state" "UDPfd s = UDPfd demo_state"
      "pollfds s = fold poll_effect (concat (map (poll_calls ?r) [0..<length (monitorConnections ?s)])) (pollfds ?s)" by fastforce
  have "scan_loop ?r is \<lparr>srv = ?s, buffer = b, processFDs = [], count = 0\<rparr> = Inr \<lparr>srv = ?s, buffer = b, processFDs = [], count = 0\<rparr>" for "is" b
    by (cases "is") simp_all
  then have run: "run_round ?r (replicate 2048 0, demo_state) = Inr (False, replicate 2048 0, s)"
    using s(1) by (simp add: run_round_def)
  have ps: "pollfds s = [\<lparr>fd = 4, events = 9, revents = 1\<rparr>, \<lparr>fd = 7, events = 5, revents = 0\<rparr>]"
    unfolding s(4) by (simp add: demo_state_def demo_round_def store_revents_def poll_effect_def POLLIN_def)
  have "deferred demo_ask (replicate 2048 0, s) = 1"
    using s(3) by (simp add: deferred_def ps store_revents_def demo_ask_def demo_round_def upt_rec scan_fd_def clear_revents_def demo_state_def)
  with run s(2) show ?thesis by blast
qed

lemma demo_lights_disjoint: "disjoint_lights (lightConfig demo_dmx)"
  using demo_dmx_ok(1) by (simp add: dmx_ok_def)

end
