(* ===== verification/Lws_Utf8.thy ===== *)
theory Lws_Utf8
  imports Json_Serializer
begin

text \<open>
  The incremental UTF-8 checker of libwebsockets
  (\<^verbatim>\<open>src/foreign/libwebsockets/lib/core/libwebsockets.c\<close>), which judges the text a
  WebSocket peer sends. A state byte holds the range of the next byte in its upper bits and the
  number of bytes after it in the lower two; 0 is between characters.

  The checker and the decoder of the JSON serializer are two automata for the same language:
  \<open>lws_check_utf8_agrees\<close> relates their states step by step.
\<close>

unbundle bit_operations_syntax

section \<open>The code\<close>

definition e0f4 :: "byte list" where
  "e0f4 =
     [0xa0 OR push_bit 2 (2 - 1) OR 1,
      0x80 OR push_bit 2 (4 - 1) OR 1, 0x80 OR push_bit 2 (4 - 1) OR 1, 0x80 OR push_bit 2 (4 - 1) OR 1,
      0x80 OR push_bit 2 (4 - 1) OR 1, 0x80 OR push_bit 2 (4 - 1) OR 1, 0x80 OR push_bit 2 (4 - 1) OR 1,
      0x80 OR push_bit 2 (4 - 1) OR 1, 0x80 OR push_bit 2 (4 - 1) OR 1, 0x80 OR push_bit 2 (4 - 1) OR 1,
      0x80 OR push_bit 2 (4 - 1) OR 1, 0x80 OR push_bit 2 (4 - 1) OR 1, 0x80 OR push_bit 2 (4 - 1) OR 1,
      0x80 OR push_bit 2 (2 - 1) OR 1,
      0x80 OR push_bit 2 (4 - 1) OR 1, 0x80 OR push_bit 2 (4 - 1) OR 1,
      0x90 OR push_bit 2 (3 - 1) OR 2,
      0x80 OR push_bit 2 (4 - 1) OR 2, 0x80 OR push_bit 2 (4 - 1) OR 2, 0x80 OR push_bit 2 (4 - 1) OR 2,
      0x80 OR push_bit 2 (1 - 1) OR 2,
      0,
      0x80 OR push_bit 2 (4 - 1) OR 0,
      0x80 OR push_bit 2 (4 - 1) OR 1]"

text \<open>The comparison with the upper end of the range is done in \<open>int\<close>.\<close>

definition continuation_range :: "byte \<Rightarrow> nat \<times> nat" where
  "continuation_range s =
     (unat (s AND 0xf0), unat (s AND 0xf0) + 0x10 + (4 * unat s AND 0x30))"

definition lws_check_byte_utf8 :: "byte \<Rightarrow> byte \<Rightarrow> int" where
  "lws_check_byte_utf8 state c =
     (let s = state in
      if s = 0 then
        (if c \<ge> 0x80 then
           (if c < 0xc2 \<or> c > 0xf4 then - 1
            else if c < 0xe0 then uint (0x80 OR push_bit 2 (4 - 1) :: byte)
            else uint (e0f4 ! unat (c - 0xe0)))
         else uint s)
      else if unat c < fst (continuation_range s) \<or> unat c \<ge> snd (continuation_range s) then - 1
      else uint (e0f4 ! (21 + unat (s AND 3))))"

fun check_utf8_loop :: "byte \<Rightarrow> byte list \<Rightarrow> byte option" where
  "check_utf8_loop s [] = Some s"
| "check_utf8_loop s (c # buf) =
     (if s = 0 then
        (if c \<ge> 0x80 then
           (if c < 0xc2 \<or> c > 0xf4 then None
            else if c < 0xe0 then check_utf8_loop (0x80 OR push_bit 2 (4 - 1)) buf
            else check_utf8_loop (e0f4 ! unat (c - 0xe0)) buf)
         else check_utf8_loop s buf)
      else if unat c < fst (continuation_range s) \<or> unat c \<ge> snd (continuation_range s) then None
      else check_utf8_loop (e0f4 ! (21 + unat (s AND 3))) buf)"

definition lws_check_utf8 :: "byte \<Rightarrow> byte list \<Rightarrow> int \<times> byte" where
  "lws_check_utf8 state buf =
     (case check_utf8_loop state buf of None \<Rightarrow> (1, state) | Some s \<Rightarrow> (0, s))"

section \<open>The checker against the decoder of the serializer\<close>

text \<open>The state of the decoder of the serializer, as the checker holds it.\<close>

definition lws_state :: "nat \<Rightarrow> byte" where
  "lws_state q = [0, 0, 0x8c, 0x8d, 0xa5, 0x85, 0x9a, 0x8e, 0x82] ! q"

lemma lws_state_range:
  "continuation_range (lws_state 2) = (128, 192)" "continuation_range (lws_state 3) = (128, 192)"
  "continuation_range (lws_state 4) = (160, 192)" "continuation_range (lws_state 5) = (128, 160)"
  "continuation_range (lws_state 6) = (144, 192)" "continuation_range (lws_state 7) = (128, 192)"
  "continuation_range (lws_state 8) = (128, 144)"
  by code_simp+

lemma lws_state_next:
  "e0f4 ! (21 + unat (lws_state 2 AND 3)) = lws_state 0" "e0f4 ! (21 + unat (lws_state 3 AND 3)) = lws_state 2"
  "e0f4 ! (21 + unat (lws_state 4 AND 3)) = lws_state 2" "e0f4 ! (21 + unat (lws_state 5 AND 3)) = lws_state 2"
  "e0f4 ! (21 + unat (lws_state 6 AND 3)) = lws_state 3" "e0f4 ! (21 + unat (lws_state 7 AND 3)) = lws_state 3"
  "e0f4 ! (21 + unat (lws_state 8 AND 3)) = lws_state 3"
  by code_simp+

lemma lws_state_0: "lws_state q = 0 \<longleftrightarrow> q = 0" if "q \<in> {0, 2, 3, 4, 5, 6, 7, 8}"
  using that by (auto simp: lws_state_def)

lemma lws_state_lead2: "0x80 OR push_bit 2 (4 - 1) = lws_state 2"
  by code_simp

lemma e0f4_lead:
  "list_all (\<lambda>i. e0f4 ! i = lws_state (next_state 0 (byte_type (224 + i))) \<and> next_state 0 (byte_type (224 + i)) \<noteq> 1) [0..<21]"
  by code_simp

abbreviation utf8_states :: "nat set" where
  "utf8_states \<equiv> {0, 2, 3, 4, 5, 6, 7, 8}"

lemma check_step_lead:
  "check_utf8_loop (lws_state 0) (c # buf) =
     (let q' = next_state 0 (byte_type (unat c)) in if q' = 1 then None else check_utf8_loop (lws_state q') buf)"
proof -
  define n where "n = unat c"
  have n: "n < 256" using unsigned_less [of c, where 'a = nat] by (simp add: n_def)
  have cmp: "c \<ge> 0x80 \<longleftrightarrow> n \<ge> 128" "c < 0xc2 \<longleftrightarrow> n < 194" "c > 0xf4 \<longleftrightarrow> n > 244" "c < 0xe0 \<longleftrightarrow> n < 224"
    by (simp_all add: n_def word_le_nat_alt word_less_nat_alt)
  consider "n < 128" | "128 \<le> n" "n < 194" | "194 \<le> n" "n < 224" | "224 \<le> n" "n \<le> 244" | "244 < n" by linarith
  then show ?thesis
  proof cases
    case 4
    then have "unat (c - 0xe0) = n - 224" by (simp add: n_def unat_sub word_le_nat_alt)
    moreover obtain i where i: "n = 224 + i" "i < 21" using 4 that [of "n - 224"] by simp
    moreover from e0f4_lead i(2) have "e0f4 ! i = lws_state (next_state 0 (byte_type (224 + i)))"
      "next_state 0 (byte_type (224 + i)) \<noteq> 1" by (simp_all add: list_all_iff)
    ultimately show ?thesis using 4 cmp lws_state_0 [of 0] by (simp add: n_def [symmetric] Let_def)
  qed (use n cmp lws_state_lead2 lws_state_0 [of 0] in
        \<open>simp_all add: n_def [symmetric] byte_type_def next_state_def\<close>)
qed

lemma byte_type_classes:
  "byte_type n \<in> {1, 7, 9} \<longleftrightarrow> 128 \<le> n \<and> n < 192" "byte_type n = 7 \<longleftrightarrow> 160 \<le> n \<and> n < 192"
  "byte_type n \<in> {1, 9} \<longleftrightarrow> 128 \<le> n \<and> n < 160" "byte_type n \<in> {7, 9} \<longleftrightarrow> 144 \<le> n \<and> n < 192"
  "byte_type n = 1 \<longleftrightarrow> 128 \<le> n \<and> n < 144"
  by (simp_all add: byte_type_def)

lemma next_state_classes:
  "next_state 2 (byte_type n) = (if 128 \<le> n \<and> n < 192 then 0 else 1)"
  "next_state 3 (byte_type n) = (if 128 \<le> n \<and> n < 192 then 2 else 1)"
  "next_state 4 (byte_type n) = (if 160 \<le> n \<and> n < 192 then 2 else 1)"
  "next_state 5 (byte_type n) = (if 128 \<le> n \<and> n < 160 then 2 else 1)"
  "next_state 6 (byte_type n) = (if 144 \<le> n \<and> n < 192 then 3 else 1)"
  "next_state 7 (byte_type n) = (if 128 \<le> n \<and> n < 192 then 3 else 1)"
  "next_state 8 (byte_type n) = (if 128 \<le> n \<and> n < 144 then 3 else 1)"
  unfolding next_state_def byte_type_classes by simp_all

lemma check_step_continue:
  assumes "q \<in> {2, 3, 4, 5, 6, 7, 8}"
  shows "check_utf8_loop (lws_state q) (c # buf) =
     (let q' = next_state q (byte_type (unat c)) in if q' = 1 then None else check_utf8_loop (lws_state q') buf)"
proof -
  define n where "n = unat c"
  have n: "n < 256" using unsigned_less [of c, where 'a = nat] by (simp add: n_def)
  have "lws_state q \<noteq> 0" using assms lws_state_0 [of q] by auto
  then have step: "check_utf8_loop (lws_state q) (c # buf) =
      (if n < fst (continuation_range (lws_state q)) \<or> n \<ge> snd (continuation_range (lws_state q)) then None
       else check_utf8_loop (e0f4 ! (21 + unat (lws_state q AND 3))) buf)"
    by (simp add: n_def)
  from assms consider "q = 2" | "q = 3" | "q = 4" | "q = 5" | "q = 6" | "q = 7" | "q = 8" by blast
  then show ?thesis unfolding step n_def [symmetric]
    by cases (simp_all only: lws_state_range lws_state_next next_state_classes Let_def fst_conv snd_conv, auto)
qed

lemma next_state_closed: "q \<in> utf8_states \<Longrightarrow> next_state q (byte_type n) \<in> insert 1 utf8_states"
proof -
  assume q: "q \<in> utf8_states"
  let ?row = "[0, 1, 2, 3, 5, 8, 7, 1, 1, 1, 4, 6] :: nat list"
  have "?row ! byte_type n \<in> set ?row" by (rule nth_mem) (use byte_type_less [of n] in simp)
  then have "?row ! byte_type n \<in> insert 1 utf8_states" by auto
  then have "next_state 0 (byte_type n) \<in> insert 1 utf8_states" unfolding next_state_def by simp
  moreover have "q = 0 \<or> next_state q (byte_type n) \<in> {0, 1, 2, 3}"
    using q unfolding insert_iff empty_iff by (elim disjE FalseE) (simp_all add: next_state_classes)
  ultimately show ?thesis by auto
qed

lemma check_step:
  "q \<in> utf8_states \<Longrightarrow> check_utf8_loop (lws_state q) (c # buf) =
     (let q' = next_state q (byte_type (unat c)) in if q' = 1 then None else check_utf8_loop (lws_state q') buf)"
  using check_step_lead check_step_continue by blast

lemma unat_byte_of_char: "unat (byte_of_char c) = of_char c"
  by (simp add: byte_of_char_def unat_of_nat)

lemma check_loop_run:
  "q \<in> utf8_states \<Longrightarrow> check_utf8_loop (lws_state q) (bytes_of_string s) =
     (if utf8_run q s = UTF8_REJECT then None else Some (lws_state (utf8_run q s)))"
proof (induction s arbitrary: q)
  case Nil
  then show ?case by (auto simp: bytes_of_string_def UTF8_REJECT_def)
next
  case (Cons c s)
  let ?q = "next_state q (byte_type (of_char c))"
  have "q \<noteq> UTF8_REJECT" using Cons.prems by (auto simp: UTF8_REJECT_def)
  then have run: "utf8_run q (c # s) = utf8_run ?q s" by simp
  have "check_utf8_loop (lws_state q) (bytes_of_string (c # s)) =
      (if ?q = 1 then None else check_utf8_loop (lws_state ?q) (bytes_of_string s))"
    using check_step [OF Cons.prems] by (simp add: bytes_of_string_def unat_byte_of_char Let_def del: check_utf8_loop.simps)
  moreover have "?q = 1 \<or> ?q \<in> utf8_states" using next_state_closed [OF Cons.prems] by simp
  ultimately show ?case unfolding run using Cons.IH [of ?q] utf8_run_reject(1) [of s] by (auto simp: UTF8_REJECT_def)
qed

lemma lws_state_zero_iff: "q \<in> utf8_states \<Longrightarrow> lws_state q = 0 \<longleftrightarrow> q = 0"
  by (rule lws_state_0)

lemma utf8_run_closed: "q \<in> insert 1 utf8_states \<Longrightarrow> utf8_run q s \<in> insert 1 utf8_states"
proof (induction s arbitrary: q)
  case (Cons c s)
  show ?case
  proof (cases "q = 1")
    case False
    then have q: "q \<in> utf8_states" using Cons.prems by simp
    have "utf8_run q (c # s) = utf8_run (next_state q (byte_type (of_char c))) s"
      using False by (simp add: UTF8_REJECT_def)
    then show ?thesis using Cons.IH [OF next_state_closed [OF q]] by simp
  qed (use utf8_run_reject(1) [of "c # s"] in simp)
qed simp

text \<open>Text may arrive in pieces: the state carries over.\<close>

lemma check_utf8_loop_append:
  "check_utf8_loop s (a @ b) = Option.bind (check_utf8_loop s a) (\<lambda>s'. check_utf8_loop s' b)"
  by (induction a arbitrary: s) simp_all

lemma lws_check_utf8_append:
  "lws_check_utf8 s a = (0, s') \<Longrightarrow> fst (lws_check_utf8 s (a @ b)) = fst (lws_check_utf8 s' b)"
  "lws_check_utf8 s a = (0, s') \<Longrightarrow> lws_check_utf8 s' b = (0, s'') \<Longrightarrow> lws_check_utf8 s (a @ b) = (0, s'')"
  "fst (lws_check_utf8 s a) \<noteq> 0 \<Longrightarrow> fst (lws_check_utf8 s (a @ b)) \<noteq> 0"
  by (auto simp: lws_check_utf8_def check_utf8_loop_append split: option.splits)

lemma check_byte_step:
  "check_utf8_loop s [c] = (let r = lws_check_byte_utf8 s c in if r < 0 then None else Some (of_int r))"
  by (simp add: lws_check_byte_utf8_def Let_def uint_word_of_int_eq)

section \<open>Properties\<close>

text \<open>C15. The WebSocket layer and the JSON serializer agree on what UTF-8 is: the checker of libwebsockets
  accepts a text as complete exactly when the decoder of the serializer does, and it may check the text
  in any two pieces.\<close>

theorem lws_check_utf8_agrees:
  "(lws_check_utf8 0 (bytes_of_string (a @ b)) = (0, 0) \<longleftrightarrow> valid_utf8 (a @ b)) \<and>
   (lws_check_utf8 0 (bytes_of_string (a @ b)) = (0, 0) \<longleftrightarrow>
     (\<exists>s. lws_check_utf8 0 (bytes_of_string a) = (0, s) \<and> lws_check_utf8 s (bytes_of_string b) = (0, 0)))"
proof (rule conjI)
  have z: "lws_state 0 = 0" by (simp add: lws_state_def)
  have run: "utf8_run 0 t \<in> insert 1 utf8_states" for t by (rule utf8_run_closed) simp
  show "lws_check_utf8 0 (bytes_of_string (a @ b)) = (0, 0) \<longleftrightarrow> valid_utf8 (a @ b)"
    using check_loop_run [of 0 "a @ b"] run [of "a @ b"] lws_state_zero_iff [of "utf8_run 0 (a @ b)"]
    unfolding z by (auto simp: lws_check_utf8_def valid_utf8_def UTF8_ACCEPT_def UTF8_REJECT_def split: if_splits)
  show "lws_check_utf8 0 (bytes_of_string (a @ b)) = (0, 0) \<longleftrightarrow>
     (\<exists>s. lws_check_utf8 0 (bytes_of_string a) = (0, s) \<and> lws_check_utf8 s (bytes_of_string b) = (0, 0))"
    by (auto simp: lws_check_utf8_def bytes_of_string_def check_utf8_loop_append split: option.splits bind_splits)
qed

end
