(* ===== verification/Lws_Buflist.thy ===== *)
theory Lws_Buflist
  imports Cpp_Prelude
begin

text \<open>
  The segmented byte queue of libwebsockets
  (\<^verbatim>\<open>src/foreign/libwebsockets/lib/core/buflist.c\<close>), in which a connection keeps the
  bytes its socket did not take. A segment is a block of bytes with a position before which
  everything is used up; the linked list of segments is the list \<open>buflist\<close>, its head first.

  The operations are those of the source, with their assertions as failures; whether \<open>malloc\<close>
  succeeds is an argument. The locale \<open>byte_queue\<close> is the contract the sending code relies on:
  the segments are a queue of bytes.
\<close>

section \<open>The code\<close>

record lws_buflist =
  seg_buf :: "byte list"
  seg_pos :: nat

type_synonym buflist = "lws_buflist list"

abbreviation seg_len :: "lws_buflist \<Rightarrow> nat" where
  "seg_len s \<equiv> length (seg_buf s)"

text \<open>The walk to the tail gives up at the 1024th segment.\<close>

definition lws_buflist_append_segment :: "bool \<Rightarrow> byte list \<Rightarrow> buflist \<Rightarrow> (int \<times> buflist) res" where
  "lws_buflist_append_segment malloc_ok buf head =
     bind_res (assert_that (buf \<noteq> [])) (\<lambda>_.
       if 1024 \<le> length head then Inr (- 1, head)
       else if \<not> malloc_ok then Inr (- 1, head)
       else Inr (if head = [] then 1 else 0, head @ [\<lparr>seg_buf = buf, seg_pos = 0\<rparr>]))"

definition lws_buflist_destroy_segment :: "buflist \<Rightarrow> (int \<times> buflist) res" where
  "lws_buflist_destroy_segment head =
     bind_res (assert_that (head \<noteq> [])) (\<lambda>_. Inr (if tl head = [] then 1 else 0, tl head))"

definition lws_buflist_destroy_all_segments :: "buflist \<Rightarrow> buflist" where
  "lws_buflist_destroy_all_segments head = []"

text \<open>The length of what is left of the first segment, the bytes themselves (\<open>None\<close> for the null
  pointer), and the list without an empty first segment.\<close>

definition lws_buflist_next_segment_len :: "buflist \<Rightarrow> (nat \<times> byte list option \<times> buflist) res" where
  "lws_buflist_next_segment_len head =
     (if head = [] then Inr (0, None, head)
      else bind_res
        (if seg_len (hd head) = 0 \<and> tl head \<noteq> [] then map_sum id snd (lws_buflist_destroy_segment head)
         else Inr head) (\<lambda>head.
        if head = [] then Inr (0, None, head)
        else bind_res (assert_that (seg_pos (hd head) < seg_len (hd head))) (\<lambda>_.
          Inr (seg_len (hd head) - seg_pos (hd head),
               Some (drop (seg_pos (hd head)) (seg_buf (hd head))), head))))"

definition lws_buflist_use_segment :: "nat \<Rightarrow> buflist \<Rightarrow> (int \<times> buflist) res" where
  "lws_buflist_use_segment len head =
     bind_res (assert_that (head \<noteq> [])) (\<lambda>_.
     bind_res (assert_that (len \<noteq> 0)) (\<lambda>_.
     bind_res (assert_that (seg_pos (hd head) + len \<le> seg_len (hd head))) (\<lambda>_.
       let seg = (hd head)\<lparr>seg_pos := seg_pos (hd head) + len\<rparr> in
       bind_res (if seg_pos seg = seg_len seg then map_sum id snd (lws_buflist_destroy_segment (seg # tl head))
                 else Inr (seg # tl head)) (\<lambda>head'.
         Inr (if head' = [] then 0 else int (seg_len (hd head') - seg_pos (hd head')), head')))))"

section \<open>The segments are a queue of bytes\<close>

definition seg_rest :: "lws_buflist \<Rightarrow> byte list" where
  "seg_rest s = drop (seg_pos s) (seg_buf s)"

definition pending :: "buflist \<Rightarrow> byte list" where
  "pending bl = concat (map seg_rest bl)"

definition wf_buflist :: "buflist \<Rightarrow> bool" where
  "wf_buflist bl \<longleftrightarrow> (\<forall>s \<in> set bl. seg_pos s < seg_len s)"

lemma pending_simps [simp]:
  "pending [] = []" "pending (s # bl) = seg_rest s @ pending bl" "pending (bl @ bl') = pending bl @ pending bl'"
  by (simp_all add: pending_def)

lemma wf_buflist_simps [simp]:
  "wf_buflist []" "wf_buflist (s # bl) \<longleftrightarrow> seg_pos s < seg_len s \<and> wf_buflist bl"
  "wf_buflist (bl @ bl') \<longleftrightarrow> wf_buflist bl \<and> wf_buflist bl'"
  by (auto simp: wf_buflist_def)

lemma pending_empty_iff: "wf_buflist bl \<Longrightarrow> pending bl = [] \<longleftrightarrow> bl = []"
  by (cases bl) (auto simp: seg_rest_def)

lemma append_segment:
  assumes "wf_buflist bl" and "buf \<noteq> []"
  shows "\<exists>r bl'. lws_buflist_append_segment malloc_ok buf bl = Inr (r, bl') \<and> wf_buflist bl' \<and>
     (if r < 0 then bl' = bl else pending bl' = pending bl @ buf) \<and>
     (r < 0 \<longleftrightarrow> 1024 \<le> length bl \<or> \<not> malloc_ok) \<and> (r = 1 \<longleftrightarrow> bl = [] \<and> malloc_ok)"
  using assms by (simp add: lws_buflist_append_segment_def seg_rest_def)

lemma next_segment:
  assumes "wf_buflist bl"
  shows "lws_buflist_next_segment_len bl =
     Inr (case bl of [] \<Rightarrow> (0, None, []) | s # _ \<Rightarrow> (length (seg_rest s), Some (seg_rest s), bl))"
  using assms by (cases bl) (auto simp: lws_buflist_next_segment_len_def assert_that_def seg_rest_def)

lemma use_segment:
  assumes "wf_buflist (s # bl)" and "0 < k" and "k \<le> length (seg_rest s)"
  shows "\<exists>r bl'. lws_buflist_use_segment k (s # bl) = Inr (r, bl') \<and> wf_buflist bl' \<and>
     pending bl' = drop k (pending (s # bl)) \<and> length bl' \<le> length (s # bl)"
  using assms by (auto simp: lws_buflist_use_segment_def lws_buflist_destroy_segment_def seg_rest_def Let_def
      assert_that_def add.commute)

text \<open>What a user of the queue relies on: appending puts bytes behind, the first segment is a
  non-empty prefix of the bytes, using some of it removes them.\<close>

locale byte_queue =
  fixes contents :: "'q \<Rightarrow> byte list"
    and ok :: "'q \<Rightarrow> bool"
    and app :: "byte list \<Rightarrow> 'q \<Rightarrow> (int \<times> 'q) res"
    and peek :: "'q \<Rightarrow> (nat \<times> byte list option \<times> 'q) res"
    and uses :: "nat \<Rightarrow> 'q \<Rightarrow> (int \<times> 'q) res"
  assumes app_contents: "ok q \<Longrightarrow> b \<noteq> [] \<Longrightarrow>
      \<exists>r q'. app b q = Inr (r, q') \<and> ok q' \<and> contents q' = (if r < 0 then contents q else contents q @ b)"
    and peek_empty: "ok q \<Longrightarrow> contents q = [] \<Longrightarrow> peek q = Inr (0, None, q)"
    and peek_front: "ok q \<Longrightarrow> contents q \<noteq> [] \<Longrightarrow>
      \<exists>b rest. peek q = Inr (length b, Some b, q) \<and> b \<noteq> [] \<and> contents q = b @ rest"
    and uses_front: "ok q \<Longrightarrow> peek q = Inr (n, Some b, q) \<Longrightarrow> 0 < k \<Longrightarrow> k \<le> n \<Longrightarrow>
      \<exists>r q'. uses k q = Inr (r, q') \<and> ok q' \<and> contents q' = drop k (contents q)"
begin

text \<open>Taking the first segment as a whole removes it and nothing else, so repeated taking ends.\<close>

lemma take_segment:
  assumes "ok q" and "contents q \<noteq> []"
  obtains b r q' where "peek q = Inr (length b, Some b, q)" and "b \<noteq> []" and "uses (length b) q = Inr (r, q')"
    and "ok q'" and "contents q = b @ contents q'" and "length (contents q') < length (contents q)"
proof -
  from peek_front [OF assms] obtain b rest where
    b: "peek q = Inr (length b, Some b, q)" "b \<noteq> []" "contents q = b @ rest" by blast
  from uses_front [OF assms(1) b(1), of "length b"] b(2) obtain r q' where
    u: "uses (length b) q = Inr (r, q')" "ok q'" "contents q' = drop (length b) (contents q)" by auto
  show thesis by (rule that [OF b(1,2) u(1,2)]) (use b u(3) in auto)
qed

end

interpretation bufq: byte_queue pending wf_buflist "lws_buflist_append_segment malloc_ok"
  lws_buflist_next_segment_len lws_buflist_use_segment
proof unfold_locales
  fix q :: buflist and b
  show "wf_buflist q \<Longrightarrow> b \<noteq> [] \<Longrightarrow> \<exists>r q'. lws_buflist_append_segment malloc_ok b q = Inr (r, q') \<and> wf_buflist q' \<and>
      pending q' = (if r < 0 then pending q else pending q @ b)"
    using append_segment [of q b malloc_ok] by (auto split: if_splits)
next
  fix q :: buflist
  assume q: "wf_buflist q"
  show "pending q = [] \<Longrightarrow> lws_buflist_next_segment_len q = Inr (0, None, q)"
    using next_segment [OF q] pending_empty_iff [OF q] by simp
  show "pending q \<noteq> [] \<Longrightarrow> \<exists>b rest. lws_buflist_next_segment_len q = Inr (length b, Some b, q) \<and> b \<noteq> [] \<and> pending q = b @ rest"
    using q next_segment [OF q] by (cases q) (auto simp: seg_rest_def)
next
  fix q :: buflist and n b and k :: nat
  assume q: "wf_buflist q" and p: "lws_buflist_next_segment_len q = Inr (n, Some b, q)" and k: "0 < k" "k \<le> n"
  show "\<exists>r q'. lws_buflist_use_segment k q = Inr (r, q') \<and> wf_buflist q' \<and> pending q' = drop k (pending q)"
    using p next_segment [OF q] q k use_segment [of _ _ k] by (cases q) fastforce+
qed

end
