(* ===== verification/Lws_Wsi.thy ===== *)
theory Lws_Wsi
  imports Lws_Buflist
begin

text \<open>
  A WebSocket connection as libwebsockets holds it: the parts of \<open>struct lws\<close>
  (\<^verbatim>\<open>lib/core-net/private.h\<close>) and \<open>struct _lws_websocket_related\<close>
  (\<^verbatim>\<open>lib/roles/ws/private.h\<close>) that the code below reads or writes, with the fields of its
  context and protocol next to them. The build of the server is the one modelled
  (\<^verbatim>\<open>include/lws_config.h\<close>): no extensions, no TLS, an external poll loop; the
  connection was upgraded from HTTP/1, so the HTTP/2 flags are clear.

  What the connection does to the outside is recorded in it: the bytes the socket took
  (\<open>wire\<close>), what was handed to the application (\<open>delivered\<close>), whether the poll loop
  was asked for \<open>POLLOUT\<close>, the timers set.
\<close>

unbundle bit_operations_syntax

section \<open>Data\<close>

datatype lwsi_state =
    LRS_UNCONNECTED | LRS_WAITING_CONNECT
  | LRS_WAITING_PROXY_REPLY | LRS_WAITING_SSL | LRS_WAITING_SOCKS_GREETING_REPLY
  | LRS_WAITING_SOCKS_CONNECT_REPLY | LRS_WAITING_SOCKS_AUTH_REPLY
  | LRS_SSL_INIT | LRS_SSL_ACK_PENDING | LRS_PRE_WS_SERVING_ACCEPT
  | LRS_WAITING_SERVER_REPLY | LRS_H2_AWAIT_PREFACE | LRS_H2_AWAIT_SETTINGS
  | LRS_H2_CLIENT_SEND_SETTINGS | LRS_H2_WAITING_TO_SEND_HEADERS | LRS_DEFERRING_ACTION
  | LRS_IDLING | LRS_H1C_ISSUE_HANDSHAKE | LRS_H1C_ISSUE_HANDSHAKE2 | LRS_ISSUE_HTTP_BODY
  | LRS_ISSUING_FILE | LRS_HEADERS | LRS_BODY | LRS_DISCARD_BODY | LRS_ESTABLISHED
  | LRS_DOING_TRANSACTION
  | LRS_WAITING_TO_SEND_CLOSE | LRS_RETURNED_CLOSE | LRS_AWAITING_CLOSE_ACK
  | LRS_FLUSHING_BEFORE_CLOSE | LRS_SHUTDOWN
  | LRS_DEAD_SOCKET

datatype lws_rx_parse_state =
    LWS_RXPS_NEW
  | LWS_RXPS_04_mask_1 | LWS_RXPS_04_mask_2 | LWS_RXPS_04_mask_3
  | LWS_RXPS_04_FRAME_HDR_1 | LWS_RXPS_04_FRAME_HDR_LEN
  | LWS_RXPS_04_FRAME_HDR_LEN16_2 | LWS_RXPS_04_FRAME_HDR_LEN16_1
  | LWS_RXPS_04_FRAME_HDR_LEN64_8 | LWS_RXPS_04_FRAME_HDR_LEN64_7
  | LWS_RXPS_04_FRAME_HDR_LEN64_6 | LWS_RXPS_04_FRAME_HDR_LEN64_5
  | LWS_RXPS_04_FRAME_HDR_LEN64_4 | LWS_RXPS_04_FRAME_HDR_LEN64_3
  | LWS_RXPS_04_FRAME_HDR_LEN64_2 | LWS_RXPS_04_FRAME_HDR_LEN64_1
  | LWS_RXPS_07_COLLECT_FRAME_KEY_1 | LWS_RXPS_07_COLLECT_FRAME_KEY_2
  | LWS_RXPS_07_COLLECT_FRAME_KEY_3 | LWS_RXPS_07_COLLECT_FRAME_KEY_4
  | LWS_RXPS_WS_FRAME_PAYLOAD

text \<open>The reasons for which the framing code calls the application.\<close>

datatype ws_callback = WS_ESTABLISHED | WS_RECEIVE | WS_RECEIVE_PONG | WS_PEER_INITIATED_CLOSE

definition LWSWSOPC_CONTINUATION :: byte where "LWSWSOPC_CONTINUATION = 0"
definition LWSWSOPC_TEXT_FRAME :: byte where "LWSWSOPC_TEXT_FRAME = 1"
definition LWSWSOPC_BINARY_FRAME :: byte where "LWSWSOPC_BINARY_FRAME = 2"
definition LWSWSOPC_CLOSE :: byte where "LWSWSOPC_CLOSE = 8"
definition LWSWSOPC_PING :: byte where "LWSWSOPC_PING = 9"
definition LWSWSOPC_PONG :: byte where "LWSWSOPC_PONG = 0xa"

lemmas opcode_defs = LWSWSOPC_CONTINUATION_def LWSWSOPC_TEXT_FRAME_def LWSWSOPC_BINARY_FRAME_def
  LWSWSOPC_CLOSE_def LWSWSOPC_PING_def LWSWSOPC_PONG_def

text \<open>\<open>LWS_PRE\<close> on x86-64.\<close>

definition ws_pre :: nat where
  "ws_pre = 16"

record websocket_related =
  rx_ubuf :: "byte list option"
  ping_payload_buf :: "byte list"
  ws_mask :: "byte list"
  rx_packet_length :: u64
  rx_ubuf_head :: nat
  rx_ubuf_alloc :: nat
  ping_payload_len :: byte
  mask_idx :: byte
  opcode :: byte
  rsv :: byte
  rsv_first_msg :: byte
  close_in_ping_buffer_len :: byte
  utf8_state :: byte
  stashed_write_type :: byte
  ietf_spec_revision :: nat
  final_frame :: bool
  frame_is_binary :: bool
  all_zero_nonce :: bool
  this_frame_masked :: bool
  inside_frame :: bool
  clean_buffer :: bool
  payload_is_close :: bool
  ping_pending_flag :: bool
  continuation_possible :: bool
  owed_a_fin :: bool
  check_utf8 :: bool
  defeat_check_utf8 :: bool
  stashed_write_pending :: bool
  send_check_ping :: bool
  first_fragment :: bool
  peer_has_sent_close :: bool
  await_pong :: bool

record lws =
  lwsi_state :: lwsi_state
  lwsi_role_client :: bool
  wsistate_pre_close :: bool
  socket_is_permanently_unusable :: bool
  lws_rx_parse_state :: lws_rx_parse_state
  waiting_to_send_close_frame :: bool
  close_needs_ack :: bool
  close_when_buffered_out_drained :: bool
  could_have_pending :: bool
  leave_pollout_active :: bool
  handling_pollout :: bool
  rxflow_bitmap :: byte
  buflist_in :: buflist
  buflist_out :: buflist
  ws :: websocket_related
  protocol_rx_buffer_size :: nat
  protocol_tx_packet_size :: nat
  pt_serv_buf_size :: nat
  option_validate_utf8 :: bool
  ping_pong_interval :: nat
  timeout_secs :: nat
  wire :: "byte list"
  delivered :: "(ws_callback \<times> byte list) list"
  pollout :: bool
  sul_ping :: "nat option"
  sul_timeout :: "nat option"

text \<open>The zeroed memory of \<open>lws_zalloc\<close>, and a server's connection as the upgrade to WebSocket leaves
  it before \<open>lws_server_init_wsi_for_ws\<close>.\<close>

definition zero_ws :: websocket_related where
  "zero_ws = \<lparr>rx_ubuf = None, ping_payload_buf = replicate (128 - 3 + ws_pre) 0, ws_mask = [0, 0, 0, 0],
     rx_packet_length = 0, rx_ubuf_head = 0, rx_ubuf_alloc = 0, ping_payload_len = 0, mask_idx = 0, opcode = 0,
     rsv = 0, rsv_first_msg = 0, close_in_ping_buffer_len = 0, utf8_state = 0, stashed_write_type = 0,
     ietf_spec_revision = 0, final_frame = False, frame_is_binary = False, all_zero_nonce = False,
     this_frame_masked = False, inside_frame = False, clean_buffer = False, payload_is_close = False,
     ping_pending_flag = False, continuation_possible = False, owed_a_fin = False, check_utf8 = False,
     defeat_check_utf8 = False, stashed_write_pending = False, send_check_ping = False, first_fragment = False,
     peer_has_sent_close = False, await_pong = False\<rparr>"

definition upgraded_lws :: "nat \<Rightarrow> nat \<Rightarrow> nat \<Rightarrow> lws" where
  "upgraded_lws rx_size serv_size ping_interval = \<lparr>lwsi_state = LRS_ESTABLISHED, lwsi_role_client = False,
     wsistate_pre_close = False, socket_is_permanently_unusable = False, lws_rx_parse_state = LWS_RXPS_NEW,
     waiting_to_send_close_frame = False, close_needs_ack = False, close_when_buffered_out_drained = False,
     could_have_pending = False, leave_pollout_active = False, handling_pollout = False, rxflow_bitmap = 0,
     buflist_in = [], buflist_out = [], ws = zero_ws\<lparr>ietf_spec_revision := 13\<rparr>,
     protocol_rx_buffer_size = rx_size, protocol_tx_packet_size = 0, pt_serv_buf_size = serv_size,
     option_validate_utf8 = False, ping_pong_interval = ping_interval, timeout_secs = 20,
     wire = [], delivered = [], pollout = False, sul_ping = None, sul_timeout = None\<rparr>"

section \<open>Helpers of the library\<close>

definition lws_has_buffered_out :: "lws \<Rightarrow> bool" where
  "lws_has_buffered_out wsi \<longleftrightarrow> buflist_out wsi \<noteq> []"

definition lws_partial_buffered :: "lws \<Rightarrow> bool" where
  "lws_partial_buffered wsi \<longleftrightarrow> lws_has_buffered_out wsi"

text \<open>\<open>_lws_change_pollfd (wsi, 0, LWS_POLLOUT)\<close> of a connection in the table: while the connection is
  handling \<open>POLLOUT\<close>, the request is only noted.\<close>

definition request_pollout :: "lws \<Rightarrow> lws" where
  "request_pollout wsi =
     (if handling_pollout wsi then wsi\<lparr>leave_pollout_active := True\<rparr> else wsi\<lparr>pollout := True\<rparr>)"

definition lws_callback_on_writable :: "lws \<Rightarrow> int \<times> lws" where
  "lws_callback_on_writable wsi =
     (if lwsi_state wsi = LRS_SHUTDOWN then (0, wsi)
      else if socket_is_permanently_unusable wsi then (0, wsi)
      else (1, request_pollout wsi))"

definition lws_set_timeout :: "nat \<Rightarrow> lws \<Rightarrow> lws" where
  "lws_set_timeout secs wsi = wsi\<lparr>sul_timeout := if secs = 0 then None else Some secs\<rparr>"

text \<open>\<open>lws_close_reason\<close>: the status and the text of a close frame go to the buffer for control frames;
  the text is cut at the end of the buffer.\<close>

definition lws_close_reason :: "nat \<Rightarrow> byte list \<Rightarrow> lws \<Rightarrow> lws" where
  "lws_close_reason status buf wsi =
     (let w = ws wsi;
          budget = length (ping_payload_buf w) - ws_pre;
          payload = [of_nat (status div 256), of_nat status] @ take (budget - 2) buf
      in wsi\<lparr>ws := w\<lparr>ping_payload_buf := overwrite ws_pre payload (ping_payload_buf w),
                      close_in_ping_buffer_len := of_nat (length payload)\<rparr>\<rparr>)"

text \<open>The pure readers of the state of the frame being received.\<close>

definition lws_remaining_packet_payload :: "lws \<Rightarrow> u64" where
  "lws_remaining_packet_payload wsi = rx_packet_length (ws wsi)"

definition lws_frame_is_binary :: "lws \<Rightarrow> bool" where
  "lws_frame_is_binary wsi = frame_is_binary (ws wsi)"

definition lws_is_final_fragment :: "lws \<Rightarrow> bool" where
  "lws_is_final_fragment wsi \<longleftrightarrow> final_frame (ws wsi) \<and> rx_packet_length (ws wsi) = 0"

definition lws_is_first_fragment :: "lws \<Rightarrow> bool" where
  "lws_is_first_fragment wsi = first_fragment (ws wsi)"

definition lws_get_reserved_bits :: "lws \<Rightarrow> byte" where
  "lws_get_reserved_bits wsi = rsv (ws wsi)"

definition lws_get_close_length :: "lws \<Rightarrow> byte" where
  "lws_get_close_length wsi = close_in_ping_buffer_len (ws wsi)"

definition lws_get_close_payload :: "lws \<Rightarrow> byte list" where
  "lws_get_close_payload wsi = drop ws_pre (ping_payload_buf (ws wsi))"

lemma request_pollout_simps [simp]:
  "ws (request_pollout wsi) = ws wsi" "wire (request_pollout wsi) = wire wsi"
  "buflist_out (request_pollout wsi) = buflist_out wsi" "lwsi_state (request_pollout wsi) = lwsi_state wsi"
  "delivered (request_pollout wsi) = delivered wsi"
  "lws_rx_parse_state (request_pollout wsi) = lws_rx_parse_state wsi"
  "socket_is_permanently_unusable (request_pollout wsi) = socket_is_permanently_unusable wsi"
  "lwsi_role_client (request_pollout wsi) = lwsi_role_client wsi"
  "protocol_tx_packet_size (request_pollout wsi) = protocol_tx_packet_size wsi"
  "protocol_rx_buffer_size (request_pollout wsi) = protocol_rx_buffer_size wsi"
  "pt_serv_buf_size (request_pollout wsi) = pt_serv_buf_size wsi"
  "close_when_buffered_out_drained (request_pollout wsi) = close_when_buffered_out_drained wsi"
  by (simp_all add: request_pollout_def)

lemma on_writable_simps [simp]:
  "ws (snd (lws_callback_on_writable wsi)) = ws wsi" "wire (snd (lws_callback_on_writable wsi)) = wire wsi"
  "buflist_out (snd (lws_callback_on_writable wsi)) = buflist_out wsi"
  "lwsi_state (snd (lws_callback_on_writable wsi)) = lwsi_state wsi"
  "delivered (snd (lws_callback_on_writable wsi)) = delivered wsi"
  "lws_rx_parse_state (snd (lws_callback_on_writable wsi)) = lws_rx_parse_state wsi"
  "socket_is_permanently_unusable (snd (lws_callback_on_writable wsi)) = socket_is_permanently_unusable wsi"
  "lwsi_role_client (snd (lws_callback_on_writable wsi)) = lwsi_role_client wsi"
  "protocol_tx_packet_size (snd (lws_callback_on_writable wsi)) = protocol_tx_packet_size wsi"
  "protocol_rx_buffer_size (snd (lws_callback_on_writable wsi)) = protocol_rx_buffer_size wsi"
  "pt_serv_buf_size (snd (lws_callback_on_writable wsi)) = pt_serv_buf_size wsi"
  "close_when_buffered_out_drained (snd (lws_callback_on_writable wsi)) = close_when_buffered_out_drained wsi"
  by (simp_all add: lws_callback_on_writable_def)

end
