(* ===== verification/Lws_Output.thy ===== *)
theory Lws_Output
  imports Lws_Wsi
begin

text \<open>
  Sending (\<^verbatim>\<open>src/foreign/libwebsockets/lib/core-net/output.c\<close>): \<open>lws_issue_raw\<close> gives
  bytes to the socket and queues what the socket does not take. The answer of the kernel to \<open>send\<close>
  is an argument of every operation that sends, as is the answer of \<open>malloc\<close>.

  The stream of a connection is what the socket took followed by what is queued; the lemmas show
  that sending only ever appends to it.
\<close>

section \<open>The code\<close>

text \<open>What \<open>send\<close> may answer: a number of bytes taken, an error after which one may try again
  (\<open>EAGAIN\<close>, \<open>EWOULDBLOCK\<close>, \<open>EINTR\<close>), another error.\<close>

datatype send_answer = Sent nat | Try_again | Send_failed

record answers =
  send_answer :: send_answer
  malloc_ok :: bool

definition took :: "answers \<Rightarrow> nat" where
  "took env = (case send_answer env of Sent n \<Rightarrow> n | _ \<Rightarrow> 0)"

definition LWS_SSL_CAPABLE_ERROR :: int where "LWS_SSL_CAPABLE_ERROR = - 1"
definition LWS_SSL_CAPABLE_MORE_SERVICE :: int where "LWS_SSL_CAPABLE_MORE_SERVICE = - 4"

definition lws_ssl_capable_write_no_ssl :: "answers \<Rightarrow> byte list \<Rightarrow> lws \<Rightarrow> int \<times> lws" where
  "lws_ssl_capable_write_no_ssl env buf wsi =
     (case send_answer env of
        Sent n \<Rightarrow> (int n, wsi\<lparr>wire := wire wsi @ take n buf\<rparr>)
      | Try_again \<Rightarrow> (LWS_SSL_CAPABLE_MORE_SERVICE, wsi)
      | Send_failed \<Rightarrow> (LWS_SSL_CAPABLE_ERROR, wsi))"

text \<open>The most that is given to the socket at once.\<close>

definition send_limit :: "lws \<Rightarrow> nat" where
  "send_limit wsi =
     (if protocol_tx_packet_size wsi \<noteq> 0 then protocol_tx_packet_size wsi
      else if protocol_rx_buffer_size wsi \<noteq> 0 then protocol_rx_buffer_size wsi
      else pt_serv_buf_size wsi) + ws_pre + 4"

text \<open>After the socket has answered: \<open>m\<close> bytes of \<open>buf\<close> went out. If there is a queue, the bytes came
  from its first segment; otherwise they came from the caller and the rest starts a queue.\<close>

definition after_write :: "answers \<Rightarrow> byte list \<Rightarrow> nat \<Rightarrow> lws \<Rightarrow> (int \<times> lws) res" where
  "after_write env buf m wsi =
     (let real_len = length buf in
      if lws_has_buffered_out wsi then
        bind_res (if m \<noteq> 0 then map_sum id snd (lws_buflist_use_segment m (buflist_out wsi))
                  else Inr (buflist_out wsi)) (\<lambda>bl.
          let wsi = wsi\<lparr>buflist_out := bl\<rparr> in
          if \<not> lws_has_buffered_out wsi then
            (if lwsi_state wsi = LRS_FLUSHING_BEFORE_CLOSE then Inr (- 1, wsi)
             else if close_when_buffered_out_drained wsi
             then Inr (- 1, wsi\<lparr>close_when_buffered_out_drained := False\<rparr>)
             else Inr (int real_len, snd (lws_callback_on_writable wsi)))
          else Inr (int m, snd (lws_callback_on_writable wsi)))
      else if m = real_len then Inr (int m, wsi)
      else
        bind_res (lws_buflist_append_segment (malloc_ok env) (drop m buf) (buflist_out wsi)) (\<lambda>(r, bl).
          if r < 0 then Inr (- 1, wsi)
          else Inr (int real_len, snd (lws_callback_on_writable (wsi\<lparr>buflist_out := bl\<rparr>)))))"

definition lws_issue_raw :: "answers \<Rightarrow> byte list option \<Rightarrow> lws \<Rightarrow> (int \<times> lws) res" where
  "lws_issue_raw env buf wsi =
     (if lwsi_state wsi = LRS_FLUSHING_BEFORE_CLOSE \<and> \<not> lws_has_buffered_out wsi
      then Inr (case buf of None \<Rightarrow> 0 | Some b \<Rightarrow> int (length b), wsi)
      else
        bind_res
          (case buf of
             Some b \<Rightarrow>
               if lws_has_buffered_out wsi then
                 bind_res (lws_buflist_append_segment (malloc_ok env) b (buflist_out wsi)) (\<lambda>(r, bl).
                   Inr (if r \<noteq> 0 then None else Some (None, wsi\<lparr>buflist_out := bl\<rparr>)))
               else Inr (Some (Some b, wsi))
           | None \<Rightarrow> Inr (Some (None, wsi)))
          (\<lambda>appended. case appended of None \<Rightarrow> Inr (- 1, wsi) | Some (buf, wsi) \<Rightarrow>
        bind_res
          (if buflist_out wsi \<noteq> [] then
             bind_res (lws_buflist_next_segment_len (buflist_out wsi)) (\<lambda>(len, buf, bl).
               Inr (buf, wsi\<lparr>buflist_out := bl\<rparr>))
           else Inr (buf, wsi))
          (\<lambda>(buf, wsi).
        case buf of None \<Rightarrow> Inr (0, wsi) | Some b \<Rightarrow>
          if b = [] then Inr (0, wsi)
          else
            let n = min (send_limit wsi) (length b);
                (m, wsi) = lws_ssl_capable_write_no_ssl env (take n b) wsi;
                wsi = wsi\<lparr>could_have_pending := True\<rparr>
            in if m = LWS_SSL_CAPABLE_ERROR then Inr (- 1, wsi\<lparr>socket_is_permanently_unusable := True\<rparr>)
               else after_write env b (nat m) wsi)))"

section \<open>The stream of a connection\<close>

definition stream :: "lws \<Rightarrow> byte list" where
  "stream wsi = wire wsi @ pending (buflist_out wsi)"

definition out_ok :: "lws \<Rightarrow> bool" where
  "out_ok wsi \<longleftrightarrow> wf_buflist (buflist_out wsi)"

text \<open>What is offered to the socket: the first segment of the queue if there is one, what the caller
  brings otherwise.\<close>

definition offered :: "byte list option \<Rightarrow> lws \<Rightarrow> byte list" where
  "offered buf wsi = take (send_limit wsi)
     (if buflist_out wsi \<noteq> [] then seg_rest (hd (buflist_out wsi)) else case buf of None \<Rightarrow> [] | Some b \<Rightarrow> b)"

text \<open>The kernel does not take more than it is offered.\<close>

definition sane_send :: "answers \<Rightarrow> byte list option \<Rightarrow> lws \<Rightarrow> bool" where
  "sane_send env buf wsi \<longleftrightarrow> (case send_answer env of Sent k \<Rightarrow> k \<le> length (offered buf wsi) | _ \<Rightarrow> True)"

text \<open>The parts of a connection that sending leaves alone.\<close>

definition same_conn :: "lws \<Rightarrow> lws \<Rightarrow> bool" where
  "same_conn wsi wsi' \<longleftrightarrow>
     ws wsi' = ws wsi \<and> lwsi_state wsi' = lwsi_state wsi \<and> lwsi_role_client wsi' = lwsi_role_client wsi \<and>
     lws_rx_parse_state wsi' = lws_rx_parse_state wsi \<and> delivered wsi' = delivered wsi \<and>
     wsistate_pre_close wsi' = wsistate_pre_close wsi \<and>
     protocol_rx_buffer_size wsi' = protocol_rx_buffer_size wsi \<and>
     protocol_tx_packet_size wsi' = protocol_tx_packet_size wsi \<and> pt_serv_buf_size wsi' = pt_serv_buf_size wsi \<and>
     ping_pong_interval wsi' = ping_pong_interval wsi \<and> option_validate_utf8 wsi' = option_validate_utf8 wsi \<and>
     (close_when_buffered_out_drained wsi' \<longrightarrow> close_when_buffered_out_drained wsi)"

lemma same_conn_refl [simp]: "same_conn wsi wsi"
  by (simp add: same_conn_def)

lemma same_conn_trans: "same_conn a b \<Longrightarrow> same_conn b c \<Longrightarrow> same_conn a c"
  by (simp add: same_conn_def)

lemma same_conn_updates [simp]:
  "same_conn a (b\<lparr>buflist_out := x\<rparr>) = same_conn a b" "same_conn a (b\<lparr>wire := y\<rparr>) = same_conn a b"
  "same_conn a (b\<lparr>could_have_pending := p\<rparr>) = same_conn a b"
  "same_conn a (b\<lparr>socket_is_permanently_unusable := p\<rparr>) = same_conn a b"
  "same_conn a (snd (lws_callback_on_writable b)) = same_conn a b"
  "same_conn (a\<lparr>buflist_out := x\<rparr>) b = same_conn a b" "same_conn (a\<lparr>wire := y\<rparr>) b = same_conn a b"
  "same_conn (a\<lparr>could_have_pending := p\<rparr>) b = same_conn a b"
  by (simp_all add: same_conn_def lws_callback_on_writable_def request_pollout_def)

lemma same_conn_drained: "same_conn a b \<Longrightarrow> same_conn a (b\<lparr>close_when_buffered_out_drained := False\<rparr>)"
  by (simp add: same_conn_def)

text \<open>Nothing asks for the end of the connection once the queue is drained.\<close>

definition stays_open :: "lws \<Rightarrow> bool" where
  "stays_open wsi \<longleftrightarrow> lwsi_state wsi \<noteq> LRS_FLUSHING_BEFORE_CLOSE \<and> \<not> close_when_buffered_out_drained wsi"

lemma buffered_out_iff: "out_ok wsi \<Longrightarrow> lws_has_buffered_out wsi \<longleftrightarrow> pending (buflist_out wsi) \<noteq> []"
  by (simp add: lws_has_buffered_out_def out_ok_def pending_empty_iff)

lemma after_write_queue:
  assumes "wf_buflist (s # bl)" and "buflist_out wsi = s # bl" and "m \<le> length (seg_rest s)"
  shows "\<exists>r wsi'. after_write env (seg_rest s) m wsi = Inr (r, wsi') \<and> out_ok wsi' \<and> wire wsi' = wire wsi \<and>
     pending (buflist_out wsi') = drop m (pending (buflist_out wsi)) \<and> same_conn wsi wsi' \<and>
     (stays_open wsi \<longrightarrow> 0 \<le> r)"
proof (cases "m = 0")
  case True
  with assms show ?thesis by (auto simp: after_write_def Let_def lws_has_buffered_out_def out_ok_def)
next
  case False
  with use_segment [OF assms(1) _ assms(3)] obtain r bl' where
    u: "lws_buflist_use_segment m (s # bl) = Inr (r, bl')" "wf_buflist bl'" "pending bl' = drop m (pending (s # bl))"
    by blast
  with False assms(2) show ?thesis by (auto simp: after_write_def Let_def lws_has_buffered_out_def out_ok_def stays_open_def same_conn_drained)
qed

lemma after_write_fresh:
  assumes "buflist_out wsi = []" and "m \<le> length b" and "b \<noteq> []"
  shows "\<exists>r wsi'. after_write env b m wsi = Inr (r, wsi') \<and> out_ok wsi' \<and> wire wsi' = wire wsi \<and>
     same_conn wsi wsi' \<and>
     (malloc_ok env \<longrightarrow> r = int (length b) \<and> pending (buflist_out wsi') = drop m b)"
proof (cases "m = length b")
  case True
  with assms show ?thesis by (simp add: after_write_def Let_def lws_has_buffered_out_def out_ok_def)
next
  case False
  with assms have "drop m b \<noteq> []" by simp
  from append_segment [of "[]" "drop m b" "malloc_ok env"] this obtain r bl' where
    a: "lws_buflist_append_segment (malloc_ok env) (drop m b) [] = Inr (r, bl')" "wf_buflist bl'"
    "if r < 0 then bl' = [] else pending bl' = drop m b" "r < 0 \<longleftrightarrow> \<not> malloc_ok env" by auto
  with False assms show ?thesis by (auto simp: after_write_def Let_def lws_has_buffered_out_def out_ok_def)
qed

lemma send_limit_buflist [simp]: "send_limit (wsi\<lparr>buflist_out := bl\<rparr>) = send_limit wsi"
  by (simp add: send_limit_def)

lemma write_split:
  assumes "sane_send env buf wsi" and "offered buf wsi = take n b" and "send_answer env \<noteq> Send_failed"
  obtains m where "lws_ssl_capable_write_no_ssl env (take n b) wsi0 = (m, wsi0\<lparr>wire := wire wsi0 @ take (nat m) b\<rparr>)"
    and "nat m \<le> length b" and "m \<noteq> LWS_SSL_CAPABLE_ERROR" and "nat m = took env"
proof (cases "send_answer env")
  case (Sent k)
  with assms(1,2) have "k \<le> length (take n b)" by (simp add: sane_send_def)
  then have "take k (take n b) = take k b" "k \<le> length b" by auto
  with Sent show thesis by (intro that [of "int k"]) (simp_all add: lws_ssl_capable_write_no_ssl_def LWS_SSL_CAPABLE_ERROR_def took_def)
next
  case Try_again
  then show thesis
    by (intro that [of LWS_SSL_CAPABLE_MORE_SERVICE])
      (simp_all add: lws_ssl_capable_write_no_ssl_def LWS_SSL_CAPABLE_ERROR_def LWS_SSL_CAPABLE_MORE_SERVICE_def took_def)
qed (use assms(3) in simp)

lemma send_limit_pos: "0 < send_limit wsi"
  by (simp add: send_limit_def)

text \<open>Draining the queue: what goes out leaves the queue, so the stream stays as it is.\<close>

lemma issue_raw_queue:
  assumes q: "buflist_out wsi = s # bl" "wf_buflist (s # bl)"
    and env: "sane_send env buf wsi" "send_answer env \<noteq> Send_failed"
  shows "\<exists>r wsi'. lws_issue_raw env None wsi = Inr (r, wsi') \<and> out_ok wsi' \<and> stream wsi' = stream wsi \<and>
     same_conn wsi wsi' \<and> (stays_open wsi \<longrightarrow> 0 \<le> r) \<and> took env \<le> length (seg_rest s) \<and> wire wsi' = wire wsi @ take (took env) (seg_rest s)"
proof -
  have off: "offered buf wsi = take (min (send_limit wsi) (length (seg_rest s))) (seg_rest s)"
    using q(1) by (simp add: offered_def min_def)
  let ?w = "wsi\<lparr>buflist_out := s # bl\<rparr>"
  from write_split [OF env(1) off env(2), of ?w] obtain m where
    m: "lws_ssl_capable_write_no_ssl env (take (min (send_limit wsi) (length (seg_rest s))) (seg_rest s)) ?w =
         (m, ?w\<lparr>wire := wire wsi @ take (nat m) (seg_rest s)\<rparr>)" "nat m \<le> length (seg_rest s)" "m \<noteq> LWS_SSL_CAPABLE_ERROR" "nat m = took env"
    by auto
  let ?w' = "?w\<lparr>wire := wire wsi @ take (nat m) (seg_rest s), could_have_pending := True\<rparr>"
  from after_write_queue [OF q(2), of ?w' "nat m" env] m(2) obtain r wsi' where
    a: "after_write env (seg_rest s) (nat m) ?w' = Inr (r, wsi')" "out_ok wsi'" "wire wsi' = wire ?w'"
       "pending (buflist_out wsi') = drop (nat m) (pending (s # bl))" "same_conn ?w' wsi'" "stays_open wsi \<longrightarrow> 0 \<le> r"
    by (auto simp: stays_open_def)
  have ne: "seg_rest s \<noteq> []" using q(2) by (simp add: seg_rest_def)
  have "lws_issue_raw env None wsi = Inr (r, wsi')"
    using q next_segment [OF q(2)] ne m(1,3) a(1)
    by (simp add: lws_issue_raw_def lws_has_buffered_out_def Let_def)
  moreover have "stream wsi' = stream wsi"
    using a(3,4) q(1) m(2) by (simp add: stream_def)
  ultimately show ?thesis using a(2,3,5,6) m(2,4) by auto
qed

text \<open>Sending with an empty queue: everything is accepted, in the socket or in the queue.\<close>

lemma issue_raw_fresh:
  assumes q: "buflist_out wsi = []" and b: "b \<noteq> []" and st: "lwsi_state wsi \<noteq> LRS_FLUSHING_BEFORE_CLOSE"
    and env: "sane_send env (Some b) wsi" "send_answer env \<noteq> Send_failed" "malloc_ok env"
  shows "\<exists>wsi'. lws_issue_raw env (Some b) wsi = Inr (int (length b), wsi') \<and> out_ok wsi' \<and>
     stream wsi' = stream wsi @ b \<and> same_conn wsi wsi' \<and> wire wsi' = wire wsi @ take (took env) b"
proof -
  have off: "offered (Some b) wsi = take (min (send_limit wsi) (length b)) b"
    using q by (simp add: offered_def min_def)
  from write_split [OF env(1) off env(2), of wsi] obtain m where
    m: "lws_ssl_capable_write_no_ssl env (take (min (send_limit wsi) (length b)) b) wsi =
         (m, wsi\<lparr>wire := wire wsi @ take (nat m) b\<rparr>)" "nat m \<le> length b" "m \<noteq> LWS_SSL_CAPABLE_ERROR" "nat m = took env"
    by auto
  let ?w = "wsi\<lparr>wire := wire wsi @ take (nat m) b, could_have_pending := True\<rparr>"
  from after_write_fresh [of ?w "nat m" b env] m(2) q b env(3) obtain wsi' where
    a: "after_write env b (nat m) ?w = Inr (int (length b), wsi')" "out_ok wsi'" "wire wsi' = wire ?w"
       "pending (buflist_out wsi') = drop (nat m) b" "same_conn ?w wsi'" by auto
  have "lws_issue_raw env (Some b) wsi = Inr (int (length b), wsi')"
    using q b st m(1,3) a(1) by (simp add: lws_issue_raw_def lws_has_buffered_out_def Let_def)
  moreover have "stream wsi' = stream wsi @ b" using a(3,4) q by (simp add: stream_def)
  moreover have "wire wsi' = wire wsi @ take (took env) b" using a(3) m(4) by simp
  ultimately show ?thesis using a(2,5) by auto
qed

text \<open>Sending behind a queue: the bytes join the queue, the head of the queue goes out.\<close>

lemma issue_raw_behind:
  assumes q: "buflist_out wsi = s # bl" "wf_buflist (s # bl)" "length (s # bl) < 1024" and b: "b \<noteq> []"
    and env: "sane_send env (Some b) wsi" "send_answer env \<noteq> Send_failed" "malloc_ok env"
  shows "\<exists>r wsi'. lws_issue_raw env (Some b) wsi = Inr (r, wsi') \<and> out_ok wsi' \<and>
     stream wsi' = stream wsi @ b \<and> same_conn wsi wsi'"
proof -
  let ?bl = "s # bl @ [\<lparr>seg_buf = b, seg_pos = 0\<rparr>]"
  let ?w = "wsi\<lparr>buflist_out := ?bl\<rparr>"
  have "lws_buflist_append_segment (malloc_ok env) b (s # bl) = Inr (0, ?bl)"
    using q(3) b env(3) by (simp add: lws_buflist_append_segment_def assert_that_def)
  then have "lws_issue_raw env (Some b) wsi = lws_issue_raw env None ?w"
    using q(1) by (simp add: lws_issue_raw_def lws_has_buffered_out_def)
  moreover have "wf_buflist ?bl" using q(2) b by simp
  moreover have "offered (Some b) ?w = offered (Some b) wsi" using q(1) by (simp add: offered_def)
  then have "sane_send env (Some b) ?w" using env(1) by (auto simp: sane_send_def split: send_answer.splits)
  moreover have "stream ?w = stream wsi @ b" using q(1) by (simp add: stream_def seg_rest_def)
  ultimately show ?thesis
    using issue_raw_queue [of ?w s "bl @ [\<lparr>seg_buf = b, seg_pos = 0\<rparr>]" env "Some b"] env(2) by auto
qed

end
