(* ===== verification/Lws_Ws_Tx.thy ===== *)
theory Lws_Ws_Tx
  imports Lws_Output
begin

text \<open>
  The sending side of the WebSocket role (\<^verbatim>\<open>src/foreign/libwebsockets/lib/roles/ws/ops-ws.c\<close>,
  \<^verbatim>\<open>lib/core-net/output.c\<close>, \<^verbatim>\<open>lib/core-net/service.c\<close>): a message becomes a frame,
  control frames go before it, and nothing is sent while the remainder of an earlier frame waits.

  The code writes the header into the bytes in front of the payload; here it is the list that
  \<open>frame_header\<close> builds. The four bytes of a masking key come from the system and are an argument.
\<close>

section \<open>Writing a frame\<close>

definition LWS_WRITE_TEXT :: nat where "LWS_WRITE_TEXT = 0"
definition LWS_WRITE_BINARY :: nat where "LWS_WRITE_BINARY = 1"
definition LWS_WRITE_CONTINUATION :: nat where "LWS_WRITE_CONTINUATION = 2"
definition LWS_WRITE_HTTP :: nat where "LWS_WRITE_HTTP = 3"
definition LWS_WRITE_CLOSE :: nat where "LWS_WRITE_CLOSE = 4"
definition LWS_WRITE_PING :: nat where "LWS_WRITE_PING = 5"
definition LWS_WRITE_PONG :: nat where "LWS_WRITE_PONG = 6"
definition LWS_WRITE_HTTP_FINAL :: nat where "LWS_WRITE_HTTP_FINAL = 7"
definition LWS_WRITE_HTTP_HEADERS :: nat where "LWS_WRITE_HTTP_HEADERS = 8"
definition LWS_WRITE_HTTP_HEADERS_CONTINUATION :: nat where "LWS_WRITE_HTTP_HEADERS_CONTINUATION = 9"
definition LWS_WRITE_NO_FIN :: nat where "LWS_WRITE_NO_FIN = 0x40"

lemmas write_type_defs = LWS_WRITE_TEXT_def LWS_WRITE_BINARY_def LWS_WRITE_CONTINUATION_def LWS_WRITE_HTTP_def
  LWS_WRITE_CLOSE_def LWS_WRITE_PING_def LWS_WRITE_PONG_def LWS_WRITE_HTTP_FINAL_def LWS_WRITE_HTTP_HEADERS_def
  LWS_WRITE_HTTP_HEADERS_CONTINUATION_def LWS_WRITE_NO_FIN_def

definition write_opcode :: "nat \<Rightarrow> byte option" where
  "write_opcode wp =
     (let k = wp AND 0xf in
      if k = LWS_WRITE_TEXT then Some LWSWSOPC_TEXT_FRAME
      else if k = LWS_WRITE_BINARY then Some LWSWSOPC_BINARY_FRAME
      else if k = LWS_WRITE_CONTINUATION then Some LWSWSOPC_CONTINUATION
      else if k = LWS_WRITE_CLOSE then Some LWSWSOPC_CLOSE
      else if k = LWS_WRITE_PING then Some LWSWSOPC_PING
      else if k = LWS_WRITE_PONG then Some LWSWSOPC_PONG
      else None)"

text \<open>The header in front of \<open>len\<close> bytes; the four bytes for the key come last when masking.\<close>

definition frame_header :: "byte \<Rightarrow> byte \<Rightarrow> nat \<Rightarrow> byte list" where
  "frame_header n is_masked_bit len =
     (let l = of_nat len :: u64 in
      if len < 126 then [n, of_nat len OR is_masked_bit]
      else if len < 65536 then [n, 126 OR is_masked_bit, ucast (drop_bit 8 l), ucast l]
      else [n, 127 OR is_masked_bit,
            ucast (drop_bit 56 l AND 0x7f), ucast (drop_bit 48 l), ucast (drop_bit 40 l), ucast (drop_bit 32 l),
            ucast (drop_bit 24 l), ucast (drop_bit 16 l), ucast (drop_bit 8 l), ucast l])"

text \<open>The masking loop: \<open>mask_idx\<close> runs along with the payload.\<close>

fun mask_payload :: "byte list \<Rightarrow> byte \<Rightarrow> byte list \<Rightarrow> byte list \<times> byte" where
  "mask_payload key idx [] = ([], idx)"
| "mask_payload key idx (b # bs) =
     (let (rest, idx') = mask_payload key (idx + 1) bs in ((b XOR key ! unat (idx AND 3)) # rest, idx'))"

definition lws_0405_frame_mask_generate :: "byte list option \<Rightarrow> lws \<Rightarrow> (int \<times> lws)" where
  "lws_0405_frame_mask_generate random wsi =
     (case random of
        None \<Rightarrow> (1, wsi)
      | Some key \<Rightarrow> (0, wsi\<lparr>ws := (ws wsi)\<lparr>ws_mask := key, mask_idx := 0\<rparr>\<rparr>))"

definition reset_ping_wait :: "lws \<Rightarrow> lws" where
  "reset_ping_wait wsi =
     (if ping_pong_interval wsi \<noteq> 0 then wsi\<lparr>sul_ping := Some (ping_pong_interval wsi)\<rparr> else wsi)"

definition is_http_write :: "nat \<Rightarrow> bool" where
  "is_http_write wp \<longleftrightarrow> wp AND 0x1f \<in>
     {LWS_WRITE_HTTP, LWS_WRITE_HTTP_FINAL, LWS_WRITE_HTTP_HEADERS_CONTINUATION, LWS_WRITE_HTTP_HEADERS}"

text \<open>The last part of \<open>rops_write_role_protocol_ws\<close>: a data frame that the socket or the queue
  has accepted completely ends, otherwise the next write continues it.\<close>

definition issue_frame ::
    "answers \<Rightarrow> byte list \<Rightarrow> byte list \<Rightarrow> nat \<Rightarrow> nat \<Rightarrow> lws \<Rightarrow> (int \<times> lws) res" where
  "issue_frame env pre buf orig_len wp wsi =
     (if wp AND 0x1f \<in> {LWS_WRITE_TEXT, LWS_WRITE_BINARY, LWS_WRITE_CONTINUATION} then
        bind_res (lws_issue_raw env (Some (pre @ buf)) wsi) (\<lambda>(n, wsi).
          let wsi = wsi\<lparr>ws := (ws wsi)\<lparr>inside_frame := True\<rparr>\<rparr> in
          if n \<le> 0 then Inr (n, wsi)
          else if n = int (length (pre @ buf))
          then Inr (int orig_len, wsi\<lparr>ws := (ws wsi)\<lparr>inside_frame := False\<rparr>\<rparr>)
          else Inr (n - int (length pre), wsi))
      else lws_issue_raw env (Some (pre @ buf)) wsi)"

text \<open>The part between the header and sending: masking in the direction from the client. Inside a
  frame there is no header, no new key and no masking.\<close>

definition mask_and_issue ::
    "answers \<Rightarrow> byte list option \<Rightarrow> byte list \<Rightarrow> byte list \<Rightarrow> nat \<Rightarrow> lws \<Rightarrow> (int \<times> lws) res" where
  "mask_and_issue env random pre buf wp wsi =
     (if lwsi_role_client wsi \<and> \<not> inside_frame (ws wsi) then
        (case lws_0405_frame_mask_generate random wsi of (failed, wsi) \<Rightarrow>
           if failed \<noteq> 0 then Inr (- 1, wsi)
           else if pre \<noteq> [] then
             let (masked, idx) = mask_payload (ws_mask (ws wsi)) (mask_idx (ws wsi)) buf in
             issue_frame env (pre @ ws_mask (ws wsi)) masked (length buf) wp
               (wsi\<lparr>ws := (ws wsi)\<lparr>mask_idx := idx\<rparr>\<rparr>)
           else issue_frame env pre buf (length buf) wp wsi)
      else issue_frame env pre buf (length buf) wp wsi)"

definition rops_write_role_protocol_ws ::
    "answers \<Rightarrow> byte list option \<Rightarrow> byte list option \<Rightarrow> nat \<Rightarrow> lws \<Rightarrow> (int \<times> lws) res" where
  "rops_write_role_protocol_ws env random buf wp wsi =
     (let wsi = reset_ping_wait wsi in
      if is_http_write wp then lws_issue_raw env buf wsi
      else if inside_frame (ws wsi) then
        (case buf of None \<Rightarrow> lws_issue_raw env None wsi | Some b \<Rightarrow> mask_and_issue env random [] b wp wsi)
      else
        let wsi = wsi\<lparr>ws := (ws wsi)\<lparr>clean_buffer := True\<rparr>\<rparr>;
            stash = (wp \<notin> {LWS_WRITE_PING, LWS_WRITE_PONG, LWS_WRITE_CLOSE} \<and>
                     (case buf of None \<Rightarrow> False | Some b \<Rightarrow> b \<noteq> []) \<and> stashed_write_pending (ws wsi));
            wp = (if stash then (wp AND 0xc0) OR unat (stashed_write_type (ws wsi)) else wp);
            wsi = (if stash then wsi\<lparr>ws := (ws wsi)\<lparr>stashed_write_pending := False\<rparr>\<rparr> else wsi)
        in case buf of
             None \<Rightarrow> Inr (- 1, wsi)
           | Some b \<Rightarrow>
               if ietf_spec_revision (ws wsi) = 13 then
                 (case write_opcode wp of
                    None \<Rightarrow> Inr (- 1, wsi)
                  | Some opc \<Rightarrow>
                      let n = (if wp AND LWS_WRITE_NO_FIN = 0 then opc OR 0x80 else opc);
                          is_masked_bit = (if lwsi_role_client wsi then 0x80 else 0)
                      in mask_and_issue env random (frame_header n is_masked_bit (length b)) b wp wsi)
               else mask_and_issue env random [] b wp wsi)"

text \<open>\<open>lws_write\<close> refuses a length that is negative as an \<open>int\<close>.\<close>

definition lws_write :: "answers \<Rightarrow> byte list option \<Rightarrow> byte list \<Rightarrow> nat \<Rightarrow> lws \<Rightarrow> (int \<times> lws) res" where
  "lws_write env random buf wp wsi =
     (if sint (of_nat (length buf) :: u32) < 0 then Inr (- 1, wsi)
      else rops_write_role_protocol_ws env random (Some buf) wp wsi)"

section \<open>The socket is writable\<close>

datatype handle_pollout_ret = LWS_HP_RET_BAIL_OK | LWS_HP_RET_BAIL_DIE | LWS_HP_RET_USER_SERVICE

definition control_payload :: "byte \<Rightarrow> lws \<Rightarrow> byte list" where
  "control_payload len wsi = take (unat len) (drop ws_pre (ping_payload_buf (ws wsi)))"

text \<open>A close that was asked for goes first.\<close>

definition send_close :: "answers \<Rightarrow> byte list option \<Rightarrow> lws \<Rightarrow> (handle_pollout_ret \<times> lws) res" where
  "send_close env random wsi =
     (let wsi = wsi\<lparr>waiting_to_send_close_frame := False\<rparr> in
      bind_res (lws_write env random (control_payload (close_in_ping_buffer_len (ws wsi)) wsi) LWS_WRITE_CLOSE wsi)
        (\<lambda>(n, wsi).
          if n \<ge> 0 then
            (if close_needs_ack wsi
             then Inr (LWS_HP_RET_BAIL_OK, lws_set_timeout 5 (wsi\<lparr>lwsi_state := LRS_AWAITING_CLOSE_ACK\<rparr>))
             else Inr (LWS_HP_RET_BAIL_DIE, wsi\<lparr>close_needs_ack := False, lwsi_state := LRS_RETURNED_CLOSE\<rparr>))
          else Inr (LWS_HP_RET_BAIL_DIE, wsi)))"

text \<open>Then the answer to a ping, or the echo of the peer's close.\<close>

definition send_pong :: "answers \<Rightarrow> byte list option \<Rightarrow> lws \<Rightarrow> (handle_pollout_ret \<times> lws) res" where
  "send_pong env random wsi =
     (if \<not> payload_is_close (ws wsi) \<and> wsistate_pre_close wsi
      then Inr (LWS_HP_RET_BAIL_OK, wsi\<lparr>ws := (ws wsi)\<lparr>ping_pending_flag := False\<rparr>\<rparr>)
      else
        bind_res (lws_write env random (control_payload (ping_payload_len (ws wsi)) wsi)
            (if payload_is_close (ws wsi) then LWS_WRITE_CLOSE else LWS_WRITE_PONG) wsi) (\<lambda>(n, wsi).
          if n < 0 then Inr (LWS_HP_RET_BAIL_DIE, wsi)
          else
            let wsi = wsi\<lparr>ws := (ws wsi)\<lparr>ping_pending_flag := False\<rparr>\<rparr>
            in Inr (if payload_is_close (ws wsi) then LWS_HP_RET_BAIL_DIE else LWS_HP_RET_BAIL_OK, wsi)))"

definition send_ping :: "answers \<Rightarrow> byte list option \<Rightarrow> lws \<Rightarrow> (handle_pollout_ret \<times> lws) res" where
  "send_ping env random wsi =
     bind_res (lws_write env random [] LWS_WRITE_PING
         (wsi\<lparr>ws := (ws wsi)\<lparr>send_check_ping := False, await_pong := True\<rparr>\<rparr>)) (\<lambda>(n, wsi).
       if n < 0 then Inr (LWS_HP_RET_BAIL_DIE, wsi)
       else Inr (LWS_HP_RET_BAIL_OK, wsi\<lparr>sul_ping := Some (timeout_secs wsi)\<rparr>))"

definition rops_handle_POLLOUT_ws :: "answers \<Rightarrow> byte list option \<Rightarrow> lws \<Rightarrow> (handle_pollout_ret \<times> lws) res" where
  "rops_handle_POLLOUT_ws env random wsi =
     (if lwsi_state wsi = LRS_WAITING_TO_SEND_CLOSE then send_close env random wsi
      else if ping_pending_flag (ws wsi) \<or> lwsi_state wsi = LRS_RETURNED_CLOSE \<and> payload_is_close (ws wsi)
      then send_pong env random wsi
      else if \<not> socket_is_permanently_unusable wsi \<and> send_check_ping (ws wsi) \<and> ping_pong_interval wsi \<noteq> 0
      then send_ping env random wsi
      else Inr (LWS_HP_RET_USER_SERVICE, wsi))"

text \<open>\<open>lws_handle_POLLOUT_event\<close>; the application's callback for a writable connection is the
  argument \<open>writeable\<close>.\<close>

definition bail :: "int \<Rightarrow> lws \<Rightarrow> (int \<times> lws) res" where
  "bail ret wsi = Inr (ret, wsi\<lparr>handling_pollout := False, leave_pollout_active := False\<rparr>)"

definition lws_handle_POLLOUT_event ::
    "answers \<Rightarrow> byte list option \<Rightarrow> (lws \<Rightarrow> (int \<times> lws) res) \<Rightarrow> lws \<Rightarrow> (int \<times> lws) res" where
  "lws_handle_POLLOUT_event env random writeable wsi =
     (let wsi = wsi\<lparr>leave_pollout_active := False, handling_pollout := True, could_have_pending := False\<rparr> in
      if lws_has_buffered_out wsi then
        bind_res (lws_issue_raw env None wsi) (\<lambda>(r, wsi). if r < 0 then bail (- 1) wsi else bail 0 wsi)
      else if lwsi_state wsi = LRS_FLUSHING_BEFORE_CLOSE
      then bail (- 1) (wsi\<lparr>socket_is_permanently_unusable := True\<rparr>)
      else
        bind_res (rops_handle_POLLOUT_ws env random wsi) (\<lambda>(ret, wsi).
          case ret of
            LWS_HP_RET_BAIL_OK \<Rightarrow> bail 0 wsi
          | LWS_HP_RET_BAIL_DIE \<Rightarrow> bail (- 1) wsi
          | LWS_HP_RET_USER_SERVICE \<Rightarrow>
              let wsi = (if leave_pollout_active wsi then wsi else wsi\<lparr>pollout := False\<rparr>);
                  wsi = wsi\<lparr>handling_pollout := False, leave_pollout_active := False\<rparr>
              in bind_res (writeable wsi) (\<lambda>(n, wsi).
                   let wsi = wsi\<lparr>handling_pollout := False\<rparr>
                   in Inr (n, if leave_pollout_active wsi then wsi\<lparr>pollout := True\<rparr> else wsi))))"

section \<open>Closing and keeping alive\<close>

definition rops_close_via_role_protocol_ws :: "nat \<Rightarrow> lws \<Rightarrow> int \<times> lws" where
  "rops_close_via_role_protocol_ws reason wsi =
     (if close_in_ping_buffer_len (ws wsi) = 0 \<and> reason \<in> {0, 9999} then (0, wsi)
      else
        let wsi = (if close_in_ping_buffer_len (ws wsi) = 0
                   then wsi\<lparr>ws := (ws wsi)\<lparr>close_in_ping_buffer_len := 2,
                          ping_payload_buf := overwrite ws_pre [of_nat (reason div 256), of_nat reason]
                            (ping_payload_buf (ws wsi))\<rparr>\<rparr>
                   else wsi)
        in (1, snd (lws_callback_on_writable (wsi\<lparr>waiting_to_send_close_frame := True, close_needs_ack := True,
              lwsi_state := LRS_WAITING_TO_SEND_CLOSE, sul_timeout := Some 5\<rparr>))))"

text \<open>The ping timer: time for a ping, or the pong did not come. In the second case the library
  closes the connection, which is the result \<open>True\<close>.\<close>

definition lws_sul_wsping_cb :: "lws \<Rightarrow> bool \<times> lws" where
  "lws_sul_wsping_cb wsi =
     (if \<not> send_check_ping (ws wsi)
      then (False, snd (lws_callback_on_writable (lws_set_timeout (timeout_secs wsi)
              (wsi\<lparr>ws := (ws wsi)\<lparr>send_check_ping := True\<rparr>\<rparr>))))
      else (await_pong (ws wsi), wsi))"

section \<open>Frames on the stream\<close>

definition ws_frame :: "byte list option \<Rightarrow> bool \<Rightarrow> byte \<Rightarrow> byte list \<Rightarrow> byte list" where
  "ws_frame key fin opc b =
     (let n = (if fin then opc OR 0x80 else opc) in
      case key of
        None \<Rightarrow> frame_header n 0 (length b) @ b
      | Some k \<Rightarrow> frame_header n 0x80 (length b) @ k @ fst (mask_payload k 0 b))"

definition tx_ready :: "lws \<Rightarrow> bool" where
  "tx_ready wsi \<longleftrightarrow> buflist_out wsi = [] \<and> \<not> inside_frame (ws wsi) \<and> ietf_spec_revision (ws wsi) = 13 \<and>
     lwsi_state wsi \<noteq> LRS_FLUSHING_BEFORE_CLOSE \<and> \<not> stashed_write_pending (ws wsi)"

text \<open>The kernel takes at most what it is offered and does not fail; memory is there.\<close>

definition accepts :: "answers \<Rightarrow> nat \<Rightarrow> bool" where
  "accepts env n \<longleftrightarrow> malloc_ok env \<and>
     (case send_answer env of Sent k \<Rightarrow> k \<le> n | Try_again \<Rightarrow> True | Send_failed \<Rightarrow> False)"

lemma frame_header_nonempty [simp]: "frame_header n m l \<noteq> []"
  by (simp add: frame_header_def Let_def)

lemma issue_raw_accepts:
  assumes "buflist_out wsi = []" and "b \<noteq> []" and "lwsi_state wsi \<noteq> LRS_FLUSHING_BEFORE_CLOSE"
    and "accepts env (min (send_limit wsi) (length b))"
  shows "\<exists>wsi'. lws_issue_raw env (Some b) wsi = Inr (int (length b), wsi') \<and> out_ok wsi' \<and>
     stream wsi' = stream wsi @ b \<and> same_conn wsi wsi' \<and> wire wsi' = wire wsi @ take (took env) b"
proof (rule issue_raw_fresh [OF assms(1-3)])
  have "length (offered (Some b) wsi) = min (send_limit wsi) (length b)" using assms(1) by (simp add: offered_def)
  then show "sane_send env (Some b) wsi" "send_answer env \<noteq> Send_failed" "malloc_ok env"
    using assms(4) by (auto simp: sane_send_def accepts_def split: send_answer.splits)
qed

text \<open>A data frame that goes out with an empty queue is accepted as a whole: the frame ends.\<close>

lemma issue_frame_data:
  assumes "buflist_out wsi = []" and "pre \<noteq> []" and "lwsi_state wsi \<noteq> LRS_FLUSHING_BEFORE_CLOSE"
    and "accepts env (min (send_limit wsi) (length (pre @ buf)))"
    and "wp AND 0x1f \<in> {LWS_WRITE_TEXT, LWS_WRITE_BINARY, LWS_WRITE_CONTINUATION}"
  shows "\<exists>wsi'. issue_frame env pre buf n wp wsi = Inr (int n, wsi') \<and> out_ok wsi' \<and>
     stream wsi' = stream wsi @ pre @ buf \<and> ws wsi' = (ws wsi)\<lparr>inside_frame := False\<rparr> \<and>
     same_conn (wsi\<lparr>ws := (ws wsi)\<lparr>inside_frame := False\<rparr>\<rparr>) wsi' \<and> wire wsi' = wire wsi @ take (took env) (pre @ buf)"
proof -
  from issue_raw_accepts [OF assms(1) _ assms(3,4)] assms(2) obtain wsi1 where
    1: "lws_issue_raw env (Some (pre @ buf)) wsi = Inr (int (length (pre @ buf)), wsi1)" "out_ok wsi1"
       "stream wsi1 = stream wsi @ pre @ buf" "same_conn wsi wsi1" "wire wsi1 = wire wsi @ take (took env) (pre @ buf)" by auto
  let ?w = "wsi1\<lparr>ws := (ws wsi1)\<lparr>inside_frame := False\<rparr>\<rparr>"
  have "\<not> int (length pre) + int (length buf) \<le> 0" using assms(2) by (cases pre) simp_all
  then have "issue_frame env pre buf n wp wsi = Inr (int n, ?w)"
    using assms(5) 1(1) by (simp add: issue_frame_def Let_def)
  moreover have "out_ok ?w" "stream ?w = stream wsi @ pre @ buf" "wire ?w = wire wsi @ take (took env) (pre @ buf)"
    using 1(2,3,5) by (simp_all add: out_ok_def stream_def)
  moreover have "ws ?w = (ws wsi)\<lparr>inside_frame := False\<rparr>"
    "same_conn (wsi\<lparr>ws := (ws wsi)\<lparr>inside_frame := False\<rparr>\<rparr>) ?w"
    using 1(4) by (simp_all add: same_conn_def)
  ultimately show ?thesis by blast
qed

text \<open>The kinds of data frames an application may ask for.\<close>

definition data_write :: "nat \<Rightarrow> bool" where
  "data_write wp \<longleftrightarrow> wp \<in> {0, 1, 2, 0x40, 0x41, 0x42}"

lemma data_writeD:
  assumes "data_write wp"
  shows "\<not> is_http_write wp" and "wp AND 0x1f \<in> {LWS_WRITE_TEXT, LWS_WRITE_BINARY, LWS_WRITE_CONTINUATION}"
    and "\<exists>opc. write_opcode wp = Some opc \<and> opc AND 0xf = opc \<and> opc \<in> {0, 1, 2}"
  using assms by (auto simp: data_write_def is_http_write_def write_opcode_def write_type_defs opcode_defs)

lemma data_write_opcode:
  assumes "data_write wp"
  shows "write_opcode wp = Some (if wp AND 0xf = 0 then 1 else if wp AND 0xf = 1 then 2 else 0)"
    and "wp AND LWS_WRITE_NO_FIN = 0 \<longleftrightarrow> wp < 0x40"
  using assms by (auto simp: data_write_def write_opcode_def write_type_defs opcode_defs)

text \<open>\<open>lws_write\<close> of a data message puts exactly its frame on the stream, masked if and only if the
  connection is the client's.\<close>

definition frame_key :: "byte list option \<Rightarrow> lws \<Rightarrow> byte list option" where
  "frame_key random wsi = (if lwsi_role_client wsi then random else None)"

definition write_frame :: "byte list option \<Rightarrow> nat \<Rightarrow> lws \<Rightarrow> byte list \<Rightarrow> byte list" where
  "write_frame random wp wsi b =
     ws_frame (frame_key random wsi) (wp < 0x40) (if wp AND 0xf = 0 then 1 else if wp AND 0xf = 1 then 2 else 0) b"

definition tx_same :: "lws \<Rightarrow> lws \<Rightarrow> bool" where
  "tx_same wsi wsi' \<longleftrightarrow> lwsi_state wsi' = lwsi_state wsi \<and> lwsi_role_client wsi' = lwsi_role_client wsi \<and>
     delivered wsi' = delivered wsi \<and> send_limit wsi' = send_limit wsi \<and>
     ping_pong_interval wsi' = ping_pong_interval wsi \<and> wsistate_pre_close wsi' = wsistate_pre_close wsi \<and>
     ping_pending_flag (ws wsi') = ping_pending_flag (ws wsi) \<and> payload_is_close (ws wsi') = payload_is_close (ws wsi) \<and>
     send_check_ping (ws wsi') = send_check_ping (ws wsi) \<and>
     ietf_spec_revision (ws wsi') = ietf_spec_revision (ws wsi) \<and>
     stashed_write_pending (ws wsi') = stashed_write_pending (ws wsi) \<and>
     (close_when_buffered_out_drained wsi' \<longrightarrow> close_when_buffered_out_drained wsi)"

lemma tx_same_trans: "tx_same a b \<Longrightarrow> tx_same b c \<Longrightarrow> tx_same a c"
  by (simp add: tx_same_def)

lemma length_small: "n < 2 ^ 31 \<Longrightarrow> \<not> sint (of_nat n :: u32) < 0"
  using bit_last_iff [of "of_nat n :: u32"] by (simp add: bit_of_nat_iff bit_iff_odd [of n])

lemma reset_ping_wait_simps [simp]:
  "ws (reset_ping_wait wsi) = ws wsi" "buflist_out (reset_ping_wait wsi) = buflist_out wsi"
  "lwsi_state (reset_ping_wait wsi) = lwsi_state wsi" "lwsi_role_client (reset_ping_wait wsi) = lwsi_role_client wsi"
  "wire (reset_ping_wait wsi) = wire wsi" "delivered (reset_ping_wait wsi) = delivered wsi"
  "send_limit (reset_ping_wait wsi) = send_limit wsi"
  "ping_pong_interval (reset_ping_wait wsi) = ping_pong_interval wsi"
  "wsistate_pre_close (reset_ping_wait wsi) = wsistate_pre_close wsi"
  "close_when_buffered_out_drained (reset_ping_wait wsi) = close_when_buffered_out_drained wsi"
  by (simp_all add: reset_ping_wait_def send_limit_def)

lemma send_limit_ws [simp]: "send_limit (wsi\<lparr>ws := w\<rparr>) = send_limit wsi"
  by (simp add: send_limit_def)

lemma mask_and_issue_data:
  assumes ready: "buflist_out wsi = []" "\<not> inside_frame (ws wsi)" "lwsi_state wsi \<noteq> LRS_FLUSHING_BEFORE_CLOSE"
    and pre: "pre \<noteq> []" and wp: "data_write wp" and key: "lwsi_role_client wsi \<Longrightarrow> random = Some k"
    and body: "body = (if lwsi_role_client wsi then k @ fst (mask_payload k 0 b) else b)"
    and env: "accepts env (min (send_limit wsi) (length (pre @ body)))"
  shows "\<exists>wsi'. mask_and_issue env random pre b wp wsi = Inr (int (length b), wsi') \<and> out_ok wsi' \<and>
     stream wsi' = stream wsi @ pre @ body \<and> \<not> inside_frame (ws wsi') \<and> tx_same wsi wsi' \<and>
     wire wsi' = wire wsi @ take (took env) (pre @ body)"
proof (cases "lwsi_role_client wsi")
  case False
  with issue_frame_data [OF ready(1) pre ready(3) _ data_writeD(2) [OF wp], of env b "length b"] env body
  obtain wsi' where i: "issue_frame env pre b (length b) wp wsi = Inr (int (length b), wsi')" "out_ok wsi'"
      "stream wsi' = stream wsi @ pre @ b" "ws wsi' = (ws wsi)\<lparr>inside_frame := False\<rparr>"
      "same_conn (wsi\<lparr>ws := (ws wsi)\<lparr>inside_frame := False\<rparr>\<rparr>) wsi'" "wire wsi' = wire wsi @ take (took env) (pre @ b)" by auto
  from i(4,5) have "tx_same wsi wsi'" by (simp add: tx_same_def same_conn_def send_limit_def)
  with False i body show ?thesis by (simp add: mask_and_issue_def)
next
  case True
  obtain masked idx where m: "mask_payload k 0 b = (masked, idx)" by force
  let ?w = "wsi\<lparr>ws := (ws wsi)\<lparr>ws_mask := k, mask_idx := idx\<rparr>\<rparr>"
  have lim: "send_limit ?w = send_limit wsi" by (simp add: send_limit_def)
  have "accepts env (min (send_limit ?w) (length ((pre @ k) @ masked)))"
    using env True body m unfolding lim by simp
  from issue_frame_data [of ?w "pre @ k", OF _ _ _ this data_writeD(2) [OF wp], of "length b"] ready pre
  obtain wsi' where i: "issue_frame env (pre @ k) masked (length b) wp ?w = Inr (int (length b), wsi')" "out_ok wsi'"
      "stream wsi' = stream ?w @ (pre @ k) @ masked" "ws wsi' = (ws ?w)\<lparr>inside_frame := False\<rparr>"
      "same_conn (?w\<lparr>ws := (ws ?w)\<lparr>inside_frame := False\<rparr>\<rparr>) wsi'" "wire wsi' = wire ?w @ take (took env) ((pre @ k) @ masked)" by auto
  have "mask_and_issue env random pre b wp wsi = Inr (int (length b), wsi')"
    using True ready(2) pre key [OF True] m i(1)
    by (simp add: mask_and_issue_def lws_0405_frame_mask_generate_def)
  moreover have "stream wsi' = stream wsi @ pre @ body" "wire wsi' = wire wsi @ take (took env) (pre @ body)"
    using i(3,6) True body m by (simp_all add: stream_def)
  moreover have "tx_same wsi wsi'" using i(4,5) by (simp add: tx_same_def same_conn_def send_limit_def)
  ultimately show ?thesis using i(2,4) by simp
qed

lemma lws_write_data:
  assumes ready: "tx_ready wsi" and wp: "data_write wp" and b: "length b < 2 ^ 31"
    and key: "lwsi_role_client wsi \<Longrightarrow> random \<noteq> None"
    and env: "accepts env (min (send_limit wsi) (length (write_frame random wp wsi b)))"
  shows "\<exists>wsi'. lws_write env random b wp wsi = Inr (int (length b), wsi') \<and> out_ok wsi' \<and>
     stream wsi' = stream wsi @ write_frame random wp wsi b \<and> \<not> inside_frame (ws wsi') \<and> tx_same wsi wsi' \<and>
     wire wsi' = wire wsi @ take (took env) (write_frame random wp wsi b)"
proof -
  define w where "w = (reset_ping_wait wsi)\<lparr>ws := (ws wsi)\<lparr>clean_buffer := True\<rparr>\<rparr>"
  define opc where "opc = (if wp AND 0xf = 0 then 1 else if wp AND 0xf = 1 then 2 else 0 :: byte)"
  define n where "n = (if wp < 0x40 then opc OR 0x80 else opc)"
  define bit where "bit = (if lwsi_role_client wsi then 0x80 else 0 :: byte)"
  define k where "k = the random"
  define body where "body = (if lwsi_role_client wsi then k @ fst (mask_payload k 0 b) else b)"
  have w: "buflist_out w = []" "\<not> inside_frame (ws w)" "lwsi_state w \<noteq> LRS_FLUSHING_BEFORE_CLOSE"
    "lwsi_role_client w = lwsi_role_client wsi" "send_limit w = send_limit wsi" "stream w = stream wsi" "tx_same wsi w" "wire w = wire wsi"
    using ready by (simp_all add: w_def tx_ready_def stream_def tx_same_def)
  have rnd: "random = Some k" if "lwsi_role_client w" using that key w(4) by (auto simp: k_def)
  have body': "body = (if lwsi_role_client w then k @ fst (mask_payload k 0 b) else b)" by (simp add: body_def w(4))
  have fr: "write_frame random wp wsi b = frame_header n bit (length b) @ body"
    using key by (auto simp: write_frame_def ws_frame_def frame_key_def Let_def n_def bit_def body_def k_def opc_def)
  have "lws_write env random b wp wsi = mask_and_issue env random (frame_header n bit (length b)) b wp w"
    using ready length_small [OF b] data_writeD(1) [OF wp] data_write_opcode [OF wp]
    by (simp add: lws_write_def rops_write_role_protocol_ws_def tx_ready_def Let_def w_def
        opc_def [symmetric] n_def bit_def)
  moreover have "accepts env (min (send_limit w) (length (frame_header n bit (length b) @ body)))"
    using env unfolding w(5) fr .
  from mask_and_issue_data [OF w(1-3) frame_header_nonempty wp rnd body' this]
  obtain wsi' where "mask_and_issue env random (frame_header n bit (length b)) b wp w = Inr (int (length b), wsi')"
    "out_ok wsi'" "stream wsi' = stream w @ frame_header n bit (length b) @ body" "\<not> inside_frame (ws wsi')" "tx_same w wsi'"
    "wire wsi' = wire w @ take (took env) (frame_header n bit (length b) @ body)" by blast
  ultimately show ?thesis using w(6,8) fr tx_same_trans [OF w(7)] by auto
qed

section \<open>A frame can be read back\<close>

text \<open>The reference for the wire format, after RFC 6455: the final bit, the opcode, the length in 7, 16
  or 64 bits, the key if the frame is masked, the payload.\<close>

definition be_value :: "byte list \<Rightarrow> nat" where
  "be_value bs = foldl (\<lambda>a b. a * 256 + unat b) 0 bs"

definition split_at :: "nat \<Rightarrow> 'a list \<Rightarrow> ('a list \<times> 'a list) option" where
  "split_at n xs = (if n \<le> length xs then Some (take n xs, drop n xs) else None)"

definition unmask :: "byte list \<Rightarrow> byte list \<Rightarrow> byte list" where
  "unmask key bs = map (\<lambda>i. bs ! i XOR key ! (i mod 4)) [0..<length bs]"

definition read_length :: "nat \<Rightarrow> byte list \<Rightarrow> (nat \<times> byte list) option" where
  "read_length l bs =
     (if l < 126 then Some (l, bs)
      else map_option (\<lambda>(h, r). (be_value h, r)) (split_at (if l = 126 then 2 else 8) bs))"

fun decode_frame :: "byte list \<Rightarrow> (bool \<times> byte \<times> byte list \<times> byte list) option" where
  "decode_frame (b0 # b1 # bs) =
     Option.bind (read_length (unat (b1 AND 0x7f)) bs) (\<lambda>(len, bs).
     Option.bind (if bit b1 7 then split_at 4 bs else Some ([0, 0, 0, 0], bs)) (\<lambda>(key, bs).
     Option.bind (split_at len bs) (\<lambda>(payload, rest).
       Some (bit b0 7, b0 AND 0xf, unmask key payload, rest))))"
| "decode_frame _ = None"

lemma split_at_append [simp]: "length a = n \<Longrightarrow> split_at n (a @ b) = Some (a, b)"
  by (auto simp: split_at_def)

lemma mask_payload_nth:
  "length (fst (mask_payload key idx bs)) = length bs"
  "i < length bs \<Longrightarrow> fst (mask_payload key idx bs) ! i = bs ! i XOR key ! unat ((idx + of_nat i) AND 3)"
proof (induction bs arbitrary: idx i)
  case (Cons b bs)
  { case 1 show ?case using Cons(1) [of "idx + 1"] by (simp add: Let_def split_def) }
  { case 2
    then show ?case
      using Cons(2) [of "i - 1" "idx + 1"]
      by (cases i) (simp_all add: Let_def split_def add.assoc) }
qed simp_all

lemma mask_index: "unat ((of_nat i :: byte) AND 3) = i mod 4"
proof -
  have "(of_nat i :: byte) AND 3 = take_bit 2 (of_nat i)" by (simp add: take_bit_eq_mask mask_eq_exp_minus_1)
  then show ?thesis by (simp add: take_bit_eq_mod unat_mod unat_of_nat mod_mod_cancel)
qed

lemma unmask_mask: "unmask key (fst (mask_payload key 0 bs)) = bs"
  by (rule nth_equalityI)
    (simp_all add: unmask_def mask_payload_nth mask_index xor.assoc)

lemma unmask_zero: "unmask [0, 0, 0, 0] bs = bs"
proof (rule nth_equalityI)
  fix i assume "i < length (unmask [0, 0, 0, 0] bs)"
  moreover have "i mod 4 = 0 \<or> i mod 4 = 1 \<or> i mod 4 = 2 \<or> i mod 4 = 3" by linarith
  ultimately show "unmask [0, 0, 0, 0] bs ! i = bs ! i" by (auto simp: unmask_def)
qed (simp add: unmask_def)

lemma length_byte:
  assumes "n < 128" and "m \<in> {0, 0x80 :: byte}"
  shows "unat ((of_nat n OR m) AND 0x7f) = n" and "bit (of_nat n OR m) 7 \<longleftrightarrow> m = 0x80"
proof -
  have "(of_nat n OR m) AND 0x7f = take_bit 7 (of_nat n) OR take_bit 7 m"
    by (simp add: take_bit_eq_mask mask_eq_exp_minus_1 bit.conj_disj_distrib2)
  moreover have "take_bit 7 m = 0" using assms(2) by auto
  ultimately have "(of_nat n OR m) AND 0x7f = take_bit 7 (of_nat n)" by simp
  then show "unat ((of_nat n OR m) AND 0x7f) = n"
    using assms(1) by (simp add: take_bit_eq_mod unat_mod unat_of_nat)
  have "\<not> bit (of_nat n :: byte) 7" using assms(1) by (simp add: bit_of_nat_iff bit_iff_odd [of n])
  then show "bit (of_nat n OR m) 7 \<longleftrightarrow> m = 0x80" using assms(2) by (auto simp: bit_or_iff)
qed

lemma unat_drop: "n < 2 ^ 64 \<Longrightarrow> unat (drop_bit k (of_nat n :: u64)) = n div 2 ^ k"
  by (simp add: unsigned_drop_bit_eq unat_of_nat take_bit_eq_mod drop_bit_eq_div [of k n])

lemma unat_ucast_drop:
  "n < 2 ^ 64 \<Longrightarrow> unat (ucast (drop_bit k (of_nat n :: u64)) :: byte) = n div 2 ^ k mod 256"
  by (simp add: unsigned_ucast_eq unat_drop take_bit_eq_mod)

lemma unat_ucast_low: "n < 2 ^ 64 \<Longrightarrow> unat (ucast (of_nat n :: u64) :: byte) = n mod 256"
  by (simp add: unsigned_ucast_eq take_bit_eq_mod unat_of_nat)

lemma div_mod_step: "n div (256 * m) * 256 + n div m mod 256 = (n :: nat) div m"
  by (metis div_mult2_eq div_mult_mod_eq mult.commute)

lemma be_value_2: "n < 65536 \<Longrightarrow> be_value [ucast (drop_bit 8 (of_nat n :: u64)), ucast (of_nat n :: u64)] = n"
  by (simp add: be_value_def unat_ucast_drop unat_ucast_low)

lemma be_value_8:
  assumes "n < 2 ^ 63"
  defines "l \<equiv> of_nat n :: u64"
  shows "be_value [ucast (drop_bit 56 l AND 0x7f), ucast (drop_bit 48 l), ucast (drop_bit 40 l), ucast (drop_bit 32 l),
            ucast (drop_bit 24 l), ucast (drop_bit 16 l), ucast (drop_bit 8 l), ucast l] = n"
proof -
  have n: "n < 2 ^ 64" using assms(1) by simp
  have "drop_bit 56 l AND 0x7f = take_bit 7 (drop_bit 56 l)" by (simp add: take_bit_eq_mask mask_eq_exp_minus_1)
  also have "\<dots> = drop_bit 56 l"
  proof (rule unsigned_word_eqI [where 'a = nat])
    have "unat (take_bit 7 (drop_bit 56 l)) = n div 2 ^ 56 mod 2 ^ 7"
      unfolding l_def by (simp only: unsigned_take_bit_eq unat_drop [OF n]) (simp only: take_bit_eq_mod)
    moreover have "n div 2 ^ 56 mod 2 ^ 7 = n div 2 ^ 56" using assms(1) by simp
    ultimately show "unat (take_bit 7 (drop_bit 56 l)) = unat (drop_bit 56 l)" unfolding l_def by (simp only: unat_drop [OF n])
  qed
  finally have top: "unat (ucast (drop_bit 56 l AND 0x7f) :: byte) = n div 2 ^ 56"
    using assms(1) unat_ucast_drop [OF n, of 56] by (simp add: l_def)
  have s: "n div 2 ^ 56 * 256 + n div 2 ^ 48 mod 256 = n div 2 ^ 48" "n div 2 ^ 48 * 256 + n div 2 ^ 40 mod 256 = n div 2 ^ 40"
    "n div 2 ^ 40 * 256 + n div 2 ^ 32 mod 256 = n div 2 ^ 32" "n div 2 ^ 32 * 256 + n div 2 ^ 24 mod 256 = n div 2 ^ 24"
    "n div 2 ^ 24 * 256 + n div 2 ^ 16 mod 256 = n div 2 ^ 16" "n div 2 ^ 16 * 256 + n div 2 ^ 8 mod 256 = n div 2 ^ 8"
    "n div 2 ^ 8 * 256 + n mod 256 = n"
    using div_mod_step [of n "2 ^ 48"] div_mod_step [of n "2 ^ 40"] div_mod_step [of n "2 ^ 32"] div_mod_step [of n "2 ^ 24"]
      div_mod_step [of n "2 ^ 16"] div_mod_step [of n "2 ^ 8"] by simp_all
  show ?thesis
    unfolding be_value_def foldl.simps top unfolding l_def unat_ucast_drop [OF n] unat_ucast_low [OF n]
    by (simp only: mult_0 add_0 s)
qed

lemma read_header:
  assumes "n < 2 ^ 63" and "m \<in> {0, 0x80}"
  shows "\<exists>b1 ext. frame_header b0 m n = b0 # b1 # ext \<and> (bit b1 7 \<longleftrightarrow> m = 0x80) \<and>
     read_length (unat (b1 AND 0x7f)) (ext @ r) = Some (n, r)"
proof -
  consider "n < 126" | "126 \<le> n" "n < 65536" | "65536 \<le> n" by linarith
  then show ?thesis
  proof cases
    case 1
    then show ?thesis using length_byte [of n m] assms(2) by (simp add: frame_header_def read_length_def)
  next
    case 2
    let ?ext = "[ucast (drop_bit 8 (of_nat n :: u64)), ucast (of_nat n :: u64)]"
    have "frame_header b0 m n = b0 # (126 OR m) # ?ext" using 2 by (simp add: frame_header_def Let_def)
    moreover have "read_length 126 (?ext @ r) = Some (n, r)"
      using be_value_2 [OF 2(2)] split_at_append [of ?ext 2 r] by (simp add: read_length_def)
    ultimately show ?thesis
      using length_byte [of 126 m] assms(2) by (intro exI [of _ "126 OR m"] exI [of _ ?ext]) simp
  next
    case 3
    let ?l = "of_nat n :: u64"
    let ?ext = "[ucast (drop_bit 56 ?l AND 0x7f), ucast (drop_bit 48 ?l), ucast (drop_bit 40 ?l), ucast (drop_bit 32 ?l),
            ucast (drop_bit 24 ?l), ucast (drop_bit 16 ?l), ucast (drop_bit 8 ?l), ucast ?l]"
    have "frame_header b0 m n = b0 # (127 OR m) # ?ext" using 3 by (simp add: frame_header_def Let_def)
    moreover have "read_length 127 (?ext @ r) = Some (n, r)"
      using be_value_8 [OF assms(1)] split_at_append [of ?ext 8 r] by (simp add: read_length_def)
    ultimately show ?thesis
      using length_byte [of 127 m] assms(2) by (intro exI [of _ "127 OR m"] exI [of _ ?ext]) simp
  qed
qed

lemma decode_ws_frame:
  assumes "length b < 2 ^ 63" and "opc AND 0xf = opc" and "case key of None \<Rightarrow> True | Some k \<Rightarrow> length k = 4"
  shows "decode_frame (ws_frame key fin opc b @ rest) = Some (fin, opc, b, rest)"
proof -
  define n where "n = (if fin then opc OR 0x80 else opc)"
  have "bit opc 7 \<longleftrightarrow> bit (opc AND 0xf) 7" unfolding assms(2) ..
  then have "\<not> bit opc 7" unfolding bit_and_iff by simp
  then have n: "bit n 7 = fin" "n AND 0xf = opc"
    using assms(2) by (simp_all add: n_def bit_or_iff bit.conj_disj_distrib2)
  show ?thesis
  proof (cases key)
    case None
    have "(0 :: byte) \<in> {0, 0x80}" by simp
    from read_header [OF assms(1) this, of n "b @ rest"] obtain b1 ext where h:
      "frame_header n 0 (length b) = n # b1 # ext" "bit b1 7 \<longleftrightarrow> (0 :: byte) = 0x80"
      "read_length (unat (b1 AND 0x7f)) (ext @ b @ rest) = Some (length b, b @ rest)" by blast
    have "ws_frame key fin opc b @ rest = n # b1 # ext @ b @ rest" using None h(1) by (simp add: ws_frame_def n_def [symmetric])
    then show ?thesis using h(2,3) n by (simp add: unmask_zero)
  next
    case (Some k)
    let ?m = "fst (mask_payload k 0 b)"
    have k: "length k = 4" "length ?m = length b" using assms(3) Some by (simp_all add: mask_payload_nth(1))
    have "(0x80 :: byte) \<in> {0, 0x80}" by simp
    from read_header [OF assms(1) this, of n "k @ ?m @ rest"] obtain b1 ext where h:
      "frame_header n 0x80 (length b) = n # b1 # ext" "bit b1 7 \<longleftrightarrow> (0x80 :: byte) = 0x80"
      "read_length (unat (b1 AND 0x7f)) (ext @ k @ ?m @ rest) = Some (length b, k @ ?m @ rest)" by blast
    have "ws_frame key fin opc b @ rest = n # b1 # ext @ k @ ?m @ rest" using Some h(1) by (simp add: ws_frame_def n_def [symmetric])
    then show ?thesis using h(2,3) n k by (simp add: unmask_mask)
  qed
qed

end
