(* ===== verification/Lws_Stream.thy ===== *)
theory Lws_Stream
  imports Lws_Ws_Tx "HOL-Library.Code_Target_Nat"
begin

text \<open>
  What a peer sees of a connection on which the application writes one message whenever the
  connection is writable, as the monitor protocol of the server does: whole frames, one after the
  other, whatever part of a frame the socket takes at a time.
\<close>

section \<open>One event\<close>

text \<open>The application's callback: it writes a text message and returns 0 whatever \<open>lws_write\<close> says.\<close>

definition write_callback :: "answers \<Rightarrow> byte list option \<Rightarrow> byte list \<Rightarrow> lws \<Rightarrow> (int \<times> lws) res" where
  "write_callback env random msg wsi =
     bind_res (lws_write env random msg LWS_WRITE_TEXT wsi) (\<lambda>(n, wsi). Inr (0, wsi))"

text \<open>A connection in its normal state: established, between frames, nothing to answer.\<close>

definition serving :: "lws \<Rightarrow> bool" where
  "serving wsi \<longleftrightarrow> out_ok wsi \<and> lwsi_state wsi = LRS_ESTABLISHED \<and> \<not> close_when_buffered_out_drained wsi \<and>
     \<not> inside_frame (ws wsi) \<and> ietf_spec_revision (ws wsi) = 13 \<and> \<not> stashed_write_pending (ws wsi) \<and>
     \<not> ping_pending_flag (ws wsi) \<and> (send_check_ping (ws wsi) \<longrightarrow> ping_pong_interval wsi = 0) \<and>
     \<not> lwsi_role_client wsi"

abbreviation text_frame :: "byte list \<Rightarrow> byte list" where
  "text_frame msg \<equiv> ws_frame None True LWSWSOPC_TEXT_FRAME msg"

text \<open>An answer of the system that fits what is offered at this event.\<close>

definition pollout_ok :: "answers \<Rightarrow> byte list \<Rightarrow> lws \<Rightarrow> bool" where
  "pollout_ok env msg wsi \<longleftrightarrow> accepts env (length (offered (Some (text_frame msg)) wsi))"

lemma serving_stays_open: "serving wsi \<Longrightarrow> stays_open wsi"
  by (simp add: serving_def stays_open_def)

lemma serving_same:
  assumes "serving wsi" and "tx_same wsi wsi'" and "out_ok wsi'" and "\<not> inside_frame (ws wsi')"
  shows "serving wsi'"
  using assms by (auto simp: serving_def tx_same_def)

lemma text_frame_nonempty [simp]: "text_frame msg \<noteq> []"
  by (simp add: ws_frame_def Let_def)

lemma send_limit_flags [simp]:
  "send_limit (wsi\<lparr>handling_pollout := p\<rparr>) = send_limit wsi" "send_limit (wsi\<lparr>pollout := p\<rparr>) = send_limit wsi"
  "send_limit (wsi\<lparr>leave_pollout_active := p\<rparr>) = send_limit wsi" "send_limit (wsi\<lparr>could_have_pending := p\<rparr>) = send_limit wsi"
  by (simp_all add: send_limit_def)

text \<open>With an empty queue the event reaches the application and its frame joins the stream.\<close>

lemma pollout_writes:
  assumes s: "serving wsi" and q: "buflist_out wsi = []" and msg: "length msg < 2 ^ 31" and env: "pollout_ok env msg wsi"
  shows "\<exists>wsi'. lws_handle_POLLOUT_event env random (write_callback env random msg) wsi = Inr (0, wsi') \<and>
     serving wsi' \<and> stream wsi' = stream wsi @ text_frame msg \<and> send_limit wsi' = send_limit wsi \<and>
     wire wsi' = wire wsi @ take (took env) (text_frame msg)"
proof -
  let ?w = "wsi\<lparr>could_have_pending := False, pollout := False, handling_pollout := False, leave_pollout_active := False\<rparr>"
  have same: "tx_same wsi ?w" "stream ?w = stream wsi" "send_limit ?w = send_limit wsi"
    by (simp_all add: tx_same_def stream_def)
  have wf: "write_frame random LWS_WRITE_TEXT ?w msg = text_frame msg"
    using s by (simp add: write_frame_def frame_key_def serving_def LWS_WRITE_TEXT_def LWSWSOPC_TEXT_FRAME_def)
  have acc: "accepts env (min (send_limit ?w) (length (write_frame random LWS_WRITE_TEXT ?w msg)))"
    using env q unfolding wf same(3) by (simp add: pollout_ok_def offered_def min.commute)
  have "tx_ready ?w" using s q by (simp add: tx_ready_def serving_def)
  from lws_write_data [OF this _ msg _ acc] s obtain wsi1 where
    1: "lws_write env random msg LWS_WRITE_TEXT ?w = Inr (int (length msg), wsi1)" "out_ok wsi1"
       "stream wsi1 = stream ?w @ text_frame msg" "\<not> inside_frame (ws wsi1)" "tx_same ?w wsi1"
       "wire wsi1 = wire ?w @ take (took env) (text_frame msg)"
    unfolding wf by (auto simp: data_write_def LWS_WRITE_TEXT_def serving_def)
  let ?w2 = "wsi1\<lparr>handling_pollout := False\<rparr>"
  let ?w' = "if leave_pollout_active ?w2 then ?w2\<lparr>pollout := True\<rparr> else ?w2"
  have "lws_handle_POLLOUT_event env random (write_callback env random msg) wsi = Inr (0, ?w')"
    using s q 1(1)
    by (auto simp: lws_handle_POLLOUT_event_def lws_has_buffered_out_def rops_handle_POLLOUT_ws_def serving_def
        write_callback_def Let_def)
  moreover have "tx_same wsi ?w'" using tx_same_trans [OF same(1) 1(5)] by (simp add: tx_same_def)
  moreover have "out_ok ?w'" "\<not> inside_frame (ws ?w')" "stream ?w' = stream wsi @ text_frame msg"
    "wire ?w' = wire wsi @ take (took env) (text_frame msg)"
    using 1(2-4,6) same(2) by (simp_all add: out_ok_def stream_def)
  ultimately show ?thesis using serving_same [OF s] by (auto simp: tx_same_def)
qed

text \<open>With something in the queue the event sends from the queue and the application is not asked.\<close>

lemma pollout_drains:
  assumes s: "serving wsi" and q: "buflist_out wsi \<noteq> []" and env: "pollout_ok env msg wsi"
  shows "\<exists>wsi'. lws_handle_POLLOUT_event env random cb wsi = Inr (0, wsi') \<and>
     serving wsi' \<and> stream wsi' = stream wsi \<and> send_limit wsi' = send_limit wsi \<and>
     wire wsi' = wire wsi @ take (took env) (pending (buflist_out wsi)) \<and> took env \<le> length (pending (buflist_out wsi))"
proof -
  obtain sg bl where bl: "buflist_out wsi = sg # bl" using q by (cases "buflist_out wsi") auto
  let ?w = "wsi\<lparr>leave_pollout_active := False, handling_pollout := True, could_have_pending := False\<rparr>"
  have wf: "wf_buflist (sg # bl)" using s bl by (simp add: serving_def out_ok_def)
  have off: "offered (Some (text_frame msg)) ?w = offered (Some (text_frame msg)) wsi"
    by (simp add: offered_def send_limit_def)
  have sane: "sane_send env (Some (text_frame msg)) ?w" "send_answer env \<noteq> Send_failed"
    using env by (auto simp: pollout_ok_def sane_send_def accepts_def off split: send_answer.splits)
  have "stays_open ?w" using serving_stays_open [OF s] by (simp add: stays_open_def)
  with issue_raw_queue [of ?w sg bl env, OF _ wf sane] bl obtain r wsi1 where
    i: "lws_issue_raw env None ?w = Inr (r, wsi1)" "out_ok wsi1" "stream wsi1 = stream ?w" "same_conn ?w wsi1" "0 \<le> r"
       "wire wsi1 = wire wsi @ take (took env) (seg_rest sg)" "took env \<le> length (seg_rest sg)" by auto
  let ?w' = "wsi1\<lparr>handling_pollout := False, leave_pollout_active := False\<rparr>"
  have "lws_handle_POLLOUT_event env random cb wsi = Inr (0, ?w')"
    using bl i(1,5) by (simp add: lws_handle_POLLOUT_event_def lws_has_buffered_out_def Let_def bail_def)
  moreover have "serving ?w'" using s i(2,4) by (auto simp: serving_def out_ok_def same_conn_def)
  moreover have "stream ?w' = stream wsi" "send_limit ?w' = send_limit wsi"
    using i(3,4) by (simp_all add: stream_def same_conn_def send_limit_def)
  moreover have "take (took env) (seg_rest sg) = take (took env) (pending (buflist_out wsi))"
    "took env \<le> length (pending (buflist_out wsi))" using i(7) by (simp_all add: bl)
  ultimately show ?thesis using i(6) by (intro exI [of _ ?w']) simp
qed

section \<open>Sequences of events\<close>

text \<open>The connection becomes writable again and again; each time the application has its current
  message.\<close>

definition pollout_event :: "answers \<times> byte list \<Rightarrow> lws \<Rightarrow> lws res" where
  "pollout_event = (\<lambda>(env, msg) wsi.
     map_sum id snd (lws_handle_POLLOUT_event env None (write_callback env None msg) wsi))"

definition pollout_events :: "(answers \<times> byte list) list \<Rightarrow> lws \<Rightarrow> lws res" where
  "pollout_events = for_each pollout_event"

fun events_ok :: "(answers \<times> byte list) list \<Rightarrow> lws \<Rightarrow> bool" where
  "events_ok [] wsi = True"
| "events_ok (ev # evs) wsi \<longleftrightarrow> length (snd ev) < 2 ^ 31 \<and> pollout_ok (fst ev) (snd ev) wsi \<and>
     (case pollout_event ev wsi of Inl _ \<Rightarrow> False | Inr wsi' \<Rightarrow> events_ok evs wsi')"

lemma serving_pending: "serving wsi \<Longrightarrow> pending (buflist_out wsi) = [] \<longleftrightarrow> buflist_out wsi = []"
  by (simp add: serving_def out_ok_def pending_empty_iff)

lemma pollout_event_cases:
  assumes "serving wsi" and "length (snd ev) < 2 ^ 31" and "pollout_ok (fst ev) (snd ev) wsi"
  shows "\<exists>wsi'. pollout_event ev wsi = Inr wsi' \<and> serving wsi' \<and> send_limit wsi' = send_limit wsi \<and>
     stream wsi' = stream wsi @ (if buflist_out wsi = [] then text_frame (snd ev) else []) \<and>
     length (wire wsi') = length (wire wsi) + took (fst ev)"
proof (cases "buflist_out wsi = []")
  case True
  have "took (fst ev) \<le> length (text_frame (snd ev))"
    using assms(3) True by (auto simp: pollout_ok_def accepts_def offered_def took_def split: send_answer.splits)
  with pollout_writes [OF assms(1) True assms(2,3), of None] True show ?thesis
    by (auto simp: pollout_event_def split_def)
next
  case False
  from pollout_drains [OF assms(1) False assms(3), of None "write_callback (fst ev) None (snd ev)"] False show ?thesis
    by (auto simp: pollout_event_def split_def)
qed

text \<open>Which messages are written: a message goes out whenever the queue is empty. The queue is then what the
  socket has not taken of its frame; otherwise it gets shorter by what the socket takes.\<close>

fun written :: "(answers \<times> byte list) list \<Rightarrow> nat \<Rightarrow> byte list list" where
  "written [] queued = []"
| "written ((env, msg) # evs) queued =
     (if queued = 0 then msg # written evs (length (text_frame msg) - took env) else written evs (queued - took env))"

lemma pollout_events_stream:
  assumes "serving wsi" and "events_ok evs wsi"
  shows "\<exists>wsi'. pollout_events evs wsi = Inr wsi' \<and> serving wsi' \<and>
     stream wsi' = stream wsi @ concat (map text_frame (written evs (length (pending (buflist_out wsi))))) \<and>
     length (wire wsi') = length (wire wsi) + sum_list (map (took \<circ> fst) evs)"
  using assms
proof (induction evs arbitrary: wsi)
  case Nil
  then show ?case by (auto simp: pollout_events_def)
next
  case (Cons ev evs)
  from Cons.prems have ev: "length (snd ev) < 2 ^ 31" "pollout_ok (fst ev) (snd ev) wsi" by simp_all
  from pollout_event_cases [OF Cons.prems(1) ev] obtain wsi1 where
    1: "pollout_event ev wsi = Inr wsi1" "serving wsi1"
       "stream wsi1 = stream wsi @ (if buflist_out wsi = [] then text_frame (snd ev) else [])"
       "length (wire wsi1) = length (wire wsi) + took (fst ev)" by blast
  from Cons.prems(2) 1(1) have "events_ok evs wsi1" by simp
  from Cons.IH [OF 1(2) this] obtain wsi' where
    2: "pollout_events evs wsi1 = Inr wsi'" "serving wsi'"
       "stream wsi' = stream wsi1 @ concat (map text_frame (written evs (length (pending (buflist_out wsi1)))))"
       "length (wire wsi') = length (wire wsi1) + sum_list (map (took \<circ> fst) evs)" by blast
  let ?q = "length (pending (buflist_out wsi))"
  have q: "?q = 0 \<longleftrightarrow> buflist_out wsi = []" using serving_pending [OF Cons.prems(1)] by simp
  have len: "length (stream w) = length (wire w) + length (pending (buflist_out w))" for w by (simp add: stream_def)
  have "length (pending (buflist_out wsi1)) = (if ?q = 0 then length (text_frame (snd ev)) else ?q) - took (fst ev)"
    using arg_cong [OF 1(3), of length] 1(4) q unfolding length_append len by (auto split: if_splits)
  then have "written (ev # evs) ?q = (if ?q = 0 then [snd ev] else []) @ written evs (length (pending (buflist_out wsi1)))"
    by (cases ev) simp
  with 1(3) 2(3) q have "stream wsi' = stream wsi @ concat (map text_frame (written (ev # evs) ?q))" by simp
  moreover have "pollout_events (ev # evs) wsi = Inr wsi'" using 1(1) 2(1) by (simp add: pollout_events_def)
  ultimately show ?case using 1(4) 2(2,4) by (simp add: comp_def)
qed

text \<open>The reference reader of a stream: it takes whole frames off the front.\<close>

fun decode_frames :: "nat \<Rightarrow> byte list \<Rightarrow> (bool \<times> byte \<times> byte list) list" where
  "decode_frames 0 bs = []"
| "decode_frames (Suc n) bs =
     (case decode_frame bs of None \<Rightarrow> [] | Some (fin, opc, payload, rest) \<Rightarrow> (fin, opc, payload) # decode_frames n rest)"

lemma decode_text_frames:
  assumes "\<forall>m \<in> set ms. length m < 2 ^ 63"
  shows "decode_frames (length ms) (concat (map text_frame ms) @ rest) = map (\<lambda>m. (True, LWSWSOPC_TEXT_FRAME, m)) ms"
  using assms
proof (induction ms)
  case (Cons m ms)
  then have "decode_frame (text_frame m @ (concat (map text_frame ms) @ rest)) =
      Some (True, LWSWSOPC_TEXT_FRAME, m, concat (map text_frame ms) @ rest)"
    by (intro decode_ws_frame) (simp_all add: LWSWSOPC_TEXT_FRAME_def)
  with Cons show ?case by simp
qed simp

text \<open>A socket that takes at least a byte each time empties the queue.\<close>

lemma pollout_events_drain:
  assumes "serving wsi" and "events_ok evs wsi" and "\<forall>(env, msg) \<in> set evs. \<exists>n. send_answer env = Sent (Suc n)"
    and "length (pending (buflist_out wsi)) \<le> length evs"
  shows "\<exists>evs1 evs2 wsi'. evs = evs1 @ evs2 \<and> pollout_events evs1 wsi = Inr wsi' \<and> serving wsi' \<and>
     buflist_out wsi' = [] \<and> wire wsi' = stream wsi"
  using assms
proof (induction evs arbitrary: wsi)
  case Nil
  then show ?case using serving_pending [of wsi]
    by (intro exI [of _ "[]"] exI [of _ wsi]) (auto simp: pollout_events_def stream_def)
next
  case (Cons ev evs)
  show ?case
  proof (cases "buflist_out wsi = []")
    case True
    then show ?thesis using Cons.prems(1)
      by (intro exI [of _ "[]"] exI [of _ "ev # evs"] exI [of _ wsi]) (simp add: pollout_events_def stream_def)
  next
    case False
    from Cons.prems(3) obtain n where n: "send_answer (fst ev) = Sent (Suc n)" by (cases ev) auto
    from pollout_drains [OF Cons.prems(1) False, of "fst ev" "snd ev" None "write_callback (fst ev) None (snd ev)"]
      Cons.prems(2) n obtain wsi1 where
      1: "lws_handle_POLLOUT_event (fst ev) None (write_callback (fst ev) None (snd ev)) wsi = Inr (0, wsi1)"
         "serving wsi1" "stream wsi1 = stream wsi" "wire wsi1 = wire wsi @ take (Suc n) (pending (buflist_out wsi))" by (auto simp: took_def)
    have ev: "pollout_event ev wsi = Inr wsi1" using 1(1) by (simp add: pollout_event_def split_def)
    have "pending (buflist_out wsi1) = drop (Suc n) (pending (buflist_out wsi))"
      using 1(3,4) append_take_drop_id [of "Suc n" "pending (buflist_out wsi)"] unfolding stream_def
      by (metis append.assoc same_append_eq)
    then have "length (pending (buflist_out wsi1)) \<le> length evs"
      using Cons.prems(4) by simp
    moreover have "events_ok evs wsi1" using Cons.prems(2) ev by simp
    ultimately obtain evs1 evs2 wsi' where
      "evs = evs1 @ evs2" "pollout_events evs1 wsi1 = Inr wsi'" "serving wsi'" "buflist_out wsi' = []" "wire wsi' = stream wsi1"
      using Cons.IH [of wsi1] 1(2) Cons.prems(3) by auto
    then show ?thesis
      using 1(3) ev by (intro exI [of _ "ev # evs1"] exI [of _ evs2] exI [of _ wsi']) (simp add: pollout_events_def)
  qed
qed

lemma events_ok_lengths: "events_ok evs wsi \<Longrightarrow> ev \<in> set evs \<Longrightarrow> length (snd ev) < 2 ^ 31"
proof (induction evs arbitrary: wsi)
  case (Cons e evs)
  from Cons.prems(1) obtain wsi' where "events_ok evs wsi'" by (cases "pollout_event e wsi") auto
  with Cons show ?case by auto
qed simp

lemma written_sub: "set (written evs q) \<subseteq> snd ` set evs"
  by (induction evs q rule: written.induct) auto

section \<open>Properties\<close>

text \<open>C8. A peer of a connection on which the application writes its message at every writable event sees
  a sequence of complete text frames. The messages in them are known from the events: each message the application
  has when nothing is queued, and no other. Whatever part of a frame the socket takes at a time, and if it takes nothing,
  no byte of a frame is lost, repeated, reordered or interleaved; the peer has got exactly as many bytes as the socket took. This holds
  as long as the messages are below 2 GiB, there is memory for the queue and the socket neither fails nor takes more than it is offered.\<close>

theorem peer_sees_whole_frames:
  assumes "serving wsi" and "stream wsi = []" and "events_ok evs wsi"
  shows "\<exists>wsi'. pollout_events evs wsi = Inr wsi' \<and>
     wire wsi' = take (sum_list (map (took \<circ> fst) evs)) (concat (map text_frame (written evs 0))) \<and>
     stream wsi' = concat (map text_frame (written evs 0)) \<and>
     decode_frames (length (written evs 0)) (stream wsi') = map (\<lambda>m. (True, LWSWSOPC_TEXT_FRAME, m)) (written evs 0)"
proof -
  have none: "pending (buflist_out wsi) = []" "wire wsi = []" using assms(2) by (simp_all add: stream_def)
  from pollout_events_stream [OF assms(1,3)] obtain wsi' where
    e: "pollout_events evs wsi = Inr wsi'" "stream wsi' = concat (map text_frame (written evs 0))"
       "length (wire wsi') = sum_list (map (took \<circ> fst) evs)"
    using assms(2) none by auto
  have "wire wsi' = take (length (wire wsi')) (stream wsi')" by (simp add: stream_def)
  with e(2,3) have "wire wsi' = take (sum_list (map (took \<circ> fst) evs)) (concat (map text_frame (written evs 0)))" by simp
  moreover have "\<forall>m \<in> set (written evs 0). length m < 2 ^ 31"
    using written_sub [of evs 0] events_ok_lengths [OF assms(3)] by auto
  then have "\<forall>m \<in> set (written evs 0). length m < 2 ^ 63" by auto
  ultimately show ?thesis using decode_text_frames [of "written evs 0" "[]"] e by simp
qed

theorem peer_sees_whole_frames_witness:
  "\<exists>wsi'. pollout_events [(\<lparr>send_answer = Try_again, malloc_ok = True\<rparr>, [104, 105]),
         (\<lparr>send_answer = Sent 4, malloc_ok = True\<rparr>, [111]), (\<lparr>send_answer = Sent 1, malloc_ok = True\<rparr>, [112])]
       (upgraded_lws 0 4096 0) = Inr wsi' \<and> wire wsi' = [0x81, 2, 104, 105, 0x81] \<and>
     stream wsi' = [0x81, 2, 104, 105, 0x81, 1, 112]"
proof -
  let ?evs = "[(\<lparr>send_answer = Try_again, malloc_ok = True\<rparr>, [104, 105]),
         (\<lparr>send_answer = Sent 4, malloc_ok = True\<rparr>, [111]), (\<lparr>send_answer = Sent 1, malloc_ok = True\<rparr>, [112])]"
  let ?w = "upgraded_lws 0 4096 0"
  have "serving ?w" by code_simp
  moreover have "stream ?w = []" by code_simp
  moreover have "events_ok ?evs ?w" by code_simp
  moreover have "concat (map text_frame (written ?evs 0)) = [0x81, 2, 104, 105, 0x81, 1, 112]" by code_simp
  moreover have "take (sum_list (map (took \<circ> fst) ?evs)) [0x81, 2, 104, 105, 0x81, 1, 112 :: byte] = [0x81, 2, 104, 105, 0x81]" by code_simp
  ultimately show ?thesis using peer_sees_whole_frames [of ?w ?evs] by metis
qed

text \<open>C9. Everything written reaches the socket: if the socket takes at least a byte at every writable event,
  then after at most as many events as there are bytes in the queue all of them have gone out, in
  order, and the connection is ready for the next message.\<close>

theorem queue_drains:
  assumes "serving wsi" and "events_ok evs wsi" and "\<forall>(env, msg) \<in> set evs. \<exists>n. send_answer env = Sent (Suc n)"
    and "length (pending (buflist_out wsi)) \<le> length evs"
  shows "\<exists>evs1 evs2 wsi'. evs = evs1 @ evs2 \<and> pollout_events evs1 wsi = Inr wsi' \<and> serving wsi' \<and>
     buflist_out wsi' = [] \<and> wire wsi' = wire wsi @ pending (buflist_out wsi)"
  using pollout_events_drain [OF assms] by (simp add: stream_def)

theorem queue_drains_witness:
  "\<exists>evs1 evs2 wsi'. replicate 3 (\<lparr>send_answer = Sent 1, malloc_ok = True\<rparr>, [111]) = evs1 @ evs2 \<and>
     pollout_events evs1 ((upgraded_lws 0 4096 0)\<lparr>buflist_out := [\<lparr>seg_buf = [1, 2, 3, 4], seg_pos = 2\<rparr>]\<rparr>) = Inr wsi' \<and>
     buflist_out wsi' = [] \<and> wire wsi' = [3, 4]"
proof -
  let ?evs = "replicate 3 (\<lparr>send_answer = Sent 1, malloc_ok = True\<rparr>, [111])"
  let ?w = "(upgraded_lws 0 4096 0)\<lparr>buflist_out := [\<lparr>seg_buf = [1, 2, 3, 4], seg_pos = 2\<rparr>]\<rparr>"
  have "serving ?w" "events_ok ?evs ?w" by code_simp+
  moreover have "\<forall>(env, msg) \<in> set ?evs. \<exists>n. send_answer env = Sent (Suc n)" by simp
  moreover have "wire ?w = []" "pending (buflist_out ?w) = [3, 4]" by code_simp+
  ultimately show ?thesis using queue_drains [of ?w ?evs] by fastforce
qed

end
