(* ===== verification/Lws_Ws_Rx.thy ===== *)
theory Lws_Ws_Rx
  imports Lws_Wsi Lws_Utf8
begin

text \<open>
  The receiving side of the WebSocket role on the server:
  the state machine \<open>lws_ws_rx_sm\<close> (\<^verbatim>\<open>src/foreign/libwebsockets/lib/roles/ws/ops-ws.c\<close>), the bulk
  path \<open>lws_ws_frame_rest_is_payload\<close> and the loop \<open>lws_parse_ws\<close> around both
  (\<^verbatim>\<open>server-ws.c\<close>).

  The state machine takes a byte at a time; each state is a definition that returns how the C
  function goes on: it leaves the \<open>switch\<close>, returns a value, or jumps to the label \<open>spill\<close>. The
  receive buffer is a list and every store into it is checked. The answer of the application's
  callback is the argument \<open>cb\<close>; what it is given is recorded in \<open>delivered\<close>. As the application
  of the server never changes the receive flow control, the callback returns without such a change.
\<close>

section \<open>The state machine\<close>

datatype flow = Break | Return int | Spill

definition LWS_CLOSE_STATUS_PROTOCOL_ERR :: nat where "LWS_CLOSE_STATUS_PROTOCOL_ERR = 1002"
definition LWS_CLOSE_STATUS_INVALID_PAYLOAD :: nat where "LWS_CLOSE_STATUS_INVALID_PAYLOAD = 1007"

definition ALREADY_PROCESSED_IGNORE_CHAR :: nat where "ALREADY_PROCESSED_IGNORE_CHAR = 1"
definition ALREADY_PROCESSED_NO_CB :: nat where "ALREADY_PROCESSED_NO_CB = 2"

type_synonym user_callback = "ws_callback \<Rightarrow> byte list \<Rightarrow> int"

definition upd_ws :: "(websocket_related \<Rightarrow> websocket_related) \<Rightarrow> lws \<Rightarrow> lws" where
  "upd_ws f wsi = wsi\<lparr>ws := f (ws wsi)\<rparr>"

definition protocol_error :: "string \<Rightarrow> lws \<Rightarrow> flow \<times> lws" where
  "protocol_error text wsi =
     (Return (- 1), lws_close_reason LWS_CLOSE_STATUS_PROTOCOL_ERR (bytes_of_string text) wsi)"

text \<open>The switch over the opcode in the first byte of a frame.\<close>

definition hdr_opcode :: "byte \<Rightarrow> lws \<Rightarrow> flow \<times> lws" where
  "hdr_opcode c wsi =
     (let opc = opcode (ws wsi) in
      if opc = LWSWSOPC_TEXT_FRAME \<or> opc = LWSWSOPC_BINARY_FRAME then
        let wsi = (if opc = LWSWSOPC_TEXT_FRAME
                   then upd_ws (check_utf8_update (\<lambda>_. option_validate_utf8 wsi)) wsi
                   else upd_ws (check_utf8_update (\<lambda>_. False)) wsi)
        in if continuation_possible (ws wsi) then protocol_error ''bad cont'' wsi
           else (Break, upd_ws (\<lambda>w. w\<lparr>rsv_first_msg := c AND 0x70,
                   frame_is_binary := (opc = LWSWSOPC_BINARY_FRAME), first_fragment := True,
                   continuation_possible := \<not> final_frame w\<rparr>) wsi)
      else if opc = LWSWSOPC_CONTINUATION then
        (if \<not> continuation_possible (ws wsi) then protocol_error ''bad cont'' wsi else (Break, wsi))
      else if opc = LWSWSOPC_CLOSE then
        (Break, upd_ws (\<lambda>w. w\<lparr>check_utf8 := False, utf8_state := 0\<rparr>) wsi)
      else if opc \<in> {3, 4, 5, 6, 7, 0xb, 0xc, 0xd, 0xe, 0xf} then protocol_error ''bad opc'' wsi
      else (Break, wsi))"

definition rx_frame_hdr_1 :: "byte \<Rightarrow> lws \<Rightarrow> flow \<times> lws" where
  "rx_frame_hdr_1 c wsi =
     (let wsi = upd_ws (\<lambda>w. w\<lparr>opcode := c AND 0xf, rsv := c AND 0x70, final_frame := (drop_bit 7 c AND 1 \<noteq> 0),
                  defeat_check_utf8 := False\<rparr>) wsi
      in if opcode (ws wsi) AND 8 \<noteq> 0 \<and> \<not> final_frame (ws wsi) then protocol_error ''frag ctl'' wsi
         else case hdr_opcode c wsi of
           (Break, wsi) \<Rightarrow>
             if owed_a_fin (ws wsi) \<and> (opcode (ws wsi) = LWSWSOPC_TEXT_FRAME \<or> opcode (ws wsi) = LWSWSOPC_BINARY_FRAME)
             then protocol_error ''bad fin'' wsi
             else
               let wsi = (if opcode (ws wsi) AND 8 = 0 \<and> final_frame (ws wsi)
                          then upd_ws (\<lambda>w. w\<lparr>continuation_possible := False, owed_a_fin := False\<rparr>) wsi else wsi);
                   wsi = (if \<not> final_frame (ws wsi) then upd_ws (owed_a_fin_update (\<lambda>_. True)) wsi else wsi);
                   wsi = wsi\<lparr>lws_rx_parse_state := LWS_RXPS_04_FRAME_HDR_LEN\<rparr>
               in if rsv (ws wsi) \<noteq> 0 \<and> rsv (ws wsi) AND NOT 0x40 \<noteq> 0 then protocol_error ''rsv bits'' wsi
                  else (Break, wsi)
         | other \<Rightarrow> other)"

text \<open>The first byte of a frame of a connection that speaks version 13; for another version the byte
  is dropped.\<close>

definition rx_new :: "byte \<Rightarrow> lws \<Rightarrow> flow \<times> lws" where
  "rx_new c wsi =
     (if ietf_spec_revision (ws wsi) = 13
      then rx_frame_hdr_1 c (upd_ws (all_zero_nonce_update (\<lambda>_. True)) wsi)
      else (Break, wsi))"

definition after_length :: "lws \<Rightarrow> flow \<times> lws" where
  "after_length wsi =
     (Break, wsi\<lparr>lws_rx_parse_state := if this_frame_masked (ws wsi) then LWS_RXPS_07_COLLECT_FRAME_KEY_1
                                       else LWS_RXPS_WS_FRAME_PAYLOAD\<rparr>)"

definition rx_frame_hdr_len :: "byte \<Rightarrow> lws \<Rightarrow> flow \<times> lws" where
  "rx_frame_hdr_len c wsi =
     (let wsi = upd_ws (this_frame_masked_update (\<lambda>_. c AND 0x80 \<noteq> 0)) wsi;
          l = c AND 0x7f
      in if l = 126 then
           (if opcode (ws wsi) AND 8 \<noteq> 0 then (Return (- 1), wsi)
            else (Break, wsi\<lparr>lws_rx_parse_state := LWS_RXPS_04_FRAME_HDR_LEN16_2\<rparr>))
         else if l = 127 then
           (if opcode (ws wsi) AND 8 \<noteq> 0 then (Return (- 1), wsi)
            else (Break, wsi\<lparr>lws_rx_parse_state := LWS_RXPS_04_FRAME_HDR_LEN64_8\<rparr>))
         else
           let wsi = upd_ws (rx_packet_length_update (\<lambda>_. ucast l)) wsi
           in if this_frame_masked (ws wsi)
              then (Break, wsi\<lparr>lws_rx_parse_state := LWS_RXPS_07_COLLECT_FRAME_KEY_1\<rparr>)
              else if rx_packet_length (ws wsi) \<noteq> 0
              then (Break, wsi\<lparr>lws_rx_parse_state := LWS_RXPS_WS_FRAME_PAYLOAD\<rparr>)
              else (Spill, wsi\<lparr>lws_rx_parse_state := LWS_RXPS_NEW\<rparr>))"

text \<open>A byte of an extended length, shifted to its place.\<close>

definition or_length :: "nat \<Rightarrow> byte \<Rightarrow> lws \<Rightarrow> lws" where
  "or_length k c wsi = upd_ws (\<lambda>w. w\<lparr>rx_packet_length := rx_packet_length w OR push_bit k (ucast c)\<rparr>) wsi"

definition rx_frame_hdr_len16 :: "byte \<Rightarrow> lws \<Rightarrow> flow \<times> lws" where
  "rx_frame_hdr_len16 c wsi =
     (case lws_rx_parse_state wsi of
        LWS_RXPS_04_FRAME_HDR_LEN16_2 \<Rightarrow>
          (Break, (upd_ws (rx_packet_length_update (\<lambda>_. push_bit 8 (ucast c))) wsi)
             \<lparr>lws_rx_parse_state := LWS_RXPS_04_FRAME_HDR_LEN16_1\<rparr>)
      | _ \<Rightarrow> after_length (or_length 0 c wsi))"

definition rx_frame_hdr_len64 :: "byte \<Rightarrow> lws \<Rightarrow> flow \<times> lws" where
  "rx_frame_hdr_len64 c wsi =
     (case lws_rx_parse_state wsi of
        LWS_RXPS_04_FRAME_HDR_LEN64_8 \<Rightarrow>
          if c AND 0x80 \<noteq> 0 then (Return (- 1), wsi)
          else (Break, (upd_ws (rx_packet_length_update (\<lambda>_. push_bit 56 (ucast c))) wsi)
                  \<lparr>lws_rx_parse_state := LWS_RXPS_04_FRAME_HDR_LEN64_7\<rparr>)
      | LWS_RXPS_04_FRAME_HDR_LEN64_7 \<Rightarrow> (Break, (or_length 48 c wsi)\<lparr>lws_rx_parse_state := LWS_RXPS_04_FRAME_HDR_LEN64_6\<rparr>)
      | LWS_RXPS_04_FRAME_HDR_LEN64_6 \<Rightarrow> (Break, (or_length 40 c wsi)\<lparr>lws_rx_parse_state := LWS_RXPS_04_FRAME_HDR_LEN64_5\<rparr>)
      | LWS_RXPS_04_FRAME_HDR_LEN64_5 \<Rightarrow> (Break, (or_length 32 c wsi)\<lparr>lws_rx_parse_state := LWS_RXPS_04_FRAME_HDR_LEN64_4\<rparr>)
      | LWS_RXPS_04_FRAME_HDR_LEN64_4 \<Rightarrow> (Break, (or_length 24 c wsi)\<lparr>lws_rx_parse_state := LWS_RXPS_04_FRAME_HDR_LEN64_3\<rparr>)
      | LWS_RXPS_04_FRAME_HDR_LEN64_3 \<Rightarrow> (Break, (or_length 16 c wsi)\<lparr>lws_rx_parse_state := LWS_RXPS_04_FRAME_HDR_LEN64_2\<rparr>)
      | LWS_RXPS_04_FRAME_HDR_LEN64_2 \<Rightarrow> (Break, (or_length 8 c wsi)\<lparr>lws_rx_parse_state := LWS_RXPS_04_FRAME_HDR_LEN64_1\<rparr>)
      | _ \<Rightarrow> after_length (or_length 0 c wsi))"

text \<open>A byte of the masking key; a key with a byte other than zero has to be applied.\<close>

definition set_key :: "nat \<Rightarrow> byte \<Rightarrow> lws \<Rightarrow> lws" where
  "set_key i c wsi =
     upd_ws (\<lambda>w. w\<lparr>ws_mask := (ws_mask w)[i := c], all_zero_nonce := (if c \<noteq> 0 then False else all_zero_nonce w)\<rparr>) wsi"

definition rx_mask_04 :: "byte \<Rightarrow> lws \<Rightarrow> flow \<times> lws" where
  "rx_mask_04 c wsi =
     (case lws_rx_parse_state wsi of
        LWS_RXPS_04_mask_1 \<Rightarrow> (Break, (set_key 1 c wsi)\<lparr>lws_rx_parse_state := LWS_RXPS_04_mask_2\<rparr>)
      | LWS_RXPS_04_mask_2 \<Rightarrow> (Break, (set_key 2 c wsi)\<lparr>lws_rx_parse_state := LWS_RXPS_04_mask_3\<rparr>)
      | _ \<Rightarrow> (Break, (upd_ws (mask_idx_update (\<lambda>_. 0)) (set_key 3 c wsi))
                \<lparr>lws_rx_parse_state := LWS_RXPS_04_FRAME_HDR_1\<rparr>))"

definition rx_frame_key :: "byte \<Rightarrow> lws \<Rightarrow> flow \<times> lws" where
  "rx_frame_key c wsi =
     (case lws_rx_parse_state wsi of
        LWS_RXPS_07_COLLECT_FRAME_KEY_1 \<Rightarrow> (Break, (set_key 0 c wsi)\<lparr>lws_rx_parse_state := LWS_RXPS_07_COLLECT_FRAME_KEY_2\<rparr>)
      | LWS_RXPS_07_COLLECT_FRAME_KEY_2 \<Rightarrow> (Break, (set_key 1 c wsi)\<lparr>lws_rx_parse_state := LWS_RXPS_07_COLLECT_FRAME_KEY_3\<rparr>)
      | LWS_RXPS_07_COLLECT_FRAME_KEY_3 \<Rightarrow> (Break, (set_key 2 c wsi)\<lparr>lws_rx_parse_state := LWS_RXPS_07_COLLECT_FRAME_KEY_4\<rparr>)
      | _ \<Rightarrow>
          let wsi = (upd_ws (mask_idx_update (\<lambda>_. 0)) (set_key 3 c wsi))\<lparr>lws_rx_parse_state := LWS_RXPS_WS_FRAME_PAYLOAD\<rparr>
          in if rx_packet_length (ws wsi) = 0 then (Spill, wsi\<lparr>lws_rx_parse_state := LWS_RXPS_NEW\<rparr>)
             else (Break, wsi))"

text \<open>A byte of payload: unmask it, store it, and see whether the frame or the buffer is complete.\<close>

definition buffer_size :: "lws \<Rightarrow> nat" where
  "buffer_size wsi = (if protocol_rx_buffer_size wsi \<noteq> 0 then protocol_rx_buffer_size wsi else pt_serv_buf_size wsi)"

definition rx_store :: "byte \<Rightarrow> lws \<Rightarrow> lws res" where
  "rx_store c wsi =
     (let w = ws wsi in
      bind_res (vec_set (the (rx_ubuf w)) (ws_pre + rx_ubuf_head w)
          (if all_zero_nonce w then c else c XOR ws_mask w ! unat (mask_idx w AND 3))) (\<lambda>ubuf.
        Inr (wsi\<lparr>ws := w\<lparr>rx_ubuf := Some ubuf, rx_ubuf_head := rx_ubuf_head w + 1,
               mask_idx := (if all_zero_nonce w then mask_idx w else mask_idx w + 1),
               rx_packet_length := rx_packet_length w - 1\<rparr>\<rparr>)))"

definition rx_payload :: "nat \<Rightarrow> byte \<Rightarrow> lws \<Rightarrow> (flow \<times> lws) res" where
  "rx_payload already c wsi =
     bind_res (assert_that (rx_ubuf (ws wsi) \<noteq> None)) (\<lambda>_.
       if rx_ubuf_head (ws wsi) + ws_pre \<ge> rx_ubuf_alloc (ws wsi) then Inr (Return (- 1), wsi)
       else
         bind_res (if already AND ALREADY_PROCESSED_IGNORE_CHAR = 0 then rx_store c wsi else Inr wsi) (\<lambda>wsi.
           if rx_packet_length (ws wsi) = 0 then Inr (Spill, wsi\<lparr>lws_rx_parse_state := LWS_RXPS_NEW\<rparr>)
           else if rx_ubuf_head (ws wsi) \<noteq> buffer_size wsi then Inr (Break, wsi)
           else Inr (Spill, wsi)))"

section \<open>Handing over what was received\<close>

definition rx_data :: "lws \<Rightarrow> byte list" where
  "rx_data wsi = take (rx_ubuf_head (ws wsi)) (drop ws_pre (case rx_ubuf (ws wsi) of None \<Rightarrow> [] | Some b \<Rightarrow> b))"

definition call_user :: "user_callback \<Rightarrow> ws_callback \<Rightarrow> byte list \<Rightarrow> lws \<Rightarrow> int \<times> lws" where
  "call_user cb reason data wsi = (cb reason data, wsi\<lparr>delivered := delivered wsi @ [(reason, data)]\<rparr>)"

definition ping_drop :: "lws \<Rightarrow> flow \<times> lws" where
  "ping_drop wsi = (Return 0, upd_ws (rx_ubuf_head_update (\<lambda>_. 0)) wsi)"

text \<open>The label \<open>process_as_ping\<close>: keep the payload for the answer.\<close>

definition process_as_ping :: "lws \<Rightarrow> (flow \<times> lws) res" where
  "process_as_ping wsi =
     (let w = ws wsi in
      if rx_ubuf_head w > 128 - 3 then Inr (ping_drop wsi)
      else if ws_pre + rx_ubuf_head w > length (ping_payload_buf w) then Inl Undefined_behaviour
      else
        let wsi = wsi\<lparr>ws := w\<lparr>ping_payload_buf := overwrite ws_pre (rx_data wsi) (ping_payload_buf w),
                     ping_payload_len := of_nat (rx_ubuf_head w), ping_pending_flag := True\<rparr>\<rparr>
        in Inr (ping_drop (snd (lws_callback_on_writable wsi))))"

text \<open>Close codes that a peer must not send.\<close>

definition bad_close_code :: "nat \<Rightarrow> bool" where
  "bad_close_code code \<longleftrightarrow> code < 1000 \<or> code \<in> {1004, 1005, 1006, 1012, 1013, 1014, 1015} \<or>
     (code \<ge> 1016 \<and> code < 3000)"

definition fix_close_code :: "lws \<Rightarrow> lws" where
  "fix_close_code wsi =
     (let pp = rx_data wsi in
      if rx_ubuf_head (ws wsi) \<ge> 2 \<and> bad_close_code (unat (pp ! 0) * 256 + unat (pp ! 1))
      then upd_ws (\<lambda>w. w\<lparr>rx_ubuf := map_option
               (overwrite ws_pre [of_nat (LWS_CLOSE_STATUS_PROTOCOL_ERR div 256), of_nat LWS_CLOSE_STATUS_PROTOCOL_ERR])
               (rx_ubuf w)\<rparr>) wsi
      else wsi)"

definition rx_close :: "user_callback \<Rightarrow> lws \<Rightarrow> (flow \<times> lws) res" where
  "rx_close cb wsi =
     (if peer_has_sent_close (ws wsi) then Inr (Break, wsi)
      else
        let wsi = upd_ws (peer_has_sent_close_update (\<lambda>_. True)) wsi;
            checking = (option_validate_utf8 wsi \<and> rx_ubuf_head (ws wsi) > 2);
            (bad, state) = (if checking then lws_check_utf8 (utf8_state (ws wsi)) (drop 2 (rx_data wsi))
                            else (0, utf8_state (ws wsi)));
            wsi = upd_ws (utf8_state_update (\<lambda>_. state)) wsi
        in if bad \<noteq> 0 then Inr (Return (- 1), wsi)
           else if lwsi_state wsi = LRS_AWAITING_CLOSE_ACK then Inr (Return (- 1), wsi)
           else if lwsi_state wsi = LRS_RETURNED_CLOSE then Inr (Return (- 1), wsi)
           else if lws_partial_buffered wsi
           then Inr (Return (- 1), wsi\<lparr>socket_is_permanently_unusable := True\<rparr>)
           else
             let wsi = fix_close_code wsi;
                 (ret, wsi) = call_user cb WS_PEER_INITIATED_CLOSE (rx_data wsi) wsi
             in if ret \<noteq> 0 then Inr (Return (- 1), wsi)
                else process_as_ping (upd_ws (payload_is_close_update (\<lambda>_. True))
                       (wsi\<lparr>lwsi_state := LRS_RETURNED_CLOSE\<rparr>)))"

definition rx_pong :: "lws \<Rightarrow> lws" where
  "rx_pong wsi =
     (if await_pong (ws wsi)
      then (lws_set_timeout 0 (upd_ws (await_pong_update (\<lambda>_. False)) wsi))\<lparr>sul_ping := Some (ping_pong_interval wsi)\<rparr>
      else wsi)"

text \<open>The check of the text of a message, done on what is about to be handed over; at the end of the
  message no character may be incomplete.\<close>

definition rx_check_text :: "byte list \<Rightarrow> lws \<Rightarrow> flow \<times> lws" where
  "rx_check_text data wsi =
     (if data \<noteq> [] \<and> check_utf8 (ws wsi) \<and> \<not> defeat_check_utf8 (ws wsi) then
        let (bad, state) = lws_check_utf8 (utf8_state (ws wsi)) data;
            wsi = upd_ws (utf8_state_update (\<lambda>_. state)) wsi
        in if bad \<noteq> 0
           then (Return (- 1), lws_close_reason LWS_CLOSE_STATUS_INVALID_PAYLOAD (bytes_of_string ''bad utf8'') wsi)
           else if rx_packet_length (ws wsi) = 0 \<and> final_frame (ws wsi) \<and> utf8_state (ws wsi) \<noteq> 0
           then (Return (- 1), lws_close_reason LWS_CLOSE_STATUS_INVALID_PAYLOAD (bytes_of_string ''partial utf8'') wsi)
           else (Break, wsi)
      else (Break, wsi))"

definition already_done :: "int \<Rightarrow> lws \<Rightarrow> int \<times> lws" where
  "already_done ret wsi = (ret, upd_ws (rx_ubuf_head_update (\<lambda>_. 0)) wsi)"

text \<open>What is handed over from the buffer is terminated by a NUL.\<close>

definition nul_terminate :: "byte list \<Rightarrow> lws \<Rightarrow> lws res" where
  "nul_terminate data wsi =
     (if data \<noteq> [] then
        bind_res (vec_set (the (rx_ubuf (ws wsi))) (ws_pre + length data) 0) (\<lambda>ubuf.
          Inr (upd_ws (rx_ubuf_update (\<lambda>_. Some ubuf)) wsi))
      else Inr wsi)"

definition hand_over :: "user_callback \<Rightarrow> nat \<Rightarrow> ws_callback \<Rightarrow> byte list \<Rightarrow> lws \<Rightarrow> int \<times> lws" where
  "hand_over cb already action data wsi =
     (if already AND ALREADY_PROCESSED_NO_CB = 0 then call_user cb action data wsi else (0, wsi))"

definition rx_deliver :: "user_callback \<Rightarrow> nat \<Rightarrow> ws_callback \<Rightarrow> lws \<Rightarrow> (int \<times> lws) res" where
  "rx_deliver cb already action wsi =
     (let data = rx_data wsi in
      if opcode (ws wsi) = LWSWSOPC_PONG \<and> data = [] then Inr (already_done 0 wsi)
      else if lwsi_state wsi = LRS_RETURNED_CLOSE \<or> lwsi_state wsi = LRS_AWAITING_CLOSE_ACK
      then Inr (already_done 0 wsi)
      else case rx_check_text data wsi of
        (Return r, wsi) \<Rightarrow> Inr (r, wsi)
      | (_, wsi) \<Rightarrow>
          if wsistate_pre_close wsi then Inr (already_done 0 wsi)
          else
            bind_res (nul_terminate data wsi) (\<lambda>wsi.
              let (ret, wsi) = hand_over cb already action data wsi
              in Inr (already_done ret (upd_ws (first_fragment_update (\<lambda>_. False)) wsi))))"

text \<open>The label \<open>spill\<close>.\<close>

definition rx_spill :: "user_callback \<Rightarrow> nat \<Rightarrow> lws \<Rightarrow> (int \<times> lws) res" where
  "rx_spill cb already wsi =
     (let opc = opcode (ws wsi);
          go_on = (\<lambda>action r. bind_res r (\<lambda>(f, wsi).
             case f of Return r \<Rightarrow> Inr (r, wsi) | _ \<Rightarrow> rx_deliver cb already action wsi))
      in if opc = LWSWSOPC_CLOSE then go_on WS_RECEIVE (rx_close cb wsi)
         else if opc = LWSWSOPC_PING then
           go_on WS_RECEIVE (if ping_pending_flag (ws wsi) then Inr (ping_drop wsi) else process_as_ping wsi)
         else if opc = LWSWSOPC_PONG then go_on WS_RECEIVE_PONG (Inr (Break, rx_pong wsi))
         else if opc \<in> {LWSWSOPC_TEXT_FRAME, LWSWSOPC_BINARY_FRAME, LWSWSOPC_CONTINUATION}
         then go_on WS_RECEIVE (Inr (Break, wsi))
         else Inr (- 1, wsi))"

definition rx_state :: "nat \<Rightarrow> byte \<Rightarrow> lws \<Rightarrow> (flow \<times> lws) res" where
  "rx_state already c wsi =
     (case lws_rx_parse_state wsi of
        LWS_RXPS_NEW \<Rightarrow> Inr (rx_new c wsi)
      | LWS_RXPS_04_mask_1 \<Rightarrow> Inr (rx_mask_04 c wsi)
      | LWS_RXPS_04_mask_2 \<Rightarrow> Inr (rx_mask_04 c wsi)
      | LWS_RXPS_04_mask_3 \<Rightarrow> Inr (rx_mask_04 c wsi)
      | LWS_RXPS_04_FRAME_HDR_1 \<Rightarrow> Inr (rx_frame_hdr_1 c wsi)
      | LWS_RXPS_04_FRAME_HDR_LEN \<Rightarrow> Inr (rx_frame_hdr_len c wsi)
      | LWS_RXPS_04_FRAME_HDR_LEN16_2 \<Rightarrow> Inr (rx_frame_hdr_len16 c wsi)
      | LWS_RXPS_04_FRAME_HDR_LEN16_1 \<Rightarrow> Inr (rx_frame_hdr_len16 c wsi)
      | LWS_RXPS_07_COLLECT_FRAME_KEY_1 \<Rightarrow> Inr (rx_frame_key c wsi)
      | LWS_RXPS_07_COLLECT_FRAME_KEY_2 \<Rightarrow> Inr (rx_frame_key c wsi)
      | LWS_RXPS_07_COLLECT_FRAME_KEY_3 \<Rightarrow> Inr (rx_frame_key c wsi)
      | LWS_RXPS_07_COLLECT_FRAME_KEY_4 \<Rightarrow> Inr (rx_frame_key c wsi)
      | LWS_RXPS_WS_FRAME_PAYLOAD \<Rightarrow> rx_payload already c wsi
      | _ \<Rightarrow> Inr (rx_frame_hdr_len64 c wsi))"

definition lws_ws_rx_sm :: "user_callback \<Rightarrow> nat \<Rightarrow> byte \<Rightarrow> lws \<Rightarrow> (int \<times> lws) res" where
  "lws_ws_rx_sm cb already c wsi =
     (if socket_is_permanently_unusable wsi then Inr (- 1, wsi)
      else bind_res (rx_state already c wsi) (\<lambda>(f, wsi).
        case f of Break \<Rightarrow> Inr (0, wsi) | Return r \<Rightarrow> Inr (r, wsi) | Spill \<Rightarrow> rx_spill cb already wsi))"

section \<open>Payload in bulk\<close>

text \<open>The unrolled loop over four bytes at a time, and the rest bytewise.\<close>

fun xor_quads :: "nat \<Rightarrow> byte list \<Rightarrow> byte list \<Rightarrow> byte list \<times> byte list" where
  "xor_quads (Suc n) key (a # b # c # d # bs) =
     (let (out, rest) = xor_quads n key bs
      in ((a XOR key ! 0) # (b XOR key ! 1) # (c XOR key ! 2) # (d XOR key ! 3) # out, rest))"
| "xor_quads n key bs = ([], bs)"

definition xor_bulk :: "byte list \<Rightarrow> byte list \<Rightarrow> byte list" where
  "xor_bulk key bs =
     (let (out, rest) = xor_quads (length bs div 4) key bs in out @ map2 (XOR) rest (take (length bs mod 4) key))"

text \<open>How much of the input is used at once: not more than the receive buffer holds, than the frame has
  left, than there is.\<close>

definition bulk_avail :: "byte list \<Rightarrow> lws \<Rightarrow> nat" where
  "bulk_avail buf wsi = min (min (buffer_size wsi) (unat (rx_packet_length (ws wsi)))) (length buf)"

text \<open>The check for an incomplete character at the end of a message reads the variable \<open>n\<close>, in which the
  build with extensions has the answer of the extension; in this build it is the counter of the
  last masking loop.\<close>

definition bulk_check_text :: "nat \<Rightarrow> byte list \<Rightarrow> lws \<Rightarrow> flow \<times> lws" where
  "bulk_check_text n data wsi =
     (if data \<noteq> [] \<and> check_utf8 (ws wsi) \<and> \<not> defeat_check_utf8 (ws wsi) then
        let (bad, state) = lws_check_utf8 (utf8_state (ws wsi)) data;
            wsi = upd_ws (utf8_state_update (\<lambda>_. state)) wsi
        in if bad \<noteq> 0
           then (Return (- 1), lws_close_reason LWS_CLOSE_STATUS_INVALID_PAYLOAD (bytes_of_string ''bad utf8'') wsi)
           else if rx_packet_length (ws wsi) = 0 \<and> final_frame (ws wsi) \<and> utf8_state (ws wsi) \<noteq> 0 \<and> n = 0
           then (Return (- 1), lws_close_reason LWS_CLOSE_STATUS_INVALID_PAYLOAD (bytes_of_string ''partial utf8'') wsi)
           else (Break, wsi)
      else (Break, wsi))"

text \<open>The bytes handed over: the key is rotated to the current position once.\<close>

definition bulk_key :: "websocket_related \<Rightarrow> byte list" where
  "bulk_key w = map (\<lambda>n. ws_mask w ! ((unat (mask_idx w) + n) mod 4)) [0..<4]"

definition bulk_data :: "nat \<Rightarrow> byte list \<Rightarrow> lws \<Rightarrow> byte list" where
  "bulk_data avail buf wsi =
     (if all_zero_nonce (ws wsi) then take avail buf else xor_bulk (bulk_key (ws wsi)) (take avail buf))"

definition bulk_counter :: "nat \<Rightarrow> lws \<Rightarrow> nat" where
  "bulk_counter avail wsi = (if all_zero_nonce (ws wsi) then 0 else avail mod 4)"

definition bulk_advance :: "nat \<Rightarrow> lws \<Rightarrow> lws" where
  "bulk_advance avail wsi =
     upd_ws (\<lambda>w. w\<lparr>mask_idx := (if all_zero_nonce w then mask_idx w else of_nat ((unat (mask_idx w) + avail) mod 4)),
                   rx_packet_length := rx_packet_length w - of_nat avail\<rparr>) wsi"

definition bulk_hand_over :: "user_callback \<Rightarrow> byte list \<Rightarrow> lws \<Rightarrow> int \<times> lws" where
  "bulk_hand_over cb data wsi = (if \<not> wsistate_pre_close wsi then call_user cb WS_RECEIVE data wsi else (0, wsi))"

definition lws_ws_frame_rest_is_payload :: "user_callback \<Rightarrow> byte list \<Rightarrow> lws \<Rightarrow> int \<times> byte list \<times> lws" where
  "lws_ws_frame_rest_is_payload cb buf wsi =
     (let avail = bulk_avail buf wsi;
          data = bulk_data avail buf wsi
      in if avail = 0 then (0, buf, wsi)
         else case bulk_check_text (bulk_counter avail wsi) data (bulk_advance avail wsi) of
           (Return r, wsi) \<Rightarrow> (r, drop avail buf, wsi)
         | (_, wsi) \<Rightarrow>
             let (ret, wsi) = bulk_hand_over cb data wsi
             in if ret \<noteq> 0 then (- 1, drop avail buf, wsi)
                else (int avail, drop avail buf, upd_ws (first_fragment_update (\<lambda>_. False)) wsi))"

section \<open>The loop over the input\<close>

definition bulk_ready :: "lws \<Rightarrow> bool" where
  "bulk_ready wsi \<longleftrightarrow> lws_rx_parse_state wsi = LWS_RXPS_WS_FRAME_PAYLOAD \<and>
     opcode (ws wsi) \<in> {LWSWSOPC_TEXT_FRAME, LWSWSOPC_BINARY_FRAME, LWSWSOPC_CONTINUATION}"

lemma rest_is_payload_consumes:
  "lws_ws_frame_rest_is_payload cb buf wsi = (m, buf', wsi') \<Longrightarrow> buf' = drop (bulk_avail buf wsi) buf"
  "lws_ws_frame_rest_is_payload cb buf wsi = (m, buf', wsi') \<Longrightarrow> m \<noteq> 0 \<Longrightarrow> 0 < m \<Longrightarrow> 0 < bulk_avail buf wsi"
  by (auto simp: lws_ws_frame_rest_is_payload_def Let_def split: if_splits prod.splits flow.splits)

lemma rest_is_payload_less:
  assumes "lws_ws_frame_rest_is_payload cb buf wsi = (m, buf', wsi')" and "buf \<noteq> []" and "m \<noteq> 0" and "\<not> m < 0"
  shows "length buf' < length buf"
  using rest_is_payload_consumes [OF assms(1)] assms(2-4) by simp

text \<open>The inner loop; it tells whether it ran at all and the last value of \<open>m\<close>.\<close>

function bulk_loop :: "user_callback \<Rightarrow> bool \<Rightarrow> byte list \<Rightarrow> lws \<Rightarrow> bool \<times> int \<times> byte list \<times> lws" where
  "bulk_loop cb bulk buf wsi =
     (if bulk_ready wsi \<and> buf \<noteq> [] then
        (case lws_ws_frame_rest_is_payload cb buf wsi of (m, buf', wsi') \<Rightarrow>
           if m = 0 then (True, 0, buf', wsi')
           else if m < 0 then (True, - 1, buf', wsi')
           else bulk_loop cb True buf' wsi')
      else (bulk, 0, buf, wsi))"
  by pat_completeness auto
termination
  by (relation "measure (\<lambda>(cb, bulk, buf, wsi). length buf)") (auto intro: rest_is_payload_less [OF sym])

declare bulk_loop.simps [simp del]

datatype rxflow_ret = LWSRXFC_ERROR | LWSRXFC_CACHED | LWSRXFC_ADDITIONAL | LWSRXFC_TRIMMED

text \<open>Keeping input for later while the flow of input is stopped. Whether the input is itself part of
  the first kept segment is the argument \<open>in_head\<close>.\<close>

definition lws_rxflow_cache :: "bool \<Rightarrow> bool \<Rightarrow> byte list \<Rightarrow> lws \<Rightarrow> (rxflow_ret \<times> lws) res" where
  "lws_rxflow_cache malloc in_head buf wsi =
     bind_res (lws_buflist_next_segment_len (buflist_in wsi)) (\<lambda>(blen, _, bl).
       if blen \<noteq> 0 \<and> in_head \<and> length buf \<le> blen \<and> blen \<noteq> length buf then
         bind_res (lws_buflist_use_segment (blen - length buf) bl) (\<lambda>(_, bl).
           Inr (LWSRXFC_TRIMMED, wsi\<lparr>buflist_in := bl\<rparr>))
       else
         bind_res (lws_buflist_append_segment malloc buf bl) (\<lambda>(m, bl).
           Inr (if m < 0 then LWSRXFC_ERROR else if blen \<noteq> 0 then LWSRXFC_ADDITIONAL else LWSRXFC_CACHED,
                wsi\<lparr>buflist_in := bl\<rparr>)))"

text \<open>\<open>lws_parse_ws\<close>; the result is the return value, the input from the final position of the buffer
  pointer on, and the connection. A round of the loop may use no input, so it has fuel.\<close>

fun parse_loop ::
    "nat \<Rightarrow> user_callback \<Rightarrow> bool \<Rightarrow> bool \<Rightarrow> byte list \<Rightarrow> byte list \<Rightarrow> lws \<Rightarrow> (int \<times> byte list \<times> lws) res option" where
  "parse_loop 0 cb malloc in_head bufin buf wsi = None"
| "parse_loop (Suc fuel) cb malloc in_head bufin buf wsi =
     (if buf = [] then Some (Inr (0, [], wsi))
      else if rxflow_bitmap wsi \<noteq> 0 then
        Some (bind_res (lws_rxflow_cache malloc in_head buf wsi) (\<lambda>(r, wsi).
          Inr (1, if r = LWSRXFC_TRIMMED then bufin else [], wsi)))
      else
        (case bulk_loop cb False buf wsi of (bulk, m, buf, wsi) \<Rightarrow>
           if m < 0 then Some (Inr (- 1, buf, wsi))
           else
             (case (if \<not> bulk then lws_ws_rx_sm cb 0 (hd buf) wsi
                    else lws_ws_rx_sm cb (ALREADY_PROCESSED_IGNORE_CHAR OR ALREADY_PROCESSED_NO_CB) 0 wsi) of
                Inl e \<Rightarrow> Some (Inl e)
              | Inr (m, wsi) \<Rightarrow>
                  let buf = (if \<not> bulk then tl buf else buf)
                  in if m < 0 then Some (Inr (- 1, buf, wsi))
                     else parse_loop fuel cb malloc in_head bufin buf wsi)))"

definition lws_parse_ws ::
    "user_callback \<Rightarrow> bool \<Rightarrow> bool \<Rightarrow> byte list \<Rightarrow> lws \<Rightarrow> (int \<times> byte list \<times> lws) res option" where
  "lws_parse_ws cb malloc in_head buf wsi = parse_loop (2 * length buf + 2) cb malloc in_head buf buf wsi"

text \<open>\<open>lws_server_init_wsi_for_ws\<close>: the receive buffer is allocated, with unspecified contents, and the
  application is told of the new connection.\<close>

definition lws_server_init_wsi_for_ws :: "user_callback \<Rightarrow> bool \<Rightarrow> bool \<Rightarrow> byte list \<Rightarrow> lws \<Rightarrow> int \<times> lws" where
  "lws_server_init_wsi_for_ws cb malloc sockopt_ok memory wsi =
     (let wsi = wsi\<lparr>lwsi_state := LRS_ESTABLISHED\<rparr>;
          wsi = (if ping_pong_interval wsi \<noteq> 0 then wsi\<lparr>sul_ping := Some (ping_pong_interval wsi)\<rparr> else wsi);
          n = buffer_size wsi + ws_pre
      in if \<not> malloc then (1, upd_ws (rx_ubuf_update (\<lambda>_. None)) wsi)
         else
           let wsi = upd_ws (\<lambda>w. w\<lparr>rx_ubuf := Some (take (n + 4) (memory @ replicate (n + 4) 0)), rx_ubuf_alloc := n\<rparr>) wsi
           in if \<not> sockopt_ok then (1, wsi)
              else let (ret, wsi) = call_user cb WS_ESTABLISHED [] wsi in (if ret \<noteq> 0 then 1 else 0, wsi))"

end
