(* ===== verification/Lws_Rx_Safety.thy ===== *)
theory Lws_Rx_Safety
  imports Lws_Ws_Rx
begin

text \<open>
  Whatever bytes a peer sends, in whatever pieces, the receiver stays inside its buffers, fails no
  assertion and comes to an end: the invariant \<open>rx_ok\<close> of a connection between two pieces of input,
  and that every step of the state machine and of the bulk path keeps it.
\<close>

section \<open>The invariant\<close>

definition rx_mem :: "lws \<Rightarrow> bool" where
  "rx_mem wsi \<longleftrightarrow>
     (\<exists>b. rx_ubuf (ws wsi) = Some b \<and> length b = rx_ubuf_alloc (ws wsi) + 4) \<and>
     rx_ubuf_alloc (ws wsi) = buffer_size wsi + ws_pre \<and> 0 < buffer_size wsi \<and>
     length (ping_payload_buf (ws wsi)) = 128 - 3 + ws_pre \<and> length (ws_mask (ws wsi)) = 4 \<and> rxflow_bitmap wsi = 0"

definition rx_ok :: "lws \<Rightarrow> bool" where
  "rx_ok wsi \<longleftrightarrow> rx_mem wsi \<and> rx_ubuf_head (ws wsi) < buffer_size wsi"

text \<open>While a full buffer is handed over, it may be full.\<close>

definition rx_full :: "lws \<Rightarrow> bool" where
  "rx_full wsi \<longleftrightarrow> rx_mem wsi \<and> rx_ubuf_head (ws wsi) \<le> buffer_size wsi"

text \<open>What the invariant looks at.\<close>

definition mem_same :: "lws \<Rightarrow> lws \<Rightarrow> bool" where
  "mem_same wsi wsi' \<longleftrightarrow>
     rx_ubuf (ws wsi') = rx_ubuf (ws wsi) \<and> rx_ubuf_alloc (ws wsi') = rx_ubuf_alloc (ws wsi) \<and>
     rx_ubuf_head (ws wsi') = rx_ubuf_head (ws wsi) \<and>
     length (ping_payload_buf (ws wsi')) = length (ping_payload_buf (ws wsi)) \<and>
     length (ws_mask (ws wsi')) = length (ws_mask (ws wsi)) \<and> buffer_size wsi' = buffer_size wsi \<and>
     rxflow_bitmap wsi' = rxflow_bitmap wsi"

named_theorems mem_simps \<open>steps that leave the buffers alone\<close>

lemma mem_same_refl [mem_simps]: "mem_same wsi wsi"
  by (simp add: mem_same_def)

lemma mem_same_trans: "mem_same a b \<Longrightarrow> mem_same b c \<Longrightarrow> mem_same a c"
  by (simp add: mem_same_def)

lemma rx_mem_same: "mem_same wsi wsi' \<Longrightarrow> rx_mem wsi' = rx_mem wsi"
  by (simp add: mem_same_def rx_mem_def)

lemma rx_ok_same: "mem_same wsi wsi' \<Longrightarrow> rx_ok wsi' = rx_ok wsi"
  by (simp add: rx_ok_def rx_mem_same) (simp add: mem_same_def)

lemma rx_full_same: "mem_same wsi wsi' \<Longrightarrow> rx_full wsi' = rx_full wsi"
  by (simp add: rx_full_def rx_mem_same) (simp add: mem_same_def)

lemma buffer_size_updates [simp]:
  "buffer_size (wsi\<lparr>ws := w\<rparr>) = buffer_size wsi" "buffer_size (upd_ws f wsi) = buffer_size wsi"
  "buffer_size (wsi\<lparr>lws_rx_parse_state := p\<rparr>) = buffer_size wsi" "buffer_size (wsi\<lparr>delivered := d\<rparr>) = buffer_size wsi"
  "buffer_size (wsi\<lparr>lwsi_state := l\<rparr>) = buffer_size wsi"
  "buffer_size (wsi\<lparr>socket_is_permanently_unusable := p'\<rparr>) = buffer_size wsi"
  "buffer_size (lws_set_timeout n wsi) = buffer_size wsi" "buffer_size (wsi\<lparr>sul_ping := t\<rparr>) = buffer_size wsi"
  by (simp_all add: buffer_size_def upd_ws_def lws_set_timeout_def)

lemma upd_ws_simps [simp]:
  "ws (upd_ws f wsi) = f (ws wsi)" "rxflow_bitmap (upd_ws f wsi) = rxflow_bitmap wsi"
  "lws_rx_parse_state (upd_ws f wsi) = lws_rx_parse_state wsi" "lwsi_state (upd_ws f wsi) = lwsi_state wsi"
  "delivered (upd_ws f wsi) = delivered wsi" "wsistate_pre_close (upd_ws f wsi) = wsistate_pre_close wsi"
  "socket_is_permanently_unusable (upd_ws f wsi) = socket_is_permanently_unusable wsi"
  "option_validate_utf8 (upd_ws f wsi) = option_validate_utf8 wsi" "buflist_out (upd_ws f wsi) = buflist_out wsi"
  by (simp_all add: upd_ws_def)

lemma mem_same_close_reason [mem_simps]:
  "rx_mem wsi \<Longrightarrow> mem_same wsi (lws_close_reason n text wsi)"
  by (simp add: mem_same_def lws_close_reason_def Let_def rx_mem_def ws_pre_def)

lemma mem_same_state [mem_simps]: "mem_same wsi (wsi\<lparr>lws_rx_parse_state := p\<rparr>)"
  by (simp add: mem_same_def)

section \<open>The header states\<close>

lemma protocol_error_same: "rx_mem wsi \<Longrightarrow> mem_same wsi (snd (protocol_error t wsi))"
  by (simp add: protocol_error_def mem_same_close_reason)

lemma mem_same_upd:
  "(\<And>w. rx_ubuf (f w) = rx_ubuf w \<and> rx_ubuf_alloc (f w) = rx_ubuf_alloc w \<and> rx_ubuf_head (f w) = rx_ubuf_head w \<and>
      ping_payload_buf (f w) = ping_payload_buf w \<and> length (ws_mask (f w)) = length (ws_mask w)) \<Longrightarrow>
   mem_same wsi (upd_ws f wsi)"
  by (simp add: mem_same_def)

lemma protocol_error_after: "mem_same wsi wsi' \<Longrightarrow> rx_mem wsi \<Longrightarrow> mem_same wsi (snd (protocol_error t wsi'))"
  using protocol_error_same [of wsi' t] rx_mem_same mem_same_trans by blast

lemma protocol_error_mem:
  "length (ping_payload_buf (ws wsi')) = 141 \<Longrightarrow> mem_same wsi (snd (protocol_error t wsi')) = mem_same wsi wsi'"
  by (simp add: protocol_error_def mem_same_def lws_close_reason_def Let_def ws_pre_def)

lemma rx_mem_ping: "rx_mem wsi \<Longrightarrow> length (ping_payload_buf (ws wsi)) = 141"
  by (simp add: rx_mem_def ws_pre_def)

lemma hdr_opcode_same:
  assumes "rx_mem wsi"
  shows "mem_same wsi (snd (hdr_opcode c wsi))"
  using rx_mem_ping [OF assms]
  by (simp add: hdr_opcode_def Let_def protocol_error_mem) (simp add: mem_same_def)

lemma mem_same_ping: "mem_same wsi wsi' \<Longrightarrow> length (ping_payload_buf (ws wsi')) = length (ping_payload_buf (ws wsi))"
  by (simp add: mem_same_def)

lemma rx_frame_hdr_1_same:
  assumes "rx_mem wsi"
  shows "mem_same wsi (snd (rx_frame_hdr_1 c wsi))"
proof -
  define w where "w = upd_ws (\<lambda>w. w\<lparr>opcode := c AND 0xf, rsv := c AND 0x70, final_frame := (drop_bit 7 c AND 1 \<noteq> 0),
                  defeat_check_utf8 := False\<rparr>) wsi"
  obtain f w2 where h: "hdr_opcode c w = (f, w2)" by force
  have w: "mem_same wsi w" by (simp add: w_def mem_same_def)
  then have "rx_mem w" using assms rx_mem_same by blast
  with hdr_opcode_same [of w c] h have "mem_same w w2" by simp
  with w have w2: "mem_same wsi w2" by (rule mem_same_trans)
  note ping = mem_same_ping [OF w] mem_same_ping [OF w2] rx_mem_ping [OF assms]
  show ?thesis
  proof (cases f)
    case Break
    with w w2 ping show ?thesis
      by (simp add: rx_frame_hdr_1_def Let_def w_def [symmetric] h protocol_error_mem) (simp add: mem_same_def)
  qed (use w w2 ping in \<open>simp_all add: rx_frame_hdr_1_def Let_def w_def [symmetric] h protocol_error_mem\<close>)
qed

lemma rx_new_same: "rx_mem wsi \<Longrightarrow> mem_same wsi (snd (rx_new c wsi))"
proof -
  assume mem: "rx_mem wsi"
  have w: "mem_same wsi (upd_ws (all_zero_nonce_update (\<lambda>_. True)) wsi)" by (simp add: mem_same_def)
  then have "rx_mem (upd_ws (all_zero_nonce_update (\<lambda>_. True)) wsi)" using mem rx_mem_same by blast
  from rx_frame_hdr_1_same [OF this, of c] w show ?thesis
    by (simp add: rx_new_def mem_same_refl) (blast intro: mem_same_trans)
qed

lemma header_states_same:
  "mem_same wsi (snd (rx_frame_hdr_len c wsi))" "mem_same wsi (snd (rx_frame_hdr_len16 c wsi))"
  "mem_same wsi (snd (rx_frame_hdr_len64 c wsi))" "mem_same wsi (snd (rx_mask_04 c wsi))"
  "mem_same wsi (snd (rx_frame_key c wsi))"
  by (simp_all add: rx_frame_hdr_len_def rx_frame_hdr_len16_def rx_frame_hdr_len64_def rx_mask_04_def rx_frame_key_def
      Let_def after_length_def or_length_def set_key_def mem_same_def split: lws_rx_parse_state.split)

section \<open>Payload\<close>

text \<open>The parser leaves a state of the header with a full buffer at most when it hands the buffer over.\<close>

definition flow_ok :: "flow \<times> lws \<Rightarrow> bool" where
  "flow_ok fw \<longleftrightarrow> (case fst fw of Break \<Rightarrow> rx_ok (snd fw) | Spill \<Rightarrow> rx_full (snd fw) | Return r \<Rightarrow> 0 \<le> r \<longrightarrow> rx_ok (snd fw))"

lemma flow_ok_same: "rx_ok wsi \<Longrightarrow> mem_same wsi (snd fw) \<Longrightarrow> flow_ok fw"
  using rx_ok_same [of wsi "snd fw"] by (auto simp: flow_ok_def rx_ok_def rx_full_def split: flow.splits)

lemma rx_ok_full: "rx_ok wsi \<Longrightarrow> rx_full wsi"
  by (simp add: rx_ok_def rx_full_def)

lemma rx_store_ok:
  assumes "rx_ok wsi"
  shows "\<exists>wsi'. rx_store c wsi = Inr wsi' \<and> rx_full wsi' \<and> rx_ubuf_head (ws wsi') = rx_ubuf_head (ws wsi) + 1 \<and>
     buffer_size wsi' = buffer_size wsi"
  using assms by (auto simp: rx_store_def Let_def vec_set_def rx_ok_def rx_full_def rx_mem_def)

lemma rx_payload_ok:
  assumes "rx_ok wsi"
  shows "\<exists>fw. rx_payload already c wsi = Inr fw \<and> flow_ok fw \<and> (\<forall>r. fst fw \<noteq> Return r)"
proof -
  from assms have u: "rx_ubuf (ws wsi) \<noteq> None" "\<not> rx_ubuf_head (ws wsi) + ws_pre \<ge> rx_ubuf_alloc (ws wsi)"
    by (auto simp: rx_ok_def rx_mem_def)
  obtain wsi' where s: "(if already AND ALREADY_PROCESSED_IGNORE_CHAR = 0 then rx_store c wsi else Inr wsi) = Inr wsi'"
    "rx_full wsi'"
    using rx_store_ok [OF assms, of c] rx_ok_full [OF assms] by (cases "already AND ALREADY_PROCESSED_IGNORE_CHAR = 0") auto
  have state: "rx_full (wsi'\<lparr>lws_rx_parse_state := p\<rparr>)" for p
    using s(2) rx_full_same [OF mem_same_state] by blast
  have "rx_ok wsi'" if "rx_ubuf_head (ws wsi') \<noteq> buffer_size wsi'" using that s(2) by (simp add: rx_ok_def rx_full_def)
  with u s state show ?thesis
    by (simp add: rx_payload_def assert_that_def flow_ok_def)
qed

section \<open>Handing over\<close>

definition result_ok :: "int \<times> lws \<Rightarrow> bool" where
  "result_ok rw \<longleftrightarrow> (0 \<le> fst rw \<longrightarrow> rx_ok (snd rw))"

lemma head_zero_ok: "rx_mem wsi \<Longrightarrow> rx_ok (upd_ws (rx_ubuf_head_update (\<lambda>_. 0)) wsi)"
  by (auto simp: rx_ok_def rx_mem_def)

lemma rx_full_mem: "rx_full wsi \<Longrightarrow> rx_mem wsi"
  by (simp add: rx_full_def)

lemma on_writable_same: "mem_same wsi (snd (lws_callback_on_writable wsi))"
  by (simp add: mem_same_def lws_callback_on_writable_def request_pollout_def buffer_size_def)

lemma call_user_same: "mem_same wsi (snd (call_user cb r d wsi))"
  by (simp add: call_user_def mem_same_def)

lemma length_rx_data: "rx_full wsi \<Longrightarrow> length (rx_data wsi) = rx_ubuf_head (ws wsi)"
  by (auto simp: rx_data_def rx_full_def rx_mem_def)

lemma process_as_ping_ok:
  assumes "rx_full wsi"
  shows "\<exists>w'. process_as_ping wsi = Inr (Return 0, w') \<and> rx_ok w'"
proof (cases "rx_ubuf_head (ws wsi) > 128 - 3")
  case True
  then show ?thesis using head_zero_ok [OF rx_full_mem [OF assms]] by (simp add: process_as_ping_def ping_drop_def)
next
  case False
  note mem = rx_full_mem [OF assms]
  let ?w = "wsi\<lparr>ws := (ws wsi)\<lparr>ping_payload_buf := overwrite ws_pre (rx_data wsi) (ping_payload_buf (ws wsi)),
                     ping_payload_len := of_nat (rx_ubuf_head (ws wsi)), ping_pending_flag := True\<rparr>\<rparr>"
  have fits: "ws_pre + rx_ubuf_head (ws wsi) \<le> length (ping_payload_buf (ws wsi))"
    using False mem by (simp add: rx_mem_def)
  then have "length (overwrite ws_pre (rx_data wsi) (ping_payload_buf (ws wsi))) = length (ping_payload_buf (ws wsi))"
    using length_rx_data [OF assms] by simp
  then have "mem_same wsi ?w" by (simp add: mem_same_def)
  with on_writable_same [of ?w] have "mem_same wsi (snd (lws_callback_on_writable ?w))" by (rule mem_same_trans [rotated])
  then have "rx_mem (snd (lws_callback_on_writable ?w))" using mem rx_mem_same by blast
  with False fits show ?thesis by (simp add: process_as_ping_def ping_drop_def head_zero_ok Let_def)
qed

lemma fix_close_code_full: "rx_full wsi \<Longrightarrow> rx_full (fix_close_code wsi)"
  by (auto simp: fix_close_code_def Let_def rx_full_def rx_mem_def)

lemma rx_close_ok:
  assumes "rx_full wsi"
  shows "\<exists>fw. rx_close cb wsi = Inr fw \<and> (case fst fw of Return r \<Rightarrow> result_ok (r, snd fw) | _ \<Rightarrow> rx_full (snd fw))"
proof (cases "peer_has_sent_close (ws wsi)")
  case True
  then show ?thesis using assms by (simp add: rx_close_def)
next
  case False
  define w where "w = upd_ws (peer_has_sent_close_update (\<lambda>_. True)) wsi"
  obtain bad state where u: "(if option_validate_utf8 w \<and> rx_ubuf_head (ws w) > 2
      then lws_check_utf8 (utf8_state (ws w)) (drop 2 (rx_data w)) else (0, utf8_state (ws w))) = (bad, state)" by force
  define w1 where "w1 = upd_ws (utf8_state_update (\<lambda>_. state)) w"
  have "mem_same wsi w1" by (simp add: w1_def w_def mem_same_def)
  then have full: "rx_full w1" using assms rx_full_same by blast
  define w2 where "w2 = snd (call_user cb WS_PEER_INITIATED_CLOSE (rx_data (fix_close_code w1)) (fix_close_code w1))"
  have "rx_full w2" using rx_full_same [OF call_user_same] fix_close_code_full [OF full] by (simp add: w2_def)
  then have "rx_full (upd_ws (payload_is_close_update (\<lambda>_. True)) (w2\<lparr>lwsi_state := LRS_RETURNED_CLOSE\<rparr>))"
    by (auto simp: rx_full_def rx_mem_def)
  from process_as_ping_ok [OF this] obtain w' where p:
    "process_as_ping (upd_ws (payload_is_close_update (\<lambda>_. True)) (w2\<lparr>lwsi_state := LRS_RETURNED_CLOSE\<rparr>)) = Inr (Return 0, w')"
    "rx_ok w'" by blast
  obtain ret where c: "call_user cb WS_PEER_INITIATED_CLOSE (rx_data (fix_close_code w1)) (fix_close_code w1) = (ret, w2)"
    unfolding w2_def by (cases "call_user cb WS_PEER_INITIATED_CLOSE (rx_data (fix_close_code w1)) (fix_close_code w1)") simp
  show ?thesis
    using False u p by (simp add: rx_close_def Let_def w_def [symmetric] w1_def [symmetric] c result_ok_def)
qed

lemma rx_pong_same: "mem_same wsi (rx_pong wsi)"
  by (simp add: rx_pong_def mem_same_def lws_set_timeout_def buffer_size_def upd_ws_def)

lemma check_text_same:
  assumes "rx_mem wsi"
  shows "mem_same wsi (snd (rx_check_text d wsi))" and "fst (rx_check_text d wsi) \<in> {Break, Return (- 1)}"
    and "mem_same wsi (snd (bulk_check_text n d wsi))" and "fst (bulk_check_text n d wsi) \<in> {Break, Return (- 1)}"
proof -
  have *: "mem_same wsi (lws_close_reason k t (upd_ws (utf8_state_update (\<lambda>_. s)) wsi))" for k t s
    using rx_mem_ping [OF assms] by (simp add: mem_same_def lws_close_reason_def Let_def ws_pre_def)
  then show "mem_same wsi (snd (rx_check_text d wsi))" "mem_same wsi (snd (bulk_check_text n d wsi))"
    by (auto simp: rx_check_text_def bulk_check_text_def Let_def mem_same_refl mem_same_upd split: prod.splits)
  show "fst (rx_check_text d wsi) \<in> {Break, Return (- 1)}" "fst (bulk_check_text n d wsi) \<in> {Break, Return (- 1)}"
    by (auto simp: rx_check_text_def bulk_check_text_def Let_def split: prod.splits)
qed

lemma rx_full_first_fragment: "rx_mem wsi \<Longrightarrow> rx_mem (upd_ws (first_fragment_update (\<lambda>_. False)) wsi)"
  by (auto simp: rx_mem_def)

lemma rx_mem_ubuf:
  "rx_mem wsi \<Longrightarrow> rx_ubuf (ws wsi) = Some b \<Longrightarrow> length b' = length b \<Longrightarrow> rx_mem (upd_ws (rx_ubuf_update (\<lambda>_. Some b')) wsi)"
  by (simp add: rx_mem_def)

lemma nul_terminate_ok:
  assumes "rx_full wsi" and "length data \<le> buffer_size wsi"
  shows "\<exists>wsi'. nul_terminate data wsi = Inr wsi' \<and> rx_mem wsi' \<and> wsistate_pre_close wsi' = wsistate_pre_close wsi \<and>
     delivered wsi' = delivered wsi"
proof -
  from assms(1) obtain b where b: "rx_ubuf (ws wsi) = Some b" "length b = buffer_size wsi + ws_pre + 4"
    by (auto simp: rx_full_def rx_mem_def)
  then show ?thesis
    using assms rx_mem_ubuf [OF rx_full_mem [OF assms(1)] b(1), of "b[ws_pre + length data := 0]"] rx_full_mem [OF assms(1)]
    by (simp add: nul_terminate_def vec_set_def)
qed

lemma hand_over_same: "mem_same wsi (snd (hand_over cb already action data wsi))" "mem_same wsi (snd (bulk_hand_over cb data wsi))"
  by (simp_all add: hand_over_def bulk_hand_over_def call_user_same mem_same_refl)

lemma rx_deliver_ok:
  assumes "rx_full wsi"
  shows "\<exists>rw. rx_deliver cb already action wsi = Inr rw \<and> result_ok rw"
proof -
  note mem = rx_full_mem [OF assms]
  have done_ok: "result_ok (already_done r w)" if "rx_mem w" for r w
    using head_zero_ok [OF that] by (simp add: already_done_def result_ok_def)
  obtain f w where c: "rx_check_text (rx_data wsi) wsi = (f, w)" by force
  with check_text_same(1,2) [OF mem, of "rx_data wsi"] have w: "mem_same wsi w" and f: "f = Break \<or> f = Return (- 1)" by auto
  have wf: "rx_full w" using w assms rx_full_same by blast
  have "length (rx_data wsi) \<le> buffer_size w"
    using length_rx_data [OF assms] assms w by (simp add: rx_full_def mem_same_def)
  with nul_terminate_ok [OF wf] obtain w1 where w1: "nul_terminate (rx_data wsi) w = Inr w1" "rx_mem w1" by blast
  obtain ret w2 where w2: "hand_over cb already action (rx_data wsi) w1 = (ret, w2)" by force
  with hand_over_same(1) [of w1 cb already action "rx_data wsi"] w1(2) have "rx_mem w2" using rx_mem_same by simp
  note ok = done_ok [OF rx_full_first_fragment [OF this]] done_ok [OF mem] done_ok [OF rx_full_mem [OF wf]]
  from f show ?thesis
  proof
    assume "f = Break"
    with ok w1(1) w2 show ?thesis by (simp add: rx_deliver_def Let_def c del: split_paired_Ex)
  next
    assume "f = Return (- 1)"
    with ok show ?thesis by (simp add: rx_deliver_def Let_def c result_ok_def [of "(- 1, _)"] del: split_paired_Ex)
  qed
qed

lemma rx_spill_ok:
  assumes "rx_full wsi"
  shows "\<exists>rw. rx_spill cb already wsi = Inr rw \<and> result_ok rw"
proof -
  have pong: "rx_full (rx_pong wsi)" using assms rx_full_same [OF rx_pong_same] by blast
  obtain fw where c: "rx_close cb wsi = Inr fw"
    "case fst fw of Return r \<Rightarrow> result_ok (r, snd fw) | _ \<Rightarrow> rx_full (snd fw)"
    using rx_close_ok [OF assms] by blast
  obtain f w where fw: "fw = (f, w)" by force
  have "\<exists>rw. bind_res (rx_close cb wsi) (\<lambda>(f, wsi). case f of Return r \<Rightarrow> Inr (r, wsi) | _ \<Rightarrow> rx_deliver cb already a wsi) =
      Inr rw \<and> result_ok rw" for a
    using c fw rx_deliver_ok [of w cb already a] by (cases f) auto
  moreover obtain w' where "process_as_ping wsi = Inr (Return 0, w')" "rx_ok w'"
    using process_as_ping_ok [OF assms] by blast
  moreover have "rx_ok (snd (ping_drop wsi))" using head_zero_ok [OF rx_full_mem [OF assms]] by (simp add: ping_drop_def)
  ultimately show ?thesis
    using rx_deliver_ok [OF assms, of cb already WS_RECEIVE] rx_deliver_ok [OF pong, of cb already WS_RECEIVE_PONG]
    by (simp add: rx_spill_def Let_def result_ok_def ping_drop_def)
qed

section \<open>A byte, a piece of input\<close>

lemma rx_state_ok:
  assumes "rx_ok wsi"
  shows "\<exists>fw. rx_state already c wsi = Inr fw \<and> flow_ok fw"
proof -
  note mem = assms [unfolded rx_ok_def, THEN conjunct1]
  note hdr = flow_ok_same [OF assms rx_new_same [OF mem]] flow_ok_same [OF assms rx_frame_hdr_1_same [OF mem]]
    flow_ok_same [OF assms header_states_same(1)] flow_ok_same [OF assms header_states_same(2)]
    flow_ok_same [OF assms header_states_same(3)] flow_ok_same [OF assms header_states_same(4)]
    flow_ok_same [OF assms header_states_same(5)]
  show ?thesis
    using rx_payload_ok [OF assms, of already c]
    by (cases "lws_rx_parse_state wsi") (auto simp: rx_state_def hdr)
qed

lemma rx_sm_ok:
  assumes "rx_ok wsi"
  shows "\<exists>rw. lws_ws_rx_sm cb already c wsi = Inr rw \<and> result_ok rw"
proof -
  obtain f w where s: "rx_state already c wsi = Inr (f, w)" "flow_ok (f, w)"
    using rx_state_ok [OF assms, of already c] by (metis surj_pair)
  then show ?thesis
    using rx_spill_ok [of w cb already]
    by (cases f) (auto simp: lws_ws_rx_sm_def result_ok_def flow_ok_def)
qed

lemma bulk_advance_same: "mem_same wsi (bulk_advance n wsi)"
  by (simp add: bulk_advance_def mem_same_def)

lemma rest_is_payload_ok:
  assumes "rx_ok wsi" and "lws_ws_frame_rest_is_payload cb buf wsi = (m, buf', wsi')"
  shows "mem_same wsi wsi' \<and> (m = - 1 \<or> m = int (bulk_avail buf wsi))"
proof -
  note mem = assms(1) [unfolded rx_ok_def, THEN conjunct1]
  let ?a = "bulk_avail buf wsi"
  let ?d = "bulk_data ?a buf wsi"
  have "rx_mem (bulk_advance ?a wsi)" using mem rx_mem_same [OF bulk_advance_same] by blast
  note chk = check_text_same(3,4) [OF this, of "bulk_counter ?a wsi" ?d]
  obtain f w2 where c: "bulk_check_text (bulk_counter ?a wsi) ?d (bulk_advance ?a wsi) = (f, w2)" by force
  from c chk mem_same_trans [OF bulk_advance_same] have s2: "mem_same wsi w2" and f: "f = Break \<or> f = Return (- 1)" by auto
  obtain ret w3 where u: "bulk_hand_over cb ?d w2 = (ret, w3)" by force
  with hand_over_same(2) [of w2 cb ?d] mem_same_trans [OF s2] have s3: "mem_same wsi w3" by simp
  then have s4: "mem_same wsi (upd_ws (first_fragment_update (\<lambda>_. False)) w3)" by (simp add: mem_same_def)
  show ?thesis
  proof (cases "?a = 0")
    case True
    with assms(2) show ?thesis by (simp add: lws_ws_frame_rest_is_payload_def Let_def mem_same_refl)
  next
    case False
    with f show ?thesis
      using assms(2) s2 s3 s4
      by (auto simp: lws_ws_frame_rest_is_payload_def Let_def c u split: if_splits)
  qed
qed

lemma bulk_loop_ok:
  assumes "rx_ok wsi" and "bulk_loop cb bulk buf wsi = (bulk', m, buf', wsi')"
  shows "mem_same wsi wsi' \<and> (m = 0 \<or> m = - 1) \<and> length buf' \<le> length buf \<and> (bulk_ready wsi \<and> buf \<noteq> [] \<longrightarrow> bulk')"
  using assms
proof (induction cb bulk buf wsi arbitrary: bulk' m buf' wsi' rule: bulk_loop.induct)
  case (1 cb bulk buf wsi)
  show ?case
  proof (cases "bulk_ready wsi \<and> buf \<noteq> []")
    case False
    with "1.prems" show ?thesis by (auto simp: bulk_loop.simps [of cb bulk] mem_same_refl)
  next
    case True
    obtain n b w where r: "lws_ws_frame_rest_is_payload cb buf wsi = (n, b, w)" by (metis surj_pair)
    note ok = rest_is_payload_ok [OF "1.prems"(1) r]
    have len: "length b \<le> length buf" using rest_is_payload_consumes(1) [OF r] by simp
    show ?thesis
    proof (cases "0 < n")
      case pos: True
      have "rx_ok w" using ok "1.prems"(1) rx_ok_same by blast
      moreover have eq: "bulk_loop cb True b w = (bulk', m, buf', wsi')"
        using "1.prems"(2) True r pos by (simp add: bulk_loop.simps [of cb bulk])
      ultimately have ih: "mem_same w wsi' \<and> (m = 0 \<or> m = - 1) \<and> length buf' \<le> length b \<and> (bulk_ready w \<and> b \<noteq> [] \<longrightarrow> bulk')"
        using "1.IH" [OF True r [symmetric] refl] pos by simp
      have "bulk'"
      proof (cases "bulk_ready w \<and> b \<noteq> []")
        case False
        with eq show ?thesis by (simp add: bulk_loop.simps [of cb True])
      qed (use ih in simp)
      with ih ok len mem_same_trans show ?thesis by auto
    next
      case False
      with "1.prems"(2) True r ok len show ?thesis by (auto simp: bulk_loop.simps [of cb bulk] split: if_splits)
    qed
  qed
qed

text \<open>Handing over a data frame does not change the state of the parser.\<close>

lemma deliver_parse_state:
  assumes "rx_deliver cb already action wsi = Inr (r, wsi')"
  shows "lws_rx_parse_state wsi' = lws_rx_parse_state wsi"
proof -
  have c: "lws_rx_parse_state (snd (rx_check_text d w)) = lws_rx_parse_state w" for d w
    by (auto simp: rx_check_text_def Let_def lws_close_reason_def split: prod.splits)
  have n: "nul_terminate d w = Inr w' \<Longrightarrow> lws_rx_parse_state w' = lws_rx_parse_state w" for d w w'
    by (auto simp: nul_terminate_def bind_res_eq_Inr split: if_splits)
  have h: "lws_rx_parse_state (snd (hand_over cb a k d w)) = lws_rx_parse_state w" for a k d w
    by (simp add: hand_over_def call_user_def)
  obtain f w where cw: "rx_check_text (rx_data wsi) wsi = (f, w)" by force
  with c [of "rx_data wsi" wsi] have w: "lws_rx_parse_state w = lws_rx_parse_state wsi" by simp
  show ?thesis
  proof (cases f)
    case (Return r')
    with assms cw w show ?thesis by (auto simp: rx_deliver_def Let_def already_done_def split: if_splits)
  qed (use assms cw w n h in \<open>auto simp: rx_deliver_def Let_def already_done_def bind_res_eq_Inr split_def split: if_splits\<close>)
qed

lemma bulk_end_state:
  assumes "bulk_ready wsi" and "rx_ok wsi" and "rx_packet_length (ws wsi) = 0"
    and "lws_ws_rx_sm cb (ALREADY_PROCESSED_IGNORE_CHAR OR ALREADY_PROCESSED_NO_CB) 0 wsi = Inr (r, wsi')" and "0 \<le> r"
  shows "\<not> bulk_ready wsi'"
proof -
  from assms(1) have st: "lws_rx_parse_state wsi = LWS_RXPS_WS_FRAME_PAYLOAD" and
    opc: "opcode (ws wsi) \<in> {LWSWSOPC_TEXT_FRAME, LWSWSOPC_BINARY_FRAME, LWSWSOPC_CONTINUATION}"
    by (simp_all add: bulk_ready_def)
  let ?a = "ALREADY_PROCESSED_IGNORE_CHAR OR ALREADY_PROCESSED_NO_CB"
  let ?w = "wsi\<lparr>lws_rx_parse_state := LWS_RXPS_NEW\<rparr>"
  have "rx_payload ?a 0 wsi = Inr (Spill, ?w)"
    using assms(2,3) by (auto simp: rx_payload_def assert_that_def rx_ok_def rx_mem_def ALREADY_PROCESSED_IGNORE_CHAR_def
        ALREADY_PROCESSED_NO_CB_def)
  moreover have "\<not> socket_is_permanently_unusable wsi" using assms(4,5) by (auto simp: lws_ws_rx_sm_def)
  ultimately have "rx_spill cb ?a ?w = Inr (r, wsi')" using assms(4) st by (simp add: lws_ws_rx_sm_def rx_state_def)
  then have "rx_deliver cb ?a WS_RECEIVE ?w = Inr (r, wsi')" using opc by (auto simp: rx_spill_def opcode_defs)
  from deliver_parse_state [OF this] show ?thesis by (simp add: bulk_ready_def)
qed

lemma bulk_no_progress:
  assumes "bulk_loop cb False buf wsi = (True, m, buf', wsi')" and "length buf' = length buf" and "buf \<noteq> []" and "rx_ok wsi"
    and "bulk_ready wsi"
  shows "m = 0 \<longrightarrow> rx_packet_length (ws wsi) = 0 \<and> wsi' = wsi"
proof -
  obtain n b w where r: "lws_ws_frame_rest_is_payload cb buf wsi = (n, b, w)" by (metis surj_pair)
  note ok = rest_is_payload_ok [OF assms(4) r]
  show ?thesis
  proof (cases "0 < n")
    case True
    from rest_is_payload_less [OF r assms(3)] True have "length b < length buf" by simp
    moreover have "rx_ok w" using ok assms(4) rx_ok_same by blast
    moreover have "bulk_loop cb True b w = (True, m, buf', wsi')"
      using assms(1,3,5) r True by (simp add: bulk_loop.simps [of cb False])
    ultimately have "length buf' < length buf" using bulk_loop_ok by fastforce
    with assms(2) show ?thesis by simp
  next
    case False
    show ?thesis
    proof (cases "n = 0")
      case True
      then have "bulk_avail buf wsi = 0" using ok by simp
      moreover have "0 < buffer_size wsi" using assms(4) by (simp add: rx_ok_def rx_mem_def)
      ultimately have "unat (rx_packet_length (ws wsi)) = 0" using assms(3) by (auto simp: bulk_avail_def min_def split: if_splits)
      moreover have "w = wsi" using r \<open>bulk_avail buf wsi = 0\<close> by (simp add: lws_ws_frame_rest_is_payload_def Let_def)
      ultimately show ?thesis using assms(1,3,5) r True by (simp add: bulk_loop.simps [of cb False] unat_eq_0)
    next
      case neg: False
      with False have "n < 0" by simp
      with assms(1,3,5) r neg show ?thesis by (simp add: bulk_loop.simps [of cb False])
    qed
  qed
qed

text \<open>The measure of the loop: a round uses input or leaves the bulk path.\<close>

definition rounds :: "byte list \<Rightarrow> lws \<Rightarrow> nat" where
  "rounds buf wsi = 2 * length buf + (if bulk_ready wsi then 1 else 0)"

lemma parse_loop_ok:
  assumes "rx_ok wsi" and "rounds buf wsi < fuel"
  shows "\<exists>r buf' wsi'. parse_loop fuel cb malloc in_head bufin buf wsi = Some (Inr (r, buf', wsi')) \<and> (0 \<le> r \<longrightarrow> rx_ok wsi')"
  using assms
proof (induction fuel arbitrary: buf wsi)
  case (Suc fuel)
  have rxf: "rxflow_bitmap wsi = 0" using Suc.prems(1) by (simp add: rx_ok_def rx_mem_def)
  show ?case
  proof (cases "buf = []")
    case False
    obtain bulk m b w where bl: "bulk_loop cb False buf wsi = (bulk, m, b, w)" by (metis surj_pair)
    note ok = bulk_loop_ok [OF Suc.prems(1) bl]
    have w: "rx_ok w" using ok Suc.prems(1) rx_ok_same by blast
    define step where "step = (if \<not> bulk then lws_ws_rx_sm cb 0 (hd b) w
        else lws_ws_rx_sm cb (ALREADY_PROCESSED_IGNORE_CHAR OR ALREADY_PROCESSED_NO_CB) 0 w)"
    obtain r w' where st: "step = Inr (r, w')" "0 \<le> r \<longrightarrow> rx_ok w'"
      using rx_sm_ok [OF w] unfolding step_def result_ok_def by (metis prod.collapse)
    define b' where "b' = (if \<not> bulk then tl b else b)"
    have eq: "parse_loop (Suc fuel) cb malloc in_head bufin buf wsi =
        (if m < 0 then Some (Inr (- 1, b, w)) else if r < 0 then Some (Inr (- 1, b', w'))
         else parse_loop fuel cb malloc in_head bufin b' w')"
      using False rxf st(1) by (simp add: bl step_def [symmetric] b'_def [symmetric])
    show ?thesis
    proof (cases "m < 0 \<or> r < 0")
      case True
      then show ?thesis unfolding eq by auto
    next
      case go: False
      have "rounds b' w' < rounds buf wsi"
      proof (cases bulk)
        case notbulk: False
        then have "\<not> bulk_ready wsi" using ok False by auto
        then have "b = buf" using bl by (simp add: bulk_loop.simps)
        with notbulk False show ?thesis by (cases buf) (auto simp: rounds_def b'_def)
      next
        case True
        then have br: "bulk_ready wsi" using bl by (auto simp: bulk_loop.simps split: if_splits)
        show ?thesis
        proof (cases "length b = length buf")
          case same: True
          have "bulk_loop cb False buf wsi = (True, m, b, w)" using bl True by simp
          from bulk_no_progress [OF this same False Suc.prems(1) br] go ok
          have "rx_packet_length (ws wsi) = 0" "w = wsi" by auto
          with bulk_end_state [OF br Suc.prems(1)] st(1) True go have "\<not> bulk_ready w'" by (simp add: step_def)
          with br True same show ?thesis by (simp add: rounds_def b'_def)
        qed (use ok True br in \<open>auto simp: rounds_def b'_def\<close>)
      qed
      with Suc.prems(2) have "rounds b' w' < fuel" by simp
      with Suc.IH [of w' b'] st(2) go show ?thesis unfolding eq by auto
    qed
  qed (use Suc.prems(1) in auto)
qed simp

lemma lws_parse_ws_ok:
  assumes "rx_ok wsi"
  shows "\<exists>r buf' wsi'. lws_parse_ws cb malloc in_head buf wsi = Some (Inr (r, buf', wsi')) \<and> (0 \<le> r \<longrightarrow> rx_ok wsi')"
  unfolding lws_parse_ws_def by (rule parse_loop_ok [OF assms]) (simp add: rounds_def)

text \<open>Input as the socket delivers it: piece after piece, until the connection is given up.\<close>

fun receive :: "user_callback \<Rightarrow> byte list list \<Rightarrow> lws \<Rightarrow> (int \<times> lws) res option" where
  "receive cb [] wsi = Some (Inr (0, wsi))"
| "receive cb (chunk # chunks) wsi =
     (case lws_parse_ws cb True False chunk wsi of
        None \<Rightarrow> None
      | Some (Inl e) \<Rightarrow> Some (Inl e)
      | Some (Inr (r, _, wsi')) \<Rightarrow> if r < 0 then Some (Inr (r, wsi')) else receive cb chunks wsi')"

section \<open>Properties\<close>

text \<open>C6. A peer cannot break the receiver: whatever bytes it sends in whatever pieces, and whatever the
  application answers, every piece is processed in finitely many rounds without undefined behaviour
  or failed assertion, and as long as the connection is kept its buffers are in order.\<close>

theorem receiver_is_robust:
  assumes "rx_ok wsi"
  shows "\<exists>r wsi'. receive cb chunks wsi = Some (Inr (r, wsi')) \<and> (0 \<le> r \<longrightarrow> rx_ok wsi')"
  using assms
proof (induction chunks arbitrary: wsi)
  case (Cons chunk chunks)
  from lws_parse_ws_ok [OF Cons.prems, of cb True False chunk] obtain r b w where
    "lws_parse_ws cb True False chunk wsi = Some (Inr (r, b, w))" "0 \<le> r \<longrightarrow> rx_ok w" by blast
  then show ?case using Cons.IH [of w] by (cases "r < 0") auto
qed simp

theorem receiver_is_robust_witness:
  "\<exists>r wsi'. receive (\<lambda>_ _. 0) [[0x81], [0x85, 1, 2, 3], [4, 0, 0, 0, 0, 0], [0x8f, 0xff]]
     (snd (lws_server_init_wsi_for_ws (\<lambda>_ _. 0) True True [] (upgraded_lws 0 64 0))) = Some (Inr (r, wsi'))"
proof -
  have "rx_ok (snd (lws_server_init_wsi_for_ws (\<lambda>_ _. 0) True True [] (upgraded_lws 0 64 0)))"
    by (simp add: lws_server_init_wsi_for_ws_def upgraded_lws_def zero_ws_def rx_ok_def rx_mem_def buffer_size_def Let_def
        call_user_def upd_ws_def)
  from receiver_is_robust [OF this] show ?thesis by blast
qed

end
