(* ===== verification/Lws_Rx_Stream.thy ===== *)
theory Lws_Rx_Stream
  imports Lws_Rx_Safety Lws_Ws_Tx
begin

text \<open>
  What a well-behaved client sends arrives: a stream of frames as \<open>ws_frame\<close> builds them for a client,
  cut into pieces in any way, is handed to the application message part by message part, unmasked.
\<close>

section \<open>A connection between two frames\<close>

text \<open>An open connection on which nothing is held back; text is not checked, as the server does not
  ask for it.\<close>

definition calm :: "lws \<Rightarrow> bool" where
  "calm wsi \<longleftrightarrow> rx_ok wsi \<and> rx_ubuf_head (ws wsi) = 0 \<and> \<not> socket_is_permanently_unusable wsi \<and>
     lwsi_state wsi = LRS_ESTABLISHED \<and> \<not> wsistate_pre_close wsi \<and> \<not> option_validate_utf8 wsi \<and>
     \<not> check_utf8 (ws wsi) \<and> ietf_spec_revision (ws wsi) = 13"

text \<open>Whether a message is open, that is, whether its last fragment is still to come.\<close>

definition message_open :: "bool \<Rightarrow> lws \<Rightarrow> bool" where
  "message_open opn wsi \<longleftrightarrow> continuation_possible (ws wsi) = opn \<and> owed_a_fin (ws wsi) = opn"

definition idle :: "bool \<Rightarrow> lws \<Rightarrow> bool" where
  "idle opn wsi \<longleftrightarrow> calm wsi \<and> message_open opn wsi \<and> lws_rx_parse_state wsi = LWS_RXPS_NEW"

text \<open>In the middle of a frame of data.\<close>

definition data_opcode :: "byte \<Rightarrow> bool" where
  "data_opcode opc \<longleftrightarrow> opc \<in> {LWSWSOPC_TEXT_FRAME, LWSWSOPC_BINARY_FRAME, LWSWSOPC_CONTINUATION}"

definition in_frame :: "bool \<Rightarrow> lws \<Rightarrow> bool" where
  "in_frame opn wsi \<longleftrightarrow> calm wsi \<and> message_open opn wsi \<and> data_opcode (opcode (ws wsi))"

definition legal_opcode :: "bool \<Rightarrow> byte \<Rightarrow> bool" where
  "legal_opcode opn opc \<longleftrightarrow>
     (if opn then opc = LWSWSOPC_CONTINUATION else opc = LWSWSOPC_TEXT_FRAME \<or> opc = LWSWSOPC_BINARY_FRAME)"

lemma calm_ws [simp]:
  assumes "calm wsi" and "rx_ubuf w = rx_ubuf (ws wsi)" and "rx_ubuf_alloc w = rx_ubuf_alloc (ws wsi)"
    and "rx_ubuf_head w = 0" and "length (ping_payload_buf w) = length (ping_payload_buf (ws wsi))"
    and "length (ws_mask w) = length (ws_mask (ws wsi))" and "\<not> check_utf8 w" and "ietf_spec_revision w = 13"
  shows "calm (wsi\<lparr>ws := w\<rparr>)"
proof -
  have "mem_same wsi (wsi\<lparr>ws := w\<rparr>)" using assms by (simp add: mem_same_def calm_def)
  from rx_ok_same [OF this] assms show ?thesis by (simp add: calm_def)
qed

lemma calm_other [simp]:
  "calm (wsi\<lparr>lws_rx_parse_state := p\<rparr>) = calm wsi" "calm (wsi\<lparr>delivered := d\<rparr>) = calm wsi"
  by (simp_all add: calm_def rx_ok_def rx_mem_def cong: conj_cong)

lemma calmD:
  assumes "calm wsi"
  shows "rx_ok wsi" and "rxflow_bitmap wsi = 0" and "rx_ubuf_head (ws wsi) = 0" and "\<not> socket_is_permanently_unusable wsi"
    and "lwsi_state wsi = LRS_ESTABLISHED" and "\<not> wsistate_pre_close wsi" and "\<not> option_validate_utf8 wsi"
    and "\<not> check_utf8 (ws wsi)" and "ietf_spec_revision (ws wsi) = 13" and "length (ws_mask (ws wsi)) = 4"
  using assms unfolding calm_def rx_ok_def rx_mem_def by blast+

section \<open>Bytes of a header, one at a time\<close>

text \<open>Feeding the state machine outside the bulk path, as long as it is content; only with the last
  byte may something be handed over.\<close>

fun takes :: "user_callback \<Rightarrow> lws \<Rightarrow> byte list \<Rightarrow> lws option" where
  "takes cb wsi [] = Some wsi"
| "takes cb wsi (c # cs) =
     (if bulk_ready wsi \<or> rxflow_bitmap wsi \<noteq> 0 then None
      else case lws_ws_rx_sm cb 0 c wsi of
        Inl _ \<Rightarrow> None
      | Inr (r, wsi') \<Rightarrow> if r = 0 \<and> (cs = [] \<or> delivered wsi' = delivered wsi) then takes cb wsi' cs else None)"

lemma takes_step:
  "takes cb wsi (c # cs) = Some w \<longleftrightarrow>
     \<not> bulk_ready wsi \<and> rxflow_bitmap wsi = 0 \<and>
     (\<exists>w'. lws_ws_rx_sm cb 0 c wsi = Inr (0, w') \<and> (cs = [] \<or> delivered w' = delivered wsi) \<and> takes cb w' cs = Some w)"
  by (auto split: if_splits sum.splits)

lemma takes_prefix:
  "takes cb wsi (a @ b) = Some w \<Longrightarrow> b \<noteq> [] \<Longrightarrow> \<exists>w'. takes cb wsi a = Some w' \<and> delivered w' = delivered wsi \<and> takes cb w' b = Some w"
proof (induction a arbitrary: wsi)
  case (Cons c a)
  from Cons.prems obtain w1 where w1: "\<not> bulk_ready wsi" "rxflow_bitmap wsi = 0" "lws_ws_rx_sm cb 0 c wsi = Inr (0, w1)"
    "delivered w1 = delivered wsi" "takes cb w1 (a @ b) = Some w"
    unfolding append_Cons takes_step by auto
  from Cons.IH [OF w1(5) Cons.prems(2)] obtain w' where "takes cb w1 a = Some w'" "delivered w' = delivered w1" "takes cb w' b = Some w" by blast
  then show ?case using w1 by (intro exI [of _ w']) simp
qed simp

lemma takes_append:
  "takes cb wsi a = Some w \<Longrightarrow> delivered w = delivered wsi \<Longrightarrow> takes cb w b = Some w' \<Longrightarrow> takes cb wsi (a @ b) = Some w'"
proof (induction a arbitrary: wsi)
  case (Cons c a)
  from Cons.prems(1) obtain w1 where w1: "\<not> bulk_ready wsi" "rxflow_bitmap wsi = 0" "lws_ws_rx_sm cb 0 c wsi = Inr (0, w1)"
    "a = [] \<or> delivered w1 = delivered wsi" "takes cb w1 a = Some w" unfolding takes_step by blast
  then have d: "delivered w1 = delivered wsi" using Cons.prems(2) by auto
  with Cons.IH [OF w1(5) _ Cons.prems(3)] Cons.prems(2) have "takes cb w1 (a @ b) = Some w'" by simp
  with w1 d show ?case by simp
qed simp

lemmas rx_step = bulk_ready_def lws_ws_rx_sm_def rx_state_def Let_def upd_ws_def

lemma takes_hdr_1:
  assumes "idle opn wsi" and "legal_opcode opn opc"
  shows "\<exists>w. takes cb wsi [if fin then opc OR 0x80 else opc] = Some w \<and> in_frame (\<not> fin) w \<and>
     lws_rx_parse_state w = LWS_RXPS_04_FRAME_HDR_LEN \<and> all_zero_nonce (ws w) \<and> delivered w = delivered wsi"
proof -
  have st: "lws_rx_parse_state wsi = LWS_RXPS_NEW" "calm wsi" "continuation_possible (ws wsi) = opn" "owed_a_fin (ws wsi) = opn"
    using assms(1) by (simp_all add: idle_def message_open_def)
  consider (c) "opn" "opc = LWSWSOPC_CONTINUATION" | (t) "\<not> opn" "opc = LWSWSOPC_TEXT_FRAME" | (b) "\<not> opn" "opc = LWSWSOPC_BINARY_FRAME"
    using assms(2) by (auto simp: legal_opcode_def split: if_splits)
  then show ?thesis
    using st calmD [OF st(2)]
    by cases (cases fin; simp add: rx_step rx_new_def rx_frame_hdr_1_def hdr_opcode_def opcode_defs in_frame_def
        data_opcode_def message_open_def)+
qed

text \<open>A length put together from its bytes.\<close>

lemma bit_of_byte:
  "bit (push_bit k (ucast (ucast (drop_bit k (l :: u64)) :: byte)) :: u64) n \<longleftrightarrow> k \<le> n \<and> n < k + 8 \<and> bit l n"
  using bit_imp_le_length [of l n] by (auto simp: bit_simps)

lemma bit_of_nat_high: "n < 2 ^ k \<Longrightarrow> bit (of_nat n :: u64) i \<Longrightarrow> i < k"
  using bit_imp_le_length [of "of_nat n :: u64" i] less_exp
  by (metis bit_of_nat_iff bit_take_bit_iff take_bit_nat_eq_self)

lemma length_16:
  assumes "n < 65536"
  shows "push_bit 8 (ucast (ucast (drop_bit 8 (of_nat n :: u64)) :: byte)) OR push_bit 0 (ucast (ucast (of_nat n :: u64) :: byte)) =
    (of_nat n :: u64)"
proof (rule bit_eqI)
  fix i
  have "bit (of_nat n :: u64) i \<Longrightarrow> i < 16" using bit_of_nat_high [of n 16 i] assms by simp
  then show "bit (push_bit 8 (ucast (ucast (drop_bit 8 (of_nat n :: u64)) :: byte)) OR push_bit 0 (ucast (ucast (of_nat n :: u64) :: byte)) :: u64) i =
    bit (of_nat n :: u64) i"
    using bit_of_byte [of 0 "of_nat n" i] bit_of_byte [of 8 "of_nat n" i] by (auto simp: bit_or_iff)
qed

lemma top_byte: "n < 2 ^ 63 \<Longrightarrow> drop_bit 56 (of_nat n :: u64) AND 0x7f = drop_bit 56 (of_nat n)"
proof (rule bit_eqI)
  fix i assume n: "n < 2 ^ 63"
  have e: "(0x7f :: u64) = mask 7" by (simp add: mask_eq_exp_minus_1)
  show "bit (drop_bit 56 (of_nat n :: u64) AND 0x7f) i = bit (drop_bit 56 (of_nat n :: u64)) i"
    unfolding e using bit_of_nat_high [OF n, of "56 + i"] by (auto simp: bit_simps)
qed

lemma length_64:
  fixes l :: u64
  shows "push_bit 56 (ucast (ucast (drop_bit 56 l) :: byte)) OR push_bit 48 (ucast (ucast (drop_bit 48 l) :: byte)) OR
      push_bit 40 (ucast (ucast (drop_bit 40 l) :: byte)) OR push_bit 32 (ucast (ucast (drop_bit 32 l) :: byte)) OR
      push_bit 24 (ucast (ucast (drop_bit 24 l) :: byte)) OR push_bit 16 (ucast (ucast (drop_bit 16 l) :: byte)) OR
      push_bit 8 (ucast (ucast (drop_bit 8 l) :: byte)) OR push_bit 0 (ucast (ucast l :: byte)) = l" (is "?s = l")
proof (rule bit_eqI)
  fix i
  have l0: "push_bit 0 (ucast (ucast l :: byte) :: u64) = push_bit 0 (ucast (ucast (drop_bit 0 l) :: byte))" by simp
  have "bit l i \<Longrightarrow> i < 64" using bit_imp_le_length [of l i] by simp
  moreover have "i < 64 \<Longrightarrow> i < 8 \<or> (8 \<le> i \<and> i < 16) \<or> (16 \<le> i \<and> i < 24) \<or> (24 \<le> i \<and> i < 32) \<or> (32 \<le> i \<and> i < 40) \<or>
    (40 \<le> i \<and> i < 48) \<or> (48 \<le> i \<and> i < 56) \<or> (56 \<le> i \<and> i < 64)" by linarith
  ultimately show "bit ?s i = bit l i"
    unfolding bit_or_iff l0 bit_of_byte by auto
qed

lemma high_bit: "(c :: byte) AND 0x80 \<noteq> 0 \<longleftrightarrow> bit c 7"
proof -
  have "(0x80 :: byte) = 2 ^ 7" by simp
  then show ?thesis by (simp only: and_exp_eq_0_iff_not_bit not_not)
qed

lemma masked_length_byte:
  assumes "n < 128"
  shows "(of_nat n OR 0x80) AND 0x7f = (of_nat n :: byte)" and "(of_nat n OR 0x80) AND 0x80 \<noteq> (0 :: byte)"
proof -
  have "unat ((of_nat n OR 0x80) AND 0x7f :: byte) = unat (of_nat n :: byte)"
    using length_byte(1) [where n = n and m = "0x80"] assms by (simp add: unat_of_nat)
  then show "(of_nat n OR 0x80) AND 0x7f = (of_nat n :: byte)" by (rule unsigned_word_eqI)
  show "(of_nat n OR 0x80) AND 0x80 \<noteq> (0 :: byte)"
    unfolding high_bit using length_byte(2) [where n = n and m = "0x80"] assms by simp
qed

definition has_length :: "bool \<Rightarrow> nat \<Rightarrow> lws \<Rightarrow> lws \<Rightarrow> bool" where
  "has_length opn n wsi w \<longleftrightarrow> in_frame opn w \<and> lws_rx_parse_state w = LWS_RXPS_07_COLLECT_FRAME_KEY_1 \<and>
     rx_packet_length (ws w) = of_nat n \<and> all_zero_nonce (ws w) = all_zero_nonce (ws wsi) \<and> delivered w = delivered wsi"

lemma data_opcode_control: "data_opcode opc \<Longrightarrow> opc AND 8 = 0"
  by (auto simp: data_opcode_def opcode_defs)

lemma takes_length_small:
  assumes "in_frame opn wsi" and "lws_rx_parse_state wsi = LWS_RXPS_04_FRAME_HDR_LEN" and "n < 126"
  shows "\<exists>w. takes cb wsi [of_nat n OR 0x80] = Some w \<and> has_length opn n wsi w"
proof -
  have n: "n < 128" using assms(3) by simp
  have "of_nat n \<noteq> (126 :: byte)" "of_nat n \<noteq> (127 :: byte)"
    using assms(3) by (auto simp: word_eq_iff_unsigned unat_of_nat dest: arg_cong [of _ _ unat])
  moreover have "(ucast (of_nat n :: byte) :: u64) = of_nat n"
    using n by (intro unsigned_word_eqI [where 'a = nat]) (simp add: unat_of_nat unsigned_ucast_eq take_bit_eq_mod)
  moreover have c: "calm wsi" using assms(1) by (simp add: in_frame_def)
  ultimately show ?thesis
    using assms calmD [OF c] masked_length_byte [OF n]
    by (simp add: rx_step rx_frame_hdr_len_def has_length_def in_frame_def message_open_def)
qed

lemma takes_length_16:
  assumes "in_frame opn wsi" and "lws_rx_parse_state wsi = LWS_RXPS_04_FRAME_HDR_LEN" and "n < 65536"
  shows "\<exists>w. takes cb wsi [126 OR 0x80, ucast (drop_bit 8 (of_nat n :: u64)), ucast (of_nat n :: u64)] = Some w \<and> has_length opn n wsi w"
proof -
  have c: "calm wsi" "data_opcode (opcode (ws wsi))" using assms(1) by (simp_all add: in_frame_def)
  show ?thesis
    using assms calmD [OF c(1)] length_16 [OF assms(3)] data_opcode_control [OF c(2)]
    by (simp add: rx_step rx_frame_hdr_len_def rx_frame_hdr_len16_def after_length_def or_length_def has_length_def in_frame_def message_open_def)
qed

lemma takes_length_64:
  assumes "in_frame opn wsi" and "lws_rx_parse_state wsi = LWS_RXPS_04_FRAME_HDR_LEN" and "n < 2 ^ 63"
  defines "l \<equiv> of_nat n :: u64"
  shows "\<exists>w. takes cb wsi [127 OR 0x80, ucast (drop_bit 56 l AND 0x7f), ucast (drop_bit 48 l), ucast (drop_bit 40 l),
      ucast (drop_bit 32 l), ucast (drop_bit 24 l), ucast (drop_bit 16 l), ucast (drop_bit 8 l), ucast l] = Some w \<and> has_length opn n wsi w"
proof -
  have c: "calm wsi" "data_opcode (opcode (ws wsi))" using assms(1) by (simp_all add: in_frame_def)
  have top: "drop_bit 56 l AND 0x7f = drop_bit 56 l" unfolding l_def by (rule top_byte [OF assms(3)])
  have "(ucast (drop_bit 56 l) :: byte) AND 0x80 = 0"
    using bit_of_nat_high [OF assms(3), of 63] high_bit [of "ucast (drop_bit 56 l)"] by (auto simp: l_def bit_simps)
  then show ?thesis
    using assms(1,2) calmD [OF c(1)] length_64 [of l] data_opcode_control [OF c(2)]
    unfolding top l_def [symmetric]
    by (simp add: rx_step rx_frame_hdr_len_def rx_frame_hdr_len64_def after_length_def or_length_def has_length_def in_frame_def
        message_open_def l_def [symmetric] or.assoc)
qed

lemma takes_length:
  assumes "in_frame opn wsi" and "lws_rx_parse_state wsi = LWS_RXPS_04_FRAME_HDR_LEN" and "n < 2 ^ 63"
  shows "\<exists>w. takes cb wsi (tl (frame_header b0 0x80 n)) = Some w \<and> has_length opn n wsi w"
proof -
  consider "n < 126" | "\<not> n < 126" "n < 65536" | "\<not> n < 126" "\<not> n < 65536" by blast
  then show ?thesis
  proof cases
    case 1
    then have "tl (frame_header b0 0x80 n) = [of_nat n OR 0x80]" by (simp add: frame_header_def)
    with takes_length_small [OF assms(1,2) 1] show ?thesis by presburger
  next
    case 2
    then have "tl (frame_header b0 0x80 n) = [126 OR 0x80, ucast (drop_bit 8 (of_nat n :: u64)), ucast (of_nat n :: u64)]"
      by (simp only: frame_header_def Let_def if_True if_False list.sel)
    with takes_length_16 [OF assms(1,2) 2(2)] show ?thesis by presburger
  next
    case 3
    show ?thesis
      unfolding frame_header_def Let_def if_not_P [OF 3(1)] if_not_P [OF 3(2)] list.sel by (rule takes_length_64 [OF assms])
  qed
qed

definition has_payload :: "bool \<Rightarrow> byte list \<Rightarrow> nat \<Rightarrow> nat \<Rightarrow> lws \<Rightarrow> bool" where
  "has_payload opn key i n wsi \<longleftrightarrow> in_frame opn wsi \<and> lws_rx_parse_state wsi = LWS_RXPS_WS_FRAME_PAYLOAD \<and>
     rx_packet_length (ws wsi) = of_nat n \<and> n < 2 ^ 63 \<and> ws_mask (ws wsi) = key \<and> length key = 4 \<and>
     all_zero_nonce (ws wsi) = (key = [0, 0, 0, 0]) \<and> (key \<noteq> [0, 0, 0, 0] \<longrightarrow> unat (mask_idx (ws wsi)) = i mod 4)"

lemma of_nat_zero: "n < 2 ^ 63 \<Longrightarrow> (of_nat n :: u64) = 0 \<longleftrightarrow> n = 0"
  by (simp add: unat_eq_0 [symmetric] unat_of_nat)

lemma list_four: "length xs = 4 \<Longrightarrow> \<exists>a b c d. xs = [a, b, c, d]"
  by (auto simp: numeral_eq_Suc length_Suc_conv)

lemma takes_key_payload:
  assumes "has_length opn n wsi0 wsi" and "all_zero_nonce (ws wsi)" and "length key = 4" and "0 < n" and "n < 2 ^ 63"
  shows "\<exists>w. takes cb wsi key = Some w \<and> has_payload opn key 0 n w \<and> delivered w = delivered wsi"
proof -
  have w: "in_frame opn wsi" "lws_rx_parse_state wsi = LWS_RXPS_07_COLLECT_FRAME_KEY_1" "rx_packet_length (ws wsi) = of_nat n"
    and c: "calm wsi" using assms(1) by (simp_all add: has_length_def in_frame_def)
  obtain k0 k1 k2 k3 where k: "key = [k0, k1, k2, k3]" using list_four [OF assms(3)] by blast
  obtain m0 m1 m2 m3 where m: "ws_mask (ws wsi) = [m0, m1, m2, m3]" using list_four [OF calmD(10) [OF c]] by blast
  show ?thesis
    using w calmD [OF c] assms(2,4,5) c
    by (simp add: k m rx_step rx_frame_key_def set_key_def of_nat_zero has_payload_def in_frame_def message_open_def)
qed

lemma takes_key_empty:
  assumes "has_length opn 0 wsi0 wsi" and "length key = 4" and "cb WS_RECEIVE [] = 0"
  shows "\<exists>w. takes cb wsi key = Some w \<and> idle opn w \<and> delivered w = delivered wsi @ [(WS_RECEIVE, [])]"
proof -
  have w: "in_frame opn wsi" "lws_rx_parse_state wsi = LWS_RXPS_07_COLLECT_FRAME_KEY_1" "rx_packet_length (ws wsi) = 0"
    and c: "calm wsi" using assms(1) by (simp_all add: has_length_def in_frame_def)
  have "opcode (ws wsi) \<in> {0, 1, 2}" using w(1) by (auto simp: in_frame_def data_opcode_def opcode_defs)
  then have o: "opcode (ws wsi) \<noteq> 8" "opcode (ws wsi) \<noteq> 9" "opcode (ws wsi) \<noteq> 10" by auto
  obtain k0 k1 k2 k3 where k: "key = [k0, k1, k2, k3]" using list_four [OF assms(2)] by blast
  obtain m0 m1 m2 m3 where m: "ws_mask (ws wsi) = [m0, m1, m2, m3]" using list_four [OF calmD(10) [OF c]] by blast
  show ?thesis
    using w calmD [OF c] c assms(3) o
    by (simp add: k m rx_step rx_frame_key_def set_key_def idle_def in_frame_def message_open_def rx_spill_def rx_deliver_def
        rx_data_def rx_check_text_def nul_terminate_def hand_over_def call_user_def already_done_def data_opcode_def opcode_defs)
qed

text \<open>The header of a frame of a client, up to its key.\<close>

definition client_header :: "bool \<Rightarrow> byte \<Rightarrow> byte list \<Rightarrow> nat \<Rightarrow> byte list" where
  "client_header fin opc key n = frame_header (if fin then opc OR 0x80 else opc) 0x80 n @ key"

lemma frame_header_cons: "frame_header b0 m n = b0 # tl (frame_header b0 m n)"
  by (simp add: frame_header_def Let_def)

lemma takes_until_key:
  assumes "idle opn wsi" and "legal_opcode opn opc" and "n < 2 ^ 63"
  shows "\<exists>w0 w. takes cb wsi (frame_header (if fin then opc OR 0x80 else opc) 0x80 n) = Some w \<and> has_length (\<not> fin) n w0 w \<and>
     all_zero_nonce (ws w) \<and> delivered w = delivered wsi"
proof -
  let ?b = "if fin then opc OR 0x80 else opc"
  obtain w0 where w0: "takes cb wsi [?b] = Some w0" "in_frame (\<not> fin) w0" "lws_rx_parse_state w0 = LWS_RXPS_04_FRAME_HDR_LEN"
    "all_zero_nonce (ws w0)" "delivered w0 = delivered wsi" using takes_hdr_1 [OF assms(1,2)] by blast
  obtain w where w: "takes cb w0 (tl (frame_header ?b 0x80 n)) = Some w" "has_length (\<not> fin) n w0 w"
    using takes_length [OF w0(2,3) assms(3)] by blast
  have "takes cb wsi ([?b] @ tl (frame_header ?b 0x80 n)) = Some w" by (rule takes_append [OF w0(1,5) w(1)])
  then have "takes cb wsi (frame_header ?b 0x80 n) = Some w" using frame_header_cons [of ?b "0x80" n] by simp
  then show ?thesis using w(2) w0(4,5) by (auto simp: has_length_def)
qed

lemma takes_header:
  assumes "idle opn wsi" and "legal_opcode opn opc" and "n < 2 ^ 63" and "length key = 4"
  shows "0 < n \<Longrightarrow> \<exists>w. takes cb wsi (client_header fin opc key n) = Some w \<and> has_payload (\<not> fin) key 0 n w \<and> delivered w = delivered wsi"
    and "n = 0 \<Longrightarrow> cb WS_RECEIVE [] = 0 \<Longrightarrow> \<exists>w. takes cb wsi (client_header fin opc key n) = Some w \<and> idle (\<not> fin) w \<and>
      delivered w = delivered wsi @ [(WS_RECEIVE, [])]"
proof -
  obtain w0 w where w: "takes cb wsi (frame_header (if fin then opc OR 0x80 else opc) 0x80 n) = Some w"
    "has_length (\<not> fin) n w0 w" "all_zero_nonce (ws w)" "delivered w = delivered wsi"
    using takes_until_key [OF assms(1-3)] by blast
  { assume "0 < n"
    from takes_key_payload [OF w(2,3) assms(4) this assms(3), of cb] w(4) obtain w' where
      "takes cb w key = Some w'" "has_payload (\<not> fin) key 0 n w'" "delivered w' = delivered wsi" by auto
    with takes_append [OF w(1,4)]
    show "\<exists>w. takes cb wsi (client_header fin opc key n) = Some w \<and> has_payload (\<not> fin) key 0 n w \<and> delivered w = delivered wsi"
      unfolding client_header_def by blast }
  { assume "n = 0" "cb WS_RECEIVE [] = 0"
    from takes_key_empty [of "\<not> fin" w0 w key cb, OF w(2) [unfolded this(1)] assms(4) this(2)] w(4) obtain w' where
      "takes cb w key = Some w'" "idle (\<not> fin) w'" "delivered w' = delivered wsi @ [(WS_RECEIVE, [])]" by auto
    with takes_append [OF w(1,4)]
    show "\<exists>w. takes cb wsi (client_header fin opc key n) = Some w \<and> idle (\<not> fin) w \<and>
      delivered w = delivered wsi @ [(WS_RECEIVE, [])]"
      unfolding client_header_def by blast }
qed

section \<open>Payload in bulk\<close>

definition unmask_at :: "byte list \<Rightarrow> nat \<Rightarrow> byte list \<Rightarrow> byte list" where
  "unmask_at key i bs = map (\<lambda>j. bs ! j XOR key ! ((i + j) mod 4)) [0..<length bs]"

lemma length_unmask_at [simp]: "length (unmask_at key i bs) = length bs"
  by (simp add: unmask_at_def)

lemma unmask_at_append: "unmask_at key i (a @ b) = unmask_at key i a @ unmask_at key (i + length a) b"
  by (rule nth_equalityI) (auto simp: unmask_at_def nth_append)

lemma unmask_at_0: "unmask_at key 0 bs = unmask key bs"
  by (simp add: unmask_at_def unmask_def)

lemma unmask_at_zero: "unmask_at [0, 0, 0, 0] i bs = bs"
proof (rule nth_equalityI)
  fix j assume "j < length (unmask_at [0, 0, 0, 0] i bs)"
  moreover have "(i + j) mod 4 = 0 \<or> (i + j) mod 4 = 1 \<or> (i + j) mod 4 = 2 \<or> (i + j) mod 4 = 3" by linarith
  ultimately show "unmask_at [0, 0, 0, 0] i bs ! j = bs ! j" by (auto simp: unmask_at_def)
qed simp

lemma unmask_four:
  "unmask key ([a, b, c, d] @ x) = (a XOR key ! 0) # (b XOR key ! 1) # (c XOR key ! 2) # (d XOR key ! 3) # unmask key x"
proof -
  have l: "length [a, b, c, d] = 4" and u: "[0..<4] = [0, 1, 2, 3 :: nat]" by (simp_all add: upt_rec)
  have "unmask_at key 0 [a, b, c, d] = [a XOR key ! 0, b XOR key ! 1, c XOR key ! 2, d XOR key ! 3]"
    unfolding unmask_at_def l u by simp
  moreover have "unmask_at key 4 x = unmask_at key 0 x" by (simp add: unmask_at_def)
  ultimately show ?thesis using unmask_at_append [of key 0 "[a, b, c, d]" x] unfolding l by (simp add: unmask_at_0)
qed

lemma xor_quads_unmask:
  "4 * n \<le> length bs \<Longrightarrow> xor_quads n key bs = (unmask key (take (4 * n) bs), drop (4 * n) bs)"
proof (induction n key bs rule: xor_quads.induct)
  case (1 n key a b c d bs)
  have "take (4 * Suc n) (a # b # c # d # bs) = [a, b, c, d] @ take (4 * n) bs"
    by (simp add: take_Cons')
  with unmask_four [of key a b c d "take (4 * n) bs"] show ?case using 1 by (simp add: drop_Cons')
qed (auto simp: unmask_def drop_Cons')

lemma xor_bulk_unmask:
  assumes "length key = 4"
  shows "xor_bulk key bs = unmask key bs"
proof -
  let ?q = "4 * (length bs div 4)"
  have "map2 (XOR) (drop ?q bs) (take (length bs mod 4) key) = unmask_at key ?q (drop ?q bs)"
  proof (rule nth_equalityI)
    have m: "length (drop ?q bs) = length bs mod 4" "length (take (length bs mod 4) key) = length bs mod 4"
      using assms by (simp_all add: minus_mult_div_eq_mod min_def less_imp_le)
    then show "length (map2 (XOR) (drop ?q bs) (take (length bs mod 4) key)) = length (unmask_at key ?q (drop ?q bs))" by simp
    fix j assume "j < length (map2 (XOR) (drop ?q bs) (take (length bs mod 4) key))"
    then have j: "j < length bs mod 4" using m by simp
    then have "j mod 4 = j" using mod_less_divisor [of 4 "length bs"] by (intro mod_less) linarith
    with j m show "map2 (XOR) (drop ?q bs) (take (length bs mod 4) key) ! j = unmask_at key ?q (drop ?q bs) ! j"
      by (simp add: unmask_at_def)
  qed
  moreover have "unmask key bs = unmask_at key 0 (take ?q bs) @ unmask_at key ?q (drop ?q bs)"
    using unmask_at_append [of key 0 "take ?q bs" "drop ?q bs"] by (simp add: unmask_at_0)
  ultimately show ?thesis
    using xor_quads_unmask [of "length bs div 4" bs key] by (simp add: xor_bulk_def unmask_at_0)
qed

lemma bulk_data_unmask:
  assumes "has_payload opn key i n wsi"
  shows "bulk_data a buf wsi = unmask_at key i (take a buf)"
proof (cases "key = [0, 0, 0, 0]")
  case True
  then show ?thesis using assms by (simp add: has_payload_def bulk_data_def unmask_at_zero)
next
  case False
  let ?k = "bulk_key (ws wsi)"
  have k: "length ?k = 4" "j < 4 \<Longrightarrow> ?k ! j = key ! ((i + j) mod 4)" for j
    using assms False by (simp_all add: bulk_key_def has_payload_def mod_simps)
  have "unmask ?k bs = unmask_at key i bs" for bs
    by (simp add: unmask_def unmask_at_def k(2) mod_simps)
  then show ?thesis using assms False by (simp add: has_payload_def bulk_data_def xor_bulk_unmask [OF k(1)])
qed

text \<open>An application that takes all data.\<close>

definition content :: "user_callback \<Rightarrow> bool" where
  "content cb \<longleftrightarrow> (\<forall>data. cb WS_RECEIVE data = 0)"

lemma contentD: "content cb \<Longrightarrow> cb WS_RECEIVE data = 0"
  by (simp add: content_def)

lemma in_frame_bulk: "has_payload opn key i n wsi \<Longrightarrow> bulk_ready wsi"
  by (simp add: has_payload_def in_frame_def data_opcode_def bulk_ready_def)

lemma bulk_step:
  assumes p: "has_payload opn key i n wsi" and "0 < n" and "buf \<noteq> []" and cb: "content cb"
  shows "\<exists>a w. 0 < a \<and> a \<le> n \<and> a \<le> length buf \<and> lws_ws_frame_rest_is_payload cb buf wsi = (int a, drop a buf, w) \<and>
     has_payload opn key (i + a) (n - a) w \<and> delivered w = delivered wsi @ [(WS_RECEIVE, unmask_at key i (take a buf))]"
proof -
  have c: "calm wsi" and l: "rx_packet_length (ws wsi) = of_nat n" "n < 2 ^ 63" using p by (simp_all add: has_payload_def in_frame_def)
  have len: "unat (rx_packet_length (ws wsi)) = n" using l by (simp add: unat_of_nat)
  define a where "a = bulk_avail buf wsi"
  have a: "0 < a" "a \<le> n" "a \<le> length buf"
    using assms(2,3) calmD(1) [OF c] by (auto simp: a_def bulk_avail_def len rx_ok_def)
  have sub: "(of_nat n :: u64) - of_nat a = of_nat (n - a)" using a(2) by (simp add: of_nat_diff)
  have small: "n - a < 2 ^ 63" using l(2) by linarith
  have idx: "unat (of_nat (k mod 4) :: byte) = k mod 4" for k
    by (simp add: unat_of_nat)
  define w where "w = (upd_ws (first_fragment_update (\<lambda>_. False)) (bulk_advance a wsi))
      \<lparr>delivered := delivered wsi @ [(WS_RECEIVE, unmask_at key i (take a buf))]\<rparr>"
  have r: "lws_ws_frame_rest_is_payload cb buf wsi = (int a, drop a buf, w)"
    using a(1) calmD [OF c]
    by (simp add: lws_ws_frame_rest_is_payload_def a_def [symmetric] bulk_data_unmask [OF p] bulk_check_text_def bulk_advance_def
        bulk_hand_over_def call_user_def contentD [OF cb] upd_ws_def w_def)
  have "calm w" using c calmD [OF c] by (simp add: w_def bulk_advance_def upd_ws_def)
  with small have "has_payload opn key (i + a) (n - a) w"
    using p by (simp add: has_payload_def in_frame_def message_open_def w_def bulk_advance_def upd_ws_def sub idx mod_simps)
  with r a show ?thesis by (auto simp: w_def)
qed

section \<open>What the application is owed\<close>

text \<open>A piece handed over is the start of what is left of the current message part, and completes it
  when it is all of it.\<close>

fun hand :: "byte list \<Rightarrow> byte list list \<Rightarrow> byte list list option" where
  "hand x [] = None"
| "hand x (p # ps) =
     (if x = p then Some ps else if x \<noteq> [] \<and> take (length x) p = x then Some (drop (length x) p # ps) else None)"

fun hand_all :: "byte list list \<Rightarrow> byte list list \<Rightarrow> byte list list option" where
  "hand_all [] ps = Some ps"
| "hand_all (x # xs) ps = Option.bind (hand x ps) (hand_all xs)"

lemma hand_all_append: "hand_all (xs @ ys) ps = Option.bind (hand_all xs ps) (hand_all ys)"
proof (induction xs arbitrary: ps)
  case (Cons x xs)
  then show ?case by (cases "hand x ps") simp_all
qed simp

lemma unmask_at_take: "take k (unmask_at key i t) = unmask_at key i (take k t)"
proof -
  have "unmask_at key i t = unmask_at key i (take k t) @ unmask_at key (i + length (take k t)) (drop k t)"
    using unmask_at_append [of key i "take k t" "drop k t"] by simp
  then show ?thesis by (cases "k \<le> length t") simp_all
qed

lemma unmask_at_drop: "k \<le> length t \<Longrightarrow> drop k (unmask_at key i t) = unmask_at key (i + k) (drop k t)"
  using unmask_at_append [of key i "take k t" "drop k t"] by simp

text \<open>Bytes that are in the piece of input being processed.\<close>

definition left_over :: "byte list \<Rightarrow> nat \<Rightarrow> byte list \<Rightarrow> nat \<Rightarrow> byte list list \<Rightarrow> byte list list" where
  "left_over key i t k ps = (if length t \<le> k then ps else unmask_at key (i + k) (drop k t) # ps)"

lemma bulk_loop_done:
  "has_payload opn key i 0 wsi \<Longrightarrow> bulk_loop cb True buf wsi = (True, 0, buf, wsi)"
  by (subst bulk_loop.simps)
    (simp add: lws_ws_frame_rest_is_payload_def bulk_avail_def has_payload_def)

lemma bulk_loop_payload:
  assumes "has_payload opn key i (length t) wsi" and "t \<noteq> []" and "buf \<noteq> []" and "take (length t) buf = take (length buf) t"
    and cb: "content cb"
  shows "\<exists>w pieces. bulk_loop cb bulk buf wsi = (True, 0, drop (length t) buf, w) \<and>
     has_payload opn key (i + min (length t) (length buf)) (length t - length buf) w \<and>
     delivered w = delivered wsi @ map (Pair WS_RECEIVE) pieces \<and>
     hand_all pieces (unmask_at key i t # ps) = Some (left_over key i t (length buf) ps)"
  using assms(1-4)
proof (induction "length buf" arbitrary: i t wsi buf bulk rule: less_induct)
  case less
  obtain a w where a: "0 < a" "a \<le> length t" "a \<le> length buf"
    and r: "lws_ws_frame_rest_is_payload cb buf wsi = (int a, drop a buf, w)"
    and w: "has_payload opn key (i + a) (length (drop a t)) w"
    and d: "delivered w = delivered wsi @ [(WS_RECEIVE, unmask_at key i (take a buf))]"
    using bulk_step [OF less.prems(1) _ less.prems(3) cb] less.prems(2) by auto
  have loop: "bulk_loop cb bulk buf wsi = bulk_loop cb True (drop a buf) w"
    using in_frame_bulk [OF less.prems(1)] less.prems(3) a(1) by (subst bulk_loop.simps) (simp add: r)
  have ta: "take a buf = take a t"
    using arg_cong [OF less.prems(4), of "take a"] a by simp
  show ?case
  proof (cases "a = length t")
    case True
    with bulk_loop_done w have "bulk_loop cb bulk buf wsi = (True, 0, drop (length t) buf, w)" unfolding loop by simp
    then show ?thesis using True d w a ta by (intro exI [of _ w] exI [of _ "[unmask_at key i t]"]) (simp add: left_over_def)
  next
    case False
    have h: "hand (unmask_at key i (take a buf)) (unmask_at key i t # ps) = Some (unmask_at key (i + a) (drop a t) # ps)"
    proof -
      have "length (take a t) = a" using a by simp
      moreover have "unmask_at key i (take a t) \<noteq> unmask_at key i t" "unmask_at key i (take a t) \<noteq> []"
        using False a by (auto dest: arg_cong [of _ _ length])
      ultimately show ?thesis using a unfolding ta by (simp add: unmask_at_take unmask_at_drop)
    qed
    show ?thesis
    proof (cases "a = length buf")
      case last: True
      have "bulk_loop cb bulk buf wsi = (True, 0, [], w)" unfolding loop using last by (subst bulk_loop.simps) simp
      then show ?thesis using last d w a h False
        by (intro exI [of _ w] exI [of _ "[unmask_at key i (take a buf)]"]) (auto simp: left_over_def)
    next
      case more: False
      have l: "length (drop a buf) < length buf" "drop a t \<noteq> []" "drop a buf \<noteq> []" using a False more by auto
      have "take (length (drop a t)) (drop a buf) = take (length (drop a buf)) (drop a t)"
        using arg_cong [OF less.prems(4), of "drop a"] a by (simp add: drop_take)
      from less.hyps [OF l(1) w l(2,3) this] obtain w' pieces where
        b: "bulk_loop cb True (drop a buf) w = (True, 0, drop (length (drop a t)) (drop a buf), w')"
        and p: "has_payload opn key (i + a + min (length (drop a t)) (length (drop a buf))) (length (drop a t) - length (drop a buf)) w'"
        "delivered w' = delivered w @ map (Pair WS_RECEIVE) pieces"
        "hand_all pieces (unmask_at key (i + a) (drop a t) # ps) = Some (left_over key (i + a) (drop a t) (length (drop a buf)) ps)"
        by blast
      have "left_over key (i + a) (drop a t) (length (drop a buf)) ps = left_over key i t (length buf) ps"
        using a by (auto simp: left_over_def)
      moreover have e: "i + a + min (length (drop a t)) (length (drop a buf)) = i + min (length t) (length buf)"
        "length (drop a t) - length (drop a buf) = length t - length buf" using a by auto
      ultimately show ?thesis using b p(1) [unfolded e] p(2,3) d h a unfolding loop
        by (intro exI [of _ w'] exI [of _ "unmask_at key i (take a buf) # pieces"]) simp
    qed
  qed
qed

text \<open>The call of the state machine that ends a round of the bulk path.\<close>

lemma after_bulk_idle:
  assumes "has_payload opn key i 0 wsi"
  shows "\<exists>w. lws_ws_rx_sm cb (ALREADY_PROCESSED_IGNORE_CHAR OR ALREADY_PROCESSED_NO_CB) 0 wsi = Inr (0, w) \<and> idle opn w \<and>
     delivered w = delivered wsi"
proof -
  have c: "calm wsi" and p: "in_frame opn wsi" "lws_rx_parse_state wsi = LWS_RXPS_WS_FRAME_PAYLOAD" "rx_packet_length (ws wsi) = 0"
    using assms by (simp_all add: has_payload_def in_frame_def)
  have m: "rx_ubuf (ws wsi) \<noteq> None" "ws_pre < rx_ubuf_alloc (ws wsi)"
    using calmD(1) [OF c] by (auto simp: rx_ok_def rx_mem_def)
  have "opcode (ws wsi) \<in> {0, 1, 2}" using p(1) by (auto simp: in_frame_def data_opcode_def opcode_defs)
  then have o: "opcode (ws wsi) \<noteq> 8" "opcode (ws wsi) \<noteq> 9" "opcode (ws wsi) \<noteq> 10" by auto
  show ?thesis
    using c p m o calmD [OF c]
    by (simp add: rx_step rx_payload_def assert_that_def idle_def in_frame_def message_open_def rx_spill_def rx_deliver_def
        rx_data_def rx_check_text_def nul_terminate_def hand_over_def already_done_def data_opcode_def opcode_defs
        ALREADY_PROCESSED_IGNORE_CHAR_def ALREADY_PROCESSED_NO_CB_def)
qed

lemma after_bulk_more:
  assumes "has_payload opn key i n wsi" and "0 < n"
  shows "lws_ws_rx_sm cb (ALREADY_PROCESSED_IGNORE_CHAR OR ALREADY_PROCESSED_NO_CB) 0 wsi = Inr (0, wsi)"
proof -
  have c: "calm wsi" and p: "lws_rx_parse_state wsi = LWS_RXPS_WS_FRAME_PAYLOAD" "rx_packet_length (ws wsi) \<noteq> 0"
    using assms by (simp_all add: has_payload_def in_frame_def of_nat_zero)
  have m: "rx_ubuf (ws wsi) \<noteq> None" "ws_pre < rx_ubuf_alloc (ws wsi)" "0 < buffer_size wsi"
    using calmD(1) [OF c] by (auto simp: rx_ok_def rx_mem_def)
  show ?thesis
    using c p m calmD [OF c]
    by (simp add: rx_step rx_payload_def assert_that_def ALREADY_PROCESSED_IGNORE_CHAR_def ALREADY_PROCESSED_NO_CB_def)
qed

section \<open>A piece of input\<close>

definition consumes :: "user_callback \<Rightarrow> lws \<Rightarrow> byte list \<Rightarrow> lws \<Rightarrow> bool" where
  "consumes cb wsi buf wsi' \<longleftrightarrow>
     (\<exists>fuel. \<forall>malloc in_head bufin. parse_loop fuel cb malloc in_head bufin buf wsi = Some (Inr (0, [], wsi')))"

lemma consumes_nil: "consumes cb wsi [] wsi"
  unfolding consumes_def by (rule exI [of _ 1]) simp

lemma consumes_byte:
  assumes "\<not> bulk_ready wsi" and "rxflow_bitmap wsi = 0" and "lws_ws_rx_sm cb 0 c wsi = Inr (0, w)" and "consumes cb w buf wsi'"
  shows "consumes cb wsi (c # buf) wsi'"
proof -
  obtain fuel where "\<forall>malloc in_head bufin. parse_loop fuel cb malloc in_head bufin buf w = Some (Inr (0, [], wsi'))"
    using assms(4) by (auto simp: consumes_def)
  moreover have "bulk_loop cb False (c # buf) wsi = (False, 0, c # buf, wsi)" using assms(1) by (simp add: bulk_loop.simps)
  ultimately show ?thesis unfolding consumes_def by (intro exI [of _ "Suc fuel"]) (simp add: assms(2,3))
qed

lemma consumes_takes:
  "takes cb wsi h = Some w \<Longrightarrow> consumes cb w buf wsi' \<Longrightarrow> consumes cb wsi (h @ buf) wsi'"
proof (induction h arbitrary: wsi)
  case (Cons c h)
  then show ?case by (auto intro!: consumes_byte split: if_splits sum.splits)
qed simp

lemma consumes_bulk:
  assumes "rxflow_bitmap wsi = 0" and "buf \<noteq> []" and "bulk_loop cb False buf wsi = (True, 0, b, w)"
    and "lws_ws_rx_sm cb (ALREADY_PROCESSED_IGNORE_CHAR OR ALREADY_PROCESSED_NO_CB) 0 w = Inr (0, w')" and "consumes cb w' b wsi'"
  shows "consumes cb wsi buf wsi'"
proof -
  obtain fuel where "\<forall>malloc in_head bufin. parse_loop fuel cb malloc in_head bufin b w' = Some (Inr (0, [], wsi'))"
    using assms(5) by (auto simp: consumes_def)
  then show ?thesis unfolding consumes_def using assms(1-4) by (intro exI [of _ "Suc fuel"]) simp
qed

lemma parse_loop_more: "parse_loop n cb malloc in_head bufin buf wsi = Some r \<Longrightarrow> n \<le> m \<Longrightarrow> parse_loop m cb malloc in_head bufin buf wsi = Some r"
proof (induction n arbitrary: m buf wsi)
  case (Suc n)
  then obtain m' where "m = Suc m'" "n \<le> m'" by (cases m) auto
  with Suc show ?case by (auto simp: Let_def split: if_splits prod.splits sum.splits)
qed simp

lemma consumes_parse:
  assumes "consumes cb wsi buf wsi'" and "rx_ok wsi"
  shows "lws_parse_ws cb malloc in_head buf wsi = Some (Inr (0, [], wsi'))"
proof -
  obtain fuel where "parse_loop fuel cb malloc in_head buf buf wsi = Some (Inr (0, [], wsi'))"
    using assms(1) by (auto simp: consumes_def)
  moreover obtain x where x: "parse_loop (2 * length buf + 2) cb malloc in_head buf buf wsi = Some x"
    using lws_parse_ws_ok [OF assms(2), of cb malloc in_head buf] by (auto simp: lws_parse_ws_def)
  ultimately have "Some (Inr (0, [], wsi')) = Some x"
    using parse_loop_more [of fuel cb malloc in_head buf buf wsi _ "max fuel (2 * length buf + 2)"]
      parse_loop_more [of "2 * length buf + 2" cb malloc in_head buf buf wsi _ "max fuel (2 * length buf + 2)"] by simp
  with x show ?thesis by (simp add: lws_parse_ws_def)
qed

section \<open>The stream of a client\<close>

type_synonym client_frame = "bool \<times> byte \<times> byte list \<times> byte list"

fun frame_bytes :: "client_frame \<Rightarrow> byte list" where
  "frame_bytes (fin, opc, key, b) = ws_frame (Some key) fin opc b"

fun frame_payload :: "client_frame \<Rightarrow> byte list" where
  "frame_payload (fin, opc, key, b) = b"

text \<open>Messages of text or bytes, whole or in fragments.\<close>

fun legal_frames :: "bool \<Rightarrow> client_frame list \<Rightarrow> bool" where
  "legal_frames opn [] = True"
| "legal_frames opn ((fin, opc, key, b) # fs) \<longleftrightarrow>
     legal_opcode opn opc \<and> length key = 4 \<and> length b < 2 ^ 63 \<and> legal_frames (\<not> fin) fs"

lemma frame_bytes_header: "frame_bytes (fin, opc, key, b) = client_header fin opc key (length b) @ fst (mask_payload key 0 b)"
  by (simp add: ws_frame_def client_header_def Let_def)

text \<open>What a connection still owes the application when the rest of the stream is known.\<close>

inductive owes :: "user_callback \<Rightarrow> lws \<Rightarrow> byte list \<Rightarrow> byte list list \<Rightarrow> bool" for cb where
  between: "idle opn wsi \<Longrightarrow> legal_frames opn fs \<Longrightarrow> owes cb wsi (concat (map frame_bytes fs)) (map frame_payload fs)"
| in_header: "idle opn w0 \<Longrightarrow> legal_frames opn ((fin, opc, key, b) # fs) \<Longrightarrow> takes cb w0 h = Some wsi \<Longrightarrow>
     delivered wsi = delivered w0 \<Longrightarrow> h @ t = client_header fin opc key (length b) \<Longrightarrow> t \<noteq> [] \<Longrightarrow>
     owes cb wsi (t @ fst (mask_payload key 0 b) @ concat (map frame_bytes fs)) (b # map frame_payload fs)"
| in_payload: "has_payload opn key i (length t) wsi \<Longrightarrow> t \<noteq> [] \<Longrightarrow> legal_frames opn fs \<Longrightarrow>
     owes cb wsi (t @ concat (map frame_bytes fs)) (unmask_at key i t # map frame_payload fs)"

lemma append_longer: "a @ b = c @ d \<Longrightarrow> length c \<le> length a \<Longrightarrow> \<exists>x. a = c @ x \<and> x @ b = d"
  by (auto simp: append_eq_append_conv2)

lemma append_shorter: "a @ b = c @ d \<Longrightarrow> length a < length c \<Longrightarrow> c = a @ drop (length a) c \<and> b = drop (length a) c @ d"
  by (auto simp: append_eq_append_conv2)

text \<open>Processing a start of the stream.\<close>

definition moves :: "user_callback \<Rightarrow> lws \<Rightarrow> byte list list \<Rightarrow> byte list \<Rightarrow> lws \<Rightarrow> byte list \<Rightarrow> byte list list \<Rightarrow> bool" where
  "moves cb wsi ps buf w rest ps' \<longleftrightarrow> consumes cb wsi buf w \<and> owes cb w rest ps' \<and>
     (\<exists>pieces. delivered w = delivered wsi @ map (Pair WS_RECEIVE) pieces \<and> hand_all pieces ps = Some ps')"

lemma moves_trans:
  assumes "delivered w1 = delivered wsi @ map (Pair WS_RECEIVE) xs" and "hand_all xs ps = Some ps1"
    and "moves cb w1 ps1 buf w rest ps'" and "consumes cb w1 buf w \<Longrightarrow> consumes cb wsi buf' w"
  shows "moves cb wsi ps buf' w rest ps'"
proof -
  from assms(3) obtain ys where "delivered w = delivered w1 @ map (Pair WS_RECEIVE) ys" "hand_all ys ps1 = Some ps'"
    "consumes cb w1 buf w" "owes cb w rest ps'" by (auto simp: moves_def)
  then show ?thesis unfolding moves_def using assms(1,2,4) by (intro conjI exI [of _ "xs @ ys"]) (simp_all add: hand_all_append)
qed

text \<open>From the beginning of a frame to its payload, or past it when it has none.\<close>

lemma header_done:
  assumes "idle opn w0" and "legal_frames opn ((fin, opc, key, b) # fs)" and "content cb"
  shows "\<exists>w xs ps'. takes cb w0 (client_header fin opc key (length b)) = Some w \<and>
     delivered w = delivered w0 @ map (Pair WS_RECEIVE) xs \<and> hand_all xs (b # map frame_payload fs) = Some ps' \<and>
     owes cb w (fst (mask_payload key 0 b) @ concat (map frame_bytes fs)) ps'"
proof -
  have l: "legal_opcode opn opc" "length key = 4" "length b < 2 ^ 63" "legal_frames (\<not> fin) fs" using assms(2) by simp_all
  show ?thesis
  proof (cases "b = []")
    case True
    from takes_header(2) [OF assms(1) l(1,3,2), of cb fin] contentD [OF assms(3)] True obtain w where
      w: "takes cb w0 (client_header fin opc key (length b)) = Some w" "idle (\<not> fin) w"
        "delivered w = delivered w0 @ [(WS_RECEIVE, [])]" by auto
    show ?thesis
      by (rule exI [of _ w], rule exI [of _ "[[]]"], rule exI [of _ "map frame_payload fs"])
        (use w owes.between [OF w(2) l(4), of cb] True in simp)
  next
    case False
    from takes_header(1) [OF assms(1) l(1,3,2), of cb fin] False obtain w where
      w: "takes cb w0 (client_header fin opc key (length b)) = Some w" "has_payload (\<not> fin) key 0 (length b) w"
        "delivered w = delivered w0" by auto
    let ?m = "fst (mask_payload key 0 b)"
    have m: "length ?m = length b" "unmask_at key 0 ?m = b" by (simp_all add: mask_payload_nth(1) unmask_at_0 unmask_mask)
    have o: "owes cb w (?m @ concat (map frame_bytes fs)) (unmask_at key 0 ?m # map frame_payload fs)"
      using w(2) m(1) False l(4) by (intro owes.in_payload) auto
    show ?thesis
      by (rule exI [of _ w], rule exI [of _ "[]"], rule exI [of _ "b # map frame_payload fs"]) (use w m(2) o in simp)
  qed
qed

lemma owes_header_step:
  assumes "idle opn w0" and "legal_frames opn ((fin, opc, key, b) # fs)" and h: "takes cb w0 h = Some wsi" "delivered wsi = delivered w0"
    and t: "h @ t = client_header fin opc key (length b)" "t \<noteq> []"
    and buf: "buf @ rest = t @ fst (mask_payload key 0 b) @ concat (map frame_bytes fs)" and cb: "content cb"
    and IH: "\<And>buf' w ps. length buf' < length buf \<Longrightarrow> owes cb w (buf' @ rest) ps \<Longrightarrow> \<exists>w' ps'. moves cb w ps buf' w' rest ps'"
  shows "\<exists>w ps'. moves cb wsi (b # map frame_payload fs) buf w rest ps'"
proof -
  obtain wh xs ps1 where wh: "takes cb w0 (h @ t) = Some wh" "delivered wh = delivered w0 @ map (Pair WS_RECEIVE) xs"
    "hand_all xs (b # map frame_payload fs) = Some ps1" "owes cb wh (fst (mask_payload key 0 b) @ concat (map frame_bytes fs)) ps1"
    using header_done [OF assms(1,2) cb] unfolding t(1) [symmetric] by blast
  have wt: "takes cb wsi t = Some wh" using takes_prefix [OF wh(1) t(2)] h(1) by simp
  show ?thesis
  proof (cases "length buf < length t")
    case True
    then have t': "t = buf @ drop (length buf) t" "drop (length buf) t \<noteq> []"
      and rest: "rest = drop (length buf) t @ fst (mask_payload key 0 b) @ concat (map frame_bytes fs)"
      using append_shorter [OF buf] by simp_all
    obtain w where w: "takes cb wsi buf = Some w" "delivered w = delivered wsi"
      using takes_prefix [of cb wsi buf "drop (length buf) t" wh] wt t' by auto
    have "owes cb w rest (b # map frame_payload fs)" unfolding rest
      by (rule owes.in_header [OF assms(1,2) takes_append [OF h w(1)] _ _ t'(2)]) (use w h t' t(1) in simp_all)
    moreover have "consumes cb wsi buf w" using consumes_takes [OF w(1) consumes_nil] by simp
    ultimately show ?thesis using w(2) unfolding moves_def by (metis append_Nil2 hand_all.simps(1) list.simps(8))
  next
    case False
    then obtain buf' where b': "buf = t @ buf'" "buf' @ rest = fst (mask_payload key 0 b) @ concat (map frame_bytes fs)"
      using append_longer [OF buf] by auto
    have "length buf' < length buf" using b' t(2) by simp
    from IH [OF this, of wh ps1] wh(4) b'(2) obtain w ps' where m: "moves cb wh ps1 buf' w rest ps'" by auto
    have "moves cb wsi (b # map frame_payload fs) buf w rest ps'"
      by (rule moves_trans [OF _ wh(3) m]) (use wh(2) h(2) b'(1) consumes_takes [OF wt] in simp_all)
    then show ?thesis by blast
  qed
qed

lemma owes_payload_step:
  assumes p: "has_payload opn key i (length t) wsi" "t \<noteq> []" and l: "legal_frames opn fs"
    and buf: "buf @ rest = t @ concat (map frame_bytes fs)" "buf \<noteq> []" and cb: "content cb"
    and IH: "\<And>buf' w ps. length buf' < length buf \<Longrightarrow> owes cb w (buf' @ rest) ps \<Longrightarrow> \<exists>w' ps'. moves cb w ps buf' w' rest ps'"
  shows "\<exists>w ps'. moves cb wsi (unmask_at key i t # map frame_payload fs) buf w rest ps'"
proof -
  have rx: "rxflow_bitmap wsi = 0" using p(1) calmD(2) by (simp add: has_payload_def in_frame_def)
  have "take (length t) buf = take (length buf) t"
    using arg_cong [OF buf(1), of "take (min (length t) (length buf))"] by (cases "length t \<le> length buf") (simp_all add: min_def)
  from bulk_loop_payload [OF p(1,2) buf(2) this cb, of False "map frame_payload fs"] obtain w xs where
    w: "bulk_loop cb False buf wsi = (True, 0, drop (length t) buf, w)"
      "has_payload opn key (i + min (length t) (length buf)) (length t - length buf) w"
      "delivered w = delivered wsi @ map (Pair WS_RECEIVE) xs"
      "hand_all xs (unmask_at key i t # map frame_payload fs) = Some (left_over key i t (length buf) (map frame_payload fs))" by blast
  show ?thesis
  proof (cases "length buf < length t")
    case True
    let ?t = "drop (length buf) t"
    have rest: "rest = ?t @ concat (map frame_bytes fs)" using arg_cong [OF buf(1), of "drop (length buf)"] True by simp
    have "owes cb w rest (unmask_at key (i + length buf) ?t # map frame_payload fs)" unfolding rest
      by (rule owes.in_payload [OF _ _ l]) (use w(2) True in \<open>simp_all add: min_def\<close>)
    moreover have "consumes cb wsi buf w"
      by (rule consumes_bulk [OF rx buf(2) w(1) after_bulk_more [OF w(2)]]) (use True consumes_nil in simp_all)
    ultimately show ?thesis using w(3,4) True unfolding moves_def left_over_def by auto
  next
    case False
    then obtain buf' where b': "buf = t @ buf'" "buf' @ rest = concat (map frame_bytes fs)"
      using append_longer [OF buf(1)] by auto
    have "length buf' < length buf" using b' p(2) by simp
    moreover have w0: "has_payload opn key (i + min (length t) (length buf)) 0 w" using w(2) False by simp
    from after_bulk_idle [OF this] obtain w' where w': "lws_ws_rx_sm cb (ALREADY_PROCESSED_IGNORE_CHAR OR ALREADY_PROCESSED_NO_CB) 0 w = Inr (0, w')"
      "idle opn w'" "delivered w' = delivered w" by blast
    ultimately obtain w2 ps' where m: "moves cb w' (map frame_payload fs) buf' w2 rest ps'"
      using IH owes.between [OF w'(2) l, of cb] b'(2) by metis
    have "moves cb wsi (unmask_at key i t # map frame_payload fs) buf w2 rest ps'"
      by (rule moves_trans [OF _ _ m])
        (use w(3,4) w'(3) False b'(1) consumes_bulk [OF rx buf(2) w(1) w'(1)] in \<open>simp_all add: left_over_def\<close>)
    then show ?thesis by blast
  qed
qed

lemma owes_step:
  assumes "owes cb wsi (buf @ rest) ps" and "content cb"
  shows "\<exists>w ps'. moves cb wsi ps buf w rest ps'"
  using assms(1)
proof (induction "length buf" arbitrary: buf wsi ps rule: less_induct)
  case less
  show ?case
  proof (cases "buf = []")
    case True
    then show ?thesis using less.prems consumes_nil unfolding moves_def by (metis append_Nil append_Nil2 hand_all.simps(1) list.simps(8))
  next
    case False
    from less.prems show ?thesis
    proof cases
      case (between opn fs)
      then obtain fin opc key b fs' where fs: "fs = (fin, opc, key, b) # fs'" using False by (cases fs) auto
      have h: "client_header fin opc key (length b) \<noteq> []" by (simp add: client_header_def)
      have l: "legal_frames opn ((fin, opc, key, b) # fs')" using between(4) fs by simp
      have e: "buf @ rest = client_header fin opc key (length b) @ fst (mask_payload key 0 b) @ concat (map frame_bytes fs')"
        using between(1) fs by (simp add: frame_bytes_header del: frame_bytes.simps)
      have "takes cb wsi [] = Some wsi" by simp
      from owes_header_step [OF between(3) l this refl _ h e assms(2) less.hyps] between(2) fs show ?thesis by simp
    next
      case (in_header opn w0 fin opc key b fs h t)
      from owes_header_step [OF in_header(3-8) _ assms(2) less.hyps] in_header(1,2) show ?thesis by simp
    next
      case (in_payload opn key i t fs)
      from owes_payload_step [OF in_payload(3-5) _ False assms(2) less.hyps] in_payload(1,2) show ?thesis by simp
    qed
  qed
qed

lemma takes_ok: "takes cb wsi h = Some w \<Longrightarrow> rx_ok wsi \<Longrightarrow> rx_ok w"
proof (induction h arbitrary: wsi)
  case (Cons c h)
  from Cons.prems(1) obtain w' where "lws_ws_rx_sm cb 0 c wsi = Inr (0, w')" "takes cb w' h = Some w"
    unfolding takes_step by blast
  with rx_sm_ok [OF Cons.prems(2), of cb 0 c] Cons.IH show ?case by (auto simp: result_ok_def)
qed simp

lemma owes_ok: "owes cb wsi t ps \<Longrightarrow> rx_ok wsi"
  by (induction rule: owes.induct) (auto simp: idle_def has_payload_def in_frame_def intro: calmD(1) takes_ok)

lemma owes_end: "owes cb wsi t ps \<Longrightarrow> t = [] \<Longrightarrow> ps = []"
proof (induction rule: owes.induct)
  case (between opn wsi fs)
  then show ?case
  proof (cases fs)
    case (Cons f fs')
    obtain fin opc key b where "f = (fin, opc, key, b)" by (metis prod_cases4)
    with between(3) Cons show ?thesis by (simp add: frame_bytes_header client_header_def del: frame_bytes.simps)
  qed simp
qed simp_all

lemma receive_owed:
  assumes "owes cb wsi (concat chunks) ps" and "content cb"
  shows "\<exists>wsi' pieces. receive cb chunks wsi = Some (Inr (0, wsi')) \<and>
     delivered wsi' = delivered wsi @ map (Pair WS_RECEIVE) pieces \<and> hand_all pieces ps = Some []"
  using assms(1)
proof (induction chunks arbitrary: wsi ps)
  case Nil
  with owes_end [of cb wsi] show ?case by (intro exI [of _ wsi] exI [of _ "[]"]) simp
next
  case (Cons chunk chunks)
  then obtain w ps' xs where w: "consumes cb wsi chunk w" "owes cb w (concat chunks) ps'"
    "delivered w = delivered wsi @ map (Pair WS_RECEIVE) xs" "hand_all xs ps = Some ps'"
    using owes_step [of cb wsi chunk "concat chunks" ps] assms(2) by (auto simp: moves_def)
  from Cons.IH [OF w(2)] obtain w' ys where "receive cb chunks w = Some (Inr (0, w'))"
    "delivered w' = delivered w @ map (Pair WS_RECEIVE) ys" "hand_all ys ps' = Some []" by blast
  then show ?case using w(3,4) consumes_parse [OF w(1) owes_ok [OF Cons.prems]]
    by (intro exI [of _ w'] exI [of _ "xs @ ys"]) (simp add: hand_all_append)
qed

section \<open>Properties\<close>

text \<open>C7. What a client sends arrives: for every sequence of messages of text or bytes, whole or in
  fragments, each frame masked with a key of its own, and however the network cuts the stream into
  pieces, the server hands the application exactly the unmasked payloads, in order, every one of
  them in one or more pieces; nothing is refused and the connection stays open.\<close>

theorem messages_arrive:
  assumes "idle False wsi" and "legal_frames False fs" and "content cb" and "concat chunks = concat (map frame_bytes fs)"
  shows "\<exists>wsi' pieces. receive cb chunks wsi = Some (Inr (0, wsi')) \<and>
     delivered wsi' = delivered wsi @ map (Pair WS_RECEIVE) pieces \<and> hand_all pieces (map frame_payload fs) = Some []"
  using receive_owed [OF _ assms(3)] owes.between [OF assms(1,2), of cb] assms(4) by simp

theorem messages_arrive_witness:
  "\<exists>wsi' pieces. receive (\<lambda>_ _. 0) [[0x81, 0x82, 1], [2, 3, 4, 0x69], [0x6b, 0x82, 0x80, 0], [0, 0, 0]]
     (snd (lws_server_init_wsi_for_ws (\<lambda>_ _. 0) True True [] (upgraded_lws 0 64 0))) = Some (Inr (0, wsi')) \<and>
     delivered wsi' = (WS_ESTABLISHED, []) # map (Pair WS_RECEIVE) pieces \<and> hand_all pieces [[0x68, 0x69], []] = Some []"
proof -
  let ?wsi = "snd (lws_server_init_wsi_for_ws (\<lambda>_ _. 0) True True [] (upgraded_lws 0 64 0))"
  let ?fs = "[(True, LWSWSOPC_TEXT_FRAME, [1, 2, 3, 4], [0x68, 0x69]), (True, LWSWSOPC_BINARY_FRAME, [0, 0, 0, 0], [])] :: client_frame list"
  have i: "idle False ?wsi" "delivered ?wsi = [(WS_ESTABLISHED, [])]"
    by (simp_all add: lws_server_init_wsi_for_ws_def upgraded_lws_def zero_ws_def rx_ok_def rx_mem_def buffer_size_def Let_def
        call_user_def upd_ws_def idle_def calm_def message_open_def)
  have l: "legal_frames False ?fs" by (simp add: legal_opcode_def)
  have "content (\<lambda>_ _. 0)" by (simp add: content_def)
  moreover have "concat [[0x81, 0x82, 1], [2, 3, 4, 0x69], [0x6b, 0x82, 0x80, 0], [0, 0, 0]] = concat (map frame_bytes ?fs)"
    by (simp add: ws_frame_def frame_header_def opcode_defs Let_def)
  ultimately show ?thesis using messages_arrive [OF i(1) l] i(2) by fastforce
qed

end
