(* ===== verification/Lws_Base64.thy ===== *)
theory Lws_Base64
  imports Cpp_Prelude "HOL-Library.Code_Target_Nat"
begin

text \<open>
  Base64 as the library writes and reads it (\<^verbatim>\<open>src/foreign/libwebsockets/lib/misc/base64-decode.c\<close>).

  The bytes a function stores through its running pointer \<open>out\<close> are collected in order and stored
  into the caller's buffer when it returns; more bytes than the buffer has are undefined behaviour.
  The four bytes \<open>quad\<close> of the decoder are not initialised; a byte that was never set is \<open>None\<close>.
\<close>

unbundle bit_operations_syntax

section \<open>Encoding\<close>

definition encode_orig :: "byte list" where
  "encode_orig = bytes_of_string ''ABCDEFGHIJKLMNOPQRSTUVWXYZabcdefghijklmnopqrstuvwxyz0123456789+/''"

definition encode_url :: "byte list" where
  "encode_url = bytes_of_string ''ABCDEFGHIJKLMNOPQRSTUVWXYZabcdefghijklmnopqrstuvwxyz0123456789-_''"

definition pad :: byte where "pad = 0x3d"

text \<open>The four indices of six bits that three bytes make.\<close>

definition sextet0 :: "byte \<Rightarrow> byte" where "sextet0 a = drop_bit 2 a"
definition sextet1 :: "byte \<Rightarrow> byte \<Rightarrow> byte" where "sextet1 a b = push_bit 4 (a AND 0x03) OR drop_bit 4 (b AND 0xf0)"
definition sextet2 :: "byte \<Rightarrow> byte \<Rightarrow> byte" where "sextet2 b c = push_bit 2 (b AND 0x0f) OR drop_bit 6 (c AND 0xc0)"
definition sextet3 :: "byte \<Rightarrow> byte" where "sextet3 c = c AND 0x3f"

definition encode_triple :: "byte list \<Rightarrow> byte \<Rightarrow> byte \<Rightarrow> byte \<Rightarrow> nat \<Rightarrow> byte list" where
  "encode_triple encode a b c len =
     [encode ! unat (sextet0 a), encode ! unat (sextet1 a b),
      if len > 1 then encode ! unat (sextet2 b c) else pad, if len > 2 then encode ! unat (sextet3 c) else pad]"

text \<open>The loop over the input: whether it ran to the end, and the bytes written.\<close>

fun encode_loop :: "byte list \<Rightarrow> int \<Rightarrow> int \<Rightarrow> byte list \<Rightarrow> bool \<times> byte list" where
  "encode_loop encode out_size done [] = (True, [])"
| "encode_loop encode out_size done [a] =
     (if done + 4 \<ge> out_size then (False, []) else (True, encode_triple encode a 0 0 1))"
| "encode_loop encode out_size done [a, b] =
     (if done + 4 \<ge> out_size then (False, []) else (True, encode_triple encode a b 0 2))"
| "encode_loop encode out_size done (a # b # c # rest) =
     (if done + 4 \<ge> out_size then (False, [])
      else let (finished, written) = encode_loop encode out_size (done + 4) rest
           in (finished, encode_triple encode a b c 3 @ written))"

definition store :: "byte list \<Rightarrow> byte list \<Rightarrow> byte list res" where
  "store written out = (if length written \<le> length out then Inr (overwrite 0 written out) else Inl Undefined_behaviour)"

definition b64_encode :: "byte list \<Rightarrow> byte list \<Rightarrow> byte list \<Rightarrow> int \<Rightarrow> (int \<times> byte list) res" where
  "b64_encode encode inp out out_size =
     (let (finished, written) = encode_loop encode out_size 0 inp;
          ok = finished \<and> \<not> int (length written) + 1 \<ge> out_size;
          written = (if ok then written @ [0] else written)
      in bind_res (store written out) (\<lambda>out. Inr (if ok then int (length written) - 1 else - 1, out)))"

definition lws_b64_encode_string :: "byte list \<Rightarrow> byte list \<Rightarrow> int \<Rightarrow> (int \<times> byte list) res" where
  "lws_b64_encode_string = b64_encode encode_orig"

definition lws_b64_encode_string_url :: "byte list \<Rightarrow> byte list \<Rightarrow> int \<Rightarrow> (int \<times> byte list) res" where
  "lws_b64_encode_string_url = b64_encode encode_url"

section \<open>Decoding\<close>

definition decode_table :: "byte list" where
  "decode_table = bytes_of_string (''|$$$}rstuvwxyz{$$$$$$$>?@ABCDEFGHIJKLMNOPQRSTUVW$$$$$$XYZ['' @ [CHR 0x5C] @
     '']^_`abcdefghijklmnopq'')"

text \<open>A character, with the variant for URLs brought back to the other, and its value plus one, or 0.\<close>

definition plain_code :: "byte \<Rightarrow> byte" where
  "plain_code x = (let v = (if x = 0x2d then 0x2b else x) in if v = 0x5f then 0x2f else v)"

definition code_value :: "byte \<Rightarrow> byte" where
  "code_value c =
     (let v = (if c < 43 \<or> c > 122 then 0 else decode_table ! (unat c - 43))
      in if v \<noteq> 0 then (if v = 0x24 then 0 else v - 61) else v)"

text \<open>The inner loop: the last character read, its value, and the rest of the input.\<close>

fun next_code :: "byte \<Rightarrow> byte list \<Rightarrow> byte \<times> byte \<times> byte list" where
  "next_code c [] = (c, 0, [])"
| "next_code c (x # xs) =
     (let c = plain_code x; v = code_value c in if v \<noteq> 0 then (c, v, xs) else next_code c xs)"

text \<open>The loop over a group of four, from the index \<open>i\<close>.\<close>

fun read_group :: "nat \<Rightarrow> byte \<Rightarrow> nat \<Rightarrow> byte option list \<Rightarrow> byte list \<Rightarrow> byte \<times> nat \<times> byte option list \<times> byte list" where
  "read_group 0 c len quad src = (c, len, quad, src)"
| "read_group (Suc k) c len quad src =
     (if src = [] then (c, len, quad, src)
      else case next_code 0 src of (c, v, src) \<Rightarrow>
        read_group k c (if c \<noteq> 0 then len + 1 else len)
          (if c \<noteq> 0 then (if v \<noteq> 0 then quad[3 - k := Some (v - 1)] else quad) else quad[3 - k := Some 0]) src)"

definition quad_at :: "byte option list \<Rightarrow> nat \<Rightarrow> byte res" where
  "quad_at quad i = (case quad ! i of None \<Rightarrow> Inl Undefined_behaviour | Some q \<Rightarrow> Inr q)"

definition group_bytes :: "int \<Rightarrow> byte option list \<Rightarrow> byte list res" where
  "group_bytes len quad =
     bind_res (if len \<ge> 2 then bind_res (quad_at quad 0) (\<lambda>a. bind_res (quad_at quad 1) (\<lambda>b.
                 Inr [push_bit 2 a OR drop_bit 4 b])) else Inr []) (\<lambda>x.
     bind_res (if len \<ge> 3 then bind_res (quad_at quad 1) (\<lambda>a. bind_res (quad_at quad 2) (\<lambda>b.
                 Inr [push_bit 4 a OR drop_bit 2 b])) else Inr []) (\<lambda>y.
     bind_res (if len \<ge> 4 then bind_res (quad_at quad 2) (\<lambda>a. bind_res (quad_at quad 3) (\<lambda>b.
                 Inr [(push_bit 6 a AND 0xc0) OR b])) else Inr []) (\<lambda>z.
       Inr (x @ y @ z))))"

lemma next_code_shorter: "next_code c src = (c', v, src') \<Longrightarrow> length src' \<le> length src \<and> (src \<noteq> [] \<longrightarrow> length src' < length src)"
proof (induction src arbitrary: c)
  case (Cons x xs)
  show ?case
  proof (cases "code_value (plain_code x) = 0")
    case True
    with Cons.IH [of "plain_code x"] Cons.prems show ?thesis by (simp add: Let_def)
  next
    case False
    with Cons.prems show ?thesis by (simp add: Let_def)
  qed
qed simp

lemma read_group_shorter: "read_group k c len quad src = (c', len', quad', src') \<Longrightarrow> length src' \<le> length src"
proof (induction k arbitrary: c len quad src)
  case (Suc k)
  then show ?case
    using next_code_shorter [of 0 src] by (fastforce split: if_splits prod.splits)
qed simp

lemma read_group_less:
  assumes "read_group 4 c len quad src = (c', len', quad', src')" and "src \<noteq> []"
  shows "length src' < length src"
proof -
  obtain c1 v1 s1 where n: "next_code 0 src = (c1, v1, s1)" by (metis prod_cases3)
  have "4 = Suc 3" by simp
  with assms n have "\<exists>c len quad. read_group 3 c len quad s1 = (c', len', quad', src')"
    by (simp only: read_group.simps if_False prod.case) blast
  then show ?thesis using read_group_shorter next_code_shorter [OF n] assms(2) by fastforce
qed

text \<open>The outer loop; the result is \<open>None\<close> when the output is too small, with the bytes written and
  the count \<open>done\<close>.\<close>

function decode_loop :: "int \<Rightarrow> int \<Rightarrow> byte option list \<Rightarrow> byte list \<Rightarrow> (int option \<times> byte list) res" where
  "decode_loop out_size done quad src =
     (if src = [] then Inr (Some done, [])
      else case read_group 4 0 0 quad src of (c, len, quad, src') \<Rightarrow>
        if out_size < done + int len + 1 then Inr (None, [])
        else
          let len = (if src' = [] \<and> c = pad then int len - 1 else int len)
          in bind_res (group_bytes len quad) (\<lambda>bytes.
               bind_res (decode_loop out_size (done + len - 1) quad src') (\<lambda>(r, written). Inr (r, bytes @ written))))"
  by pat_completeness auto
termination
  by (relation "measure (\<lambda>(out_size, done, quad, src). length src)") (auto intro: read_group_less [OF sym])

declare decode_loop.simps [simp del]

text \<open>The input up to the end that \<open>in_len\<close> or the first NUL sets.\<close>

definition b64_decode :: "byte list \<Rightarrow> byte list \<Rightarrow> int \<Rightarrow> (int \<times> byte list) res" where
  "b64_decode src out out_size =
     bind_res (decode_loop out_size 0 [None, None, None, None] src) (\<lambda>(r, written).
       case r of
         None \<Rightarrow> bind_res (store written out) (\<lambda>out. Inr (- 1, out))
       | Some done \<Rightarrow>
           if done + 1 \<ge> out_size then bind_res (store written out) (\<lambda>out. Inr (- 1, out))
           else bind_res (store (written @ [0]) out) (\<lambda>out. Inr (done, out)))"

definition lws_b64_decode_string :: "byte list \<Rightarrow> byte list \<Rightarrow> int \<Rightarrow> (int \<times> byte list) res" where
  "lws_b64_decode_string inp out out_size =
     (if 0 \<in> set inp then b64_decode (takeWhile (\<lambda>x. x \<noteq> 0) inp) out out_size else Inl Undefined_behaviour)"

definition lws_b64_decode_string_len :: "byte list \<Rightarrow> nat \<Rightarrow> byte list \<Rightarrow> int \<Rightarrow> (int \<times> byte list) res" where
  "lws_b64_decode_string_len inp in_len out out_size =
     (if 0 \<in> set inp \<or> in_len \<le> length inp
      then b64_decode (takeWhile (\<lambda>x. x \<noteq> 0) (take in_len inp)) out out_size else Inl Undefined_behaviour)"

section \<open>Codes and their values\<close>

text \<open>The tables as numbers, for evaluation.\<close>

lemma tables_code [code]:
  "encode_orig =
    [65, 66, 67, 68, 69, 70, 71, 72, 73, 74, 75, 76, 77, 78, 79, 80, 81, 82, 83, 84, 85, 86, 87, 88, 89, 90, 97, 98,
     99, 100, 101, 102, 103, 104, 105, 106, 107, 108, 109, 110, 111, 112, 113, 114, 115, 116, 117, 118, 119, 120,
     121, 122, 48, 49, 50, 51, 52, 53, 54, 55, 56, 57, 43, 47]"
  "encode_url =
    [65, 66, 67, 68, 69, 70, 71, 72, 73, 74, 75, 76, 77, 78, 79, 80, 81, 82, 83, 84, 85, 86, 87, 88, 89, 90, 97, 98,
     99, 100, 101, 102, 103, 104, 105, 106, 107, 108, 109, 110, 111, 112, 113, 114, 115, 116, 117, 118, 119, 120,
     121, 122, 48, 49, 50, 51, 52, 53, 54, 55, 56, 57, 45, 95]"
  "decode_table =
    [124, 36, 36, 36, 125, 114, 115, 116, 117, 118, 119, 120, 121, 122, 123, 36, 36, 36, 36, 36, 36, 36, 62, 63, 64,
     65, 66, 67, 68, 69, 70, 71, 72, 73, 74, 75, 76, 77, 78, 79, 80, 81, 82, 83, 84, 85, 86, 87, 36, 36, 36, 36, 36,
     36, 88, 89, 90, 91, 92, 93, 94, 95, 96, 97, 98, 99, 100, 101, 102, 103, 104, 105, 106, 107, 108, 109, 110, 111,
     112, 113]"
  by code_simp+

definition alphabet :: "byte list \<Rightarrow> bool" where
  "alphabet encode \<longleftrightarrow> encode = encode_orig \<or> encode = encode_url"

lemma code_values:
  "map (\<lambda>x. code_value (plain_code x)) encode_orig = map of_nat [1..<65]"
  "map (\<lambda>x. code_value (plain_code x)) encode_url = map of_nat [1..<65]"
  by (simp_all add: tables_code code_value_def plain_code_def upt_rec)

lemma code_characters:
  "list_all (\<lambda>x. plain_code x \<noteq> 0 \<and> plain_code x \<noteq> pad \<and> x \<noteq> 0) encode_orig"
  "list_all (\<lambda>x. plain_code x \<noteq> 0 \<and> plain_code x \<noteq> pad \<and> x \<noteq> 0) encode_url"
  by (simp_all add: tables_code plain_code_def pad_def)

lemma codes_ok:
  assumes "alphabet encode" and "unat q < 64"
  shows "code_value (plain_code (encode ! unat q)) = q + 1" and "plain_code (encode ! unat q) \<noteq> 0"
    and "plain_code (encode ! unat q) \<noteq> pad" and "encode ! unat q \<noteq> 0" and "q + 1 \<noteq> 0"
proof -
  have len: "length encode = 64" using assms(1) by (auto simp: alphabet_def encode_orig_def encode_url_def)
  have "map (\<lambda>x. code_value (plain_code x)) encode = map of_nat [1..<65]" using assms(1) code_values by (auto simp: alphabet_def)
  from arg_cong [OF this, of "\<lambda>xs. xs ! unat q"] show "code_value (plain_code (encode ! unat q)) = q + 1"
    using assms(2) by (simp add: len)
  have "list_all (\<lambda>x. plain_code x \<noteq> 0 \<and> plain_code x \<noteq> pad \<and> x \<noteq> 0) encode"
    using assms(1) code_characters by (auto simp: alphabet_def)
  then show "plain_code (encode ! unat q) \<noteq> 0" "plain_code (encode ! unat q) \<noteq> pad" "encode ! unat q \<noteq> 0"
    using assms(2) len by (simp_all add: list_all_length)
  show "q + 1 \<noteq> 0"
  proof
    assume "q + 1 = 0"
    then have "q = 255" by (simp add: add_eq_0_iff2)
    then show False using assms(2) by simp
  qed
qed

lemma pad_code: "plain_code pad = pad" "code_value pad = 0" "pad \<noteq> 0"
  by code_simp+

lemma next_code_step:
  assumes "alphabet encode" and "unat q < 64"
  shows "next_code c (encode ! unat q # rest) = (plain_code (encode ! unat q), q + 1, rest)"
  using codes_ok [OF assms] by simp

lemma read_code:
  assumes "alphabet encode" and "unat q < 64"
  shows "read_group (Suc k) c len quad (encode ! unat q # rest) =
     read_group k (plain_code (encode ! unat q)) (len + 1) (quad[3 - k := Some q]) rest"
  using codes_ok [OF assms] by (simp add: next_code_step [OF assms] del: next_code.simps)

lemma four: "4 = Suc (Suc (Suc (Suc 0)))" by simp

lemma list_of_four: "length xs = 4 \<Longrightarrow> \<exists>a b c d. xs = [a, b, c, d]"
  unfolding four by (auto simp: length_Suc_conv)

lemma read_full:
  assumes e: "alphabet e" and q: "unat q0 < 64" "unat q1 < 64" "unat q2 < 64" "unat q3 < 64" and "length quad = 4"
  shows "read_group 4 c 0 quad (e ! unat q0 # e ! unat q1 # e ! unat q2 # e ! unat q3 # rest) =
     (plain_code (e ! unat q3), 4, [Some q0, Some q1, Some q2, Some q3], rest)"
proof -
  obtain x0 x1 x2 x3 where "quad = [x0, x1, x2, x3]" using list_of_four [OF assms(6)] by blast
  then show ?thesis unfolding four read_code [OF e q(1)] read_code [OF e q(2)] read_code [OF e q(3)] read_code [OF e q(4)]
    by (simp add: numeral_3_eq_3 numeral_2_eq_2)
qed

lemma read_two:
  assumes e: "alphabet e" and q: "unat q0 < 64" "unat q1 < 64" "unat q2 < 64" and "length quad = 4"
  shows "\<exists>x. read_group 4 c 0 quad [e ! unat q0, e ! unat q1, e ! unat q2, pad] = (pad, 4, [Some q0, Some q1, Some q2, x], [])"
proof -
  obtain x0 x1 x2 x3 where "quad = [x0, x1, x2, x3]" using list_of_four [OF assms(5)] by blast
  then show ?thesis unfolding four read_code [OF e q(1)] read_code [OF e q(2)] read_code [OF e q(3)]
    by (simp add: numeral_3_eq_3 numeral_2_eq_2 pad_code)
qed

lemma read_one:
  assumes e: "alphabet e" and q: "unat q0 < 64" "unat q1 < 64" and "length quad = 4"
  shows "\<exists>x y. read_group 4 c 0 quad [e ! unat q0, e ! unat q1, pad, pad] = (pad, 3, [Some q0, Some q1, x, y], [])"
proof -
  obtain x0 x1 x2 x3 where "quad = [x0, x1, x2, x3]" using list_of_four [OF assms(4)] by blast
  then show ?thesis unfolding four read_code [OF e q(1)] read_code [OF e q(2)]
    by (simp add: numeral_3_eq_3 numeral_2_eq_2 pad_code)
qed

text \<open>The six-bit pieces, and their reassembly.\<close>

lemma masks:
  "(x :: byte) AND 0x03 = take_bit 2 x" "x AND 0x0f = take_bit 4 x" "x AND 0x3f = take_bit 6 x"
  "x AND 0xf0 = push_bit 4 (drop_bit 4 x)" "x AND 0xc0 = push_bit 6 (drop_bit 6 x)"
proof -
  show "x AND 0x03 = take_bit 2 x" "x AND 0x0f = take_bit 4 x" "x AND 0x3f = take_bit 6 x"
    by (simp_all add: take_bit_eq_mask mask_eq_exp_minus_1)
  have m: "(0xf0 :: byte) = push_bit 4 (mask 4)" "(0xc0 :: byte) = push_bit 6 (mask 2)" by (simp_all add: mask_eq_exp_minus_1 push_bit_eq_mult)
  show "x AND 0xf0 = push_bit 4 (drop_bit 4 x)" "x AND 0xc0 = push_bit 6 (drop_bit 6 x)"
    unfolding m by (auto intro!: bit_eqI simp: bit_simps)
qed

lemma unat_six: "(\<And>n. bit x n \<Longrightarrow> n < 6) \<Longrightarrow> unat (x :: byte) < 64"
proof -
  assume "\<And>n. bit x n \<Longrightarrow> n < 6"
  then have "x = take_bit 6 x" by (auto intro!: bit_eqI simp: bit_simps)
  then have "unat x = unat x mod 2 ^ 6" by (metis take_bit_eq_mod unsigned_take_bit_eq)
  moreover have "unat x mod 2 ^ 6 < 2 ^ 6" by (rule mod_less_divisor) simp
  ultimately show ?thesis by simp
qed

lemma bit_byte: "bit (x :: byte) n \<Longrightarrow> n < 8"
  using bit_imp_le_length [of x n] by simp

lemma sextet_bounds: "unat (sextet0 a) < 64" "unat (sextet1 a b) < 64" "unat (sextet2 b c) < 64" "unat (sextet3 c) < 64"
proof -
  have "bit (drop_bit 2 a) n \<Longrightarrow> n < 6" for n using bit_byte [of a "2 + n"] by (simp add: bit_simps)
  then show "unat (sextet0 a) < 64" unfolding sextet0_def by (rule unat_six)
  show "unat (sextet1 a b) < 64" "unat (sextet2 b c) < 64" "unat (sextet3 c) < 64"
    unfolding sextet1_def sextet2_def sextet3_def masks by (auto intro!: unat_six simp: bit_simps dest: bit_byte)
qed

lemma sextets_join:
  "push_bit 2 (sextet0 a) OR drop_bit 4 (sextet1 a b) = a" "push_bit 4 (sextet1 a b) OR drop_bit 2 (sextet2 b c) = b"
  "(push_bit 6 (sextet2 b c) AND 0xc0) OR sextet3 c = c"
proof -
  have two: "2 \<le> n \<Longrightarrow> Suc (Suc (n - 2)) = n" for n by simp
  show "push_bit 2 (sextet0 a) OR drop_bit 4 (sextet1 a b) = a" "push_bit 4 (sextet1 a b) OR drop_bit 2 (sextet2 b c) = b"
    "(push_bit 6 (sextet2 b c) AND 0xc0) OR sextet3 c = c"
    unfolding sextet0_def sextet1_def sextet2_def sextet3_def masks
    by (auto intro!: bit_eqI simp: bit_simps two dest: bit_byte)
qed

section \<open>Decoding what was encoded\<close>

lemma group_bytes_simps:
  "group_bytes 4 [Some (sextet0 a), Some (sextet1 a b), Some (sextet2 b c), Some (sextet3 c)] = Inr [a, b, c]"
  "group_bytes 3 [Some (sextet0 a), Some (sextet1 a b), Some (sextet2 b c), x] = Inr [a, b]"
  "group_bytes 2 [Some (sextet0 a), Some (sextet1 a b), x, y] = Inr [a]"
  by (simp_all add: group_bytes_def quad_at_def sextets_join)

lemma decode_loop_full:
  assumes e: "alphabet e" and "length quad = 4" and "done + 4 < sz"
  shows "\<exists>quad'. length quad' = 4 \<and> decode_loop sz done quad (encode_triple e a b c 3 @ rest) =
     bind_res (decode_loop sz (done + 3) quad' rest) (\<lambda>(r, w). Inr (r, a # b # c # w))"
proof -
  have "read_group 4 0 0 quad (encode_triple e a b c 3 @ rest) =
      (plain_code (e ! unat (sextet3 c)), 4, [Some (sextet0 a), Some (sextet1 a b), Some (sextet2 b c), Some (sextet3 c)], rest)"
    using read_full [OF e sextet_bounds(1) [of a] sextet_bounds(2) [of a b] sextet_bounds(3) [of b c] sextet_bounds(4) [of c] assms(2)] by (simp add: encode_triple_def)
  moreover have "encode_triple e a b c 3 @ rest \<noteq> []" by (simp add: encode_triple_def)
  ultimately show ?thesis
    using codes_ok(3) [OF e sextet_bounds(4), of c] assms(3)
    by (intro exI [of _ "[Some (sextet0 a), Some (sextet1 a b), Some (sextet2 b c), Some (sextet3 c)]"], subst decode_loop.simps)
      (auto simp: group_bytes_simps(1) case_prod_unfold add.commute)
qed

lemma decode_loop_two:
  assumes e: "alphabet e" and "length quad = 4" and "done + 4 < sz"
  shows "decode_loop sz done quad (encode_triple e a b 0 2) = Inr (Some (done + 2), [a, b])"
proof -
  obtain x where "read_group 4 0 0 quad (encode_triple e a b 0 2) = (pad, 4, [Some (sextet0 a), Some (sextet1 a b), Some (sextet2 b 0), x], [])"
    using read_two [OF e sextet_bounds(1) [of a] sextet_bounds(2) [of a b] sextet_bounds(3) [of b 0] assms(2)] by (auto simp: encode_triple_def)
  moreover have "encode_triple e a b 0 2 \<noteq> []" by (simp add: encode_triple_def)
  ultimately show ?thesis using assms(3)
    by (subst decode_loop.simps) (simp add: decode_loop.simps [of sz _ _ "[]"] group_bytes_simps(2))
qed

lemma decode_loop_one:
  assumes e: "alphabet e" and "length quad = 4" and "done + 4 < sz"
  shows "decode_loop sz done quad (encode_triple e a 0 0 1) = Inr (Some (done + 1), [a])"
proof -
  obtain x y where "read_group 4 0 0 quad (encode_triple e a 0 0 1) = (pad, 3, [Some (sextet0 a), Some (sextet1 a 0), x, y], [])"
    using read_one [OF e sextet_bounds(1) [of a] sextet_bounds(2) [of a 0] assms(2)] unfolding encode_triple_def by simp blast
  moreover have "encode_triple e a 0 0 1 \<noteq> []" by (simp add: encode_triple_def)
  ultimately show ?thesis using assms(3)
    by (subst decode_loop.simps) (simp add: decode_loop.simps [of sz _ _ "[]"] group_bytes_simps(3))
qed

lemma decode_encode:
  assumes "alphabet e" and "length quad = 4" and "done + int (length bs) + 4 < sz" and "encode_loop e n d bs = (True, w)"
  shows "decode_loop sz done quad w = Inr (Some (done + int (length bs)), bs)"
  using assms
proof (induction e n d bs arbitrary: "done" quad w rule: encode_loop.induct)
  case (1 e n d)
  then show ?case by (simp add: decode_loop.simps)
next
  case (2 e n d a)
  then show ?case using decode_loop_one [of e quad "done" sz a] by (auto split: if_splits)
next
  case (3 e n d a b)
  then show ?case using decode_loop_two [of e quad "done" sz a b] by (auto split: if_splits)
next
  case (4 e n d a b c rest)
  obtain w' where w': "encode_loop e n (d + 4) rest = (True, w')" "w = encode_triple e a b c 3 @ w'" "\<not> n \<le> d + 4"
    using "4.prems"(4) by (auto split: if_splits prod.splits)
  obtain quad' where q: "length quad' = 4" "decode_loop sz done quad w =
      bind_res (decode_loop sz (done + 3) quad' w') (\<lambda>(r, w). Inr (r, a # b # c # w))"
    using decode_loop_full [OF "4.prems"(1,2), of "done" sz a b c w'] "4.prems"(3) w'(2) by auto
  have "decode_loop sz (done + 3) quad' w' = Inr (Some (done + 3 + int (length rest)), rest)"
    using "4.IH" [OF _ "4.prems"(1) q(1) _ w'(1), of "done + 3"] w'(3) "4.prems"(3) by auto
  then show ?case by (simp add: q(2))
qed

definition encoded_length :: "nat \<Rightarrow> nat" where
  "encoded_length n = 4 * ((n + 2) div 3)"

lemma encode_loop_total:
  assumes "alphabet e" and "d + int (encoded_length (length bs)) < n"
  shows "\<exists>w. encode_loop e n d bs = (True, w) \<and> length w = encoded_length (length bs) \<and> 0 \<notin> set w"
  using assms
proof (induction e n d bs rule: encode_loop.induct)
  case (4 e n d a b c rest)
  have l: "encoded_length (length (a # b # c # rest)) = encoded_length (length rest) + 4"
    using div_add_self2 [of 3 "length rest + 2"] unfolding encoded_length_def by simp
  obtain w where w: "encode_loop e n (d + 4) rest = (True, w)" "length w = encoded_length (length rest)" "0 \<notin> set w"
    using "4.IH" "4.prems" unfolding l by fastforce
  show ?case
    using w "4.prems" codes_ok(4) [OF "4.prems"(1)] sextet_bounds unfolding l by (auto simp: encode_triple_def)
qed (use codes_ok(4) sextet_bounds pad_code(3) in \<open>auto simp: encoded_length_def encode_triple_def\<close>)

lemma overwrite_take: "length xs \<le> length ys \<Longrightarrow> take (length xs) (overwrite 0 xs ys) = xs"
  by (simp add: overwrite_def)

lemma encode_decode:
  assumes "alphabet e" and "int (encoded_length (length bs)) + 1 < n" and "n \<le> int (length out)"
  shows "\<exists>out' w. b64_encode e bs out n = Inr (int (encoded_length (length bs)), out') \<and> take (length w) out' = w \<and>
     out' = w @ [0] @ drop (length w + 1) out \<and> length w = encoded_length (length bs) \<and> 0 \<notin> set w \<and>
     (\<forall>m quad. length quad = 4 \<longrightarrow> int (length bs) + 4 < m \<longrightarrow> decode_loop m 0 quad w = Inr (Some (int (length bs)), bs))"
proof -
  obtain w where w: "encode_loop e n 0 bs = (True, w)" "length w = encoded_length (length bs)" "0 \<notin> set w"
    using encode_loop_total [OF assms(1), of 0 bs n] assms(2) by auto
  have "decode_loop m 0 quad w = Inr (Some (int (length bs)), bs)" if "length quad = 4" "int (length bs) + 4 < m" for m quad
    using decode_encode [OF assms(1) that(1) _ w(1), of 0 m] that(2) by simp
  then show ?thesis
    using w assms(2,3) by (intro exI [of _ "w @ [0] @ drop (length w + 1) out"] exI [of _ w])
      (simp add: b64_encode_def store_def overwrite_def)
qed

text \<open>Whole groups of three bytes, with anything behind them.\<close>

lemma decode_encode_triples:
  assumes "alphabet e" and "length quad = 4" and "done + int (length bs) + 4 < sz" and "encode_loop e n d bs = (True, w)"
    and "length bs mod 3 = 0"
  shows "\<exists>quad'. decode_loop sz done quad (w @ rest) =
     bind_res (decode_loop sz (done + int (length bs)) quad' rest) (\<lambda>(r, w). Inr (r, bs @ w))"
  using assms
proof (induction e n d bs arbitrary: "done" quad w rule: encode_loop.induct)
  case (1 e n d)
  have "bind_res x (\<lambda>(r, w). Inr (r, w)) = x" for x :: "(int option \<times> byte list) res" by (cases x) simp_all
  with 1 show ?case by (intro exI [of _ quad]) simp
next
  case (4 e n d a b c bs)
  obtain w' where w': "encode_loop e n (d + 4) bs = (True, w')" "w = encode_triple e a b c 3 @ w'" "\<not> n \<le> d + 4"
    using "4.prems"(4) by (auto split: if_splits prod.splits)
  obtain quad1 where q: "length quad1 = 4" "decode_loop sz done quad (w @ rest) =
      bind_res (decode_loop sz (done + 3) quad1 (w' @ rest)) (\<lambda>(r, w). Inr (r, a # b # c # w))"
    using decode_loop_full [OF "4.prems"(1,2), of "done" sz a b c "w' @ rest"] "4.prems"(3) w'(2) by auto
  have "length bs mod 3 = 0" using "4.prems"(5) by simp
  then obtain quad' where "decode_loop sz (done + 3) quad1 (w' @ rest) =
      bind_res (decode_loop sz (done + 3 + int (length bs)) quad' rest) (\<lambda>(r, w). Inr (r, bs @ w))"
    using "4.IH" [OF _ "4.prems"(1) q(1) _ w'(1), of "done + 3"] w'(3) "4.prems"(3) by auto
  then have "decode_loop sz done quad (w @ rest) =
      bind_res (decode_loop sz (done + int (length (a # b # c # bs))) quad' rest) (\<lambda>(r, w). Inr (r, (a # b # c # bs) @ w))"
    unfolding q(2) by (cases "decode_loop sz (done + 3 + int (length bs)) quad' rest") (auto simp: algebra_simps)
  then show ?case by blast
qed simp_all

lemma decode_lone_pad: "done + 1 < sz \<Longrightarrow> decode_loop sz done quad [pad] = Inr (Some (done - 1), [])"
  unfolding decode_loop.simps [of sz "done" quad "[pad]"] four
  by (simp add: pad_code group_bytes_def decode_loop.simps)

section \<open>The standard\<close>

text \<open>RFC 4648: three bytes make a group of 24 bits, which is cut into four digits of six bits; the digits of a
  last group that have no bits of the input are padding.\<close>

definition group24 :: "byte \<Rightarrow> byte \<Rightarrow> byte \<Rightarrow> nat" where
  "group24 a b c = push_bit 16 (unat a) OR push_bit 8 (unat b) OR unat c"

definition b64_digit :: "nat \<Rightarrow> nat \<Rightarrow> byte" where
  "b64_digit n k = encode_orig ! take_bit 6 (drop_bit (6 * k) n)"

fun base64 :: "byte list \<Rightarrow> byte list" where
  "base64 [] = []"
| "base64 [a] = map (b64_digit (group24 a 0 0)) [3, 2] @ [pad, pad]"
| "base64 [a, b] = map (b64_digit (group24 a b 0)) [3, 2, 1] @ [pad]"
| "base64 (a # b # c # rest) = map (b64_digit (group24 a b c)) [3, 2, 1, 0] @ base64 rest"

lemma below_six: "(n :: nat) < 6 \<longleftrightarrow> n = 0 \<or> n = 1 \<or> n = 2 \<or> n = 3 \<or> n = 4 \<or> n = 5"
  by linarith

lemma no_high_bit: "8 \<le> k \<Longrightarrow> \<not> bit (x :: byte) k"
  using bit_byte [of x k] by linarith

lemma eq_digitI:
  assumes "\<And>n. bit (x :: nat) n \<Longrightarrow> n < 6" and "\<And>n. n < 6 \<Longrightarrow> bit x n = bit y (n + k)"
  shows "x = take_bit 6 (drop_bit k y)"
proof (rule bit_eqI)
  fix n show "bit x n = bit (take_bit 6 (drop_bit k y)) n"
    using assms(1) [of n] assms(2) [of n] by (auto simp: bit_simps add.commute)
qed

lemma sextets_digits:
  "unat (sextet0 a) = take_bit 6 (drop_bit 18 (group24 a b c))" "unat (sextet1 a b) = take_bit 6 (drop_bit 12 (group24 a b c))"
  "unat (sextet2 b c) = take_bit 6 (drop_bit 6 (group24 a b c))" "unat (sextet3 c) = take_bit 6 (drop_bit 0 (group24 a b c))"
proof -
  have small: "bit (x :: nat) n \<Longrightarrow> n < 6" if "x < 64" for x n
  proof -
    have "take_bit 6 x = x" using that by (simp add: take_bit_eq_mod)
    then show "bit x n \<Longrightarrow> n < 6" by (metis bit_take_bit_iff)
  qed
  note sm = small [OF sextet_bounds(1)] small [OF sextet_bounds(2)] small [OF sextet_bounds(3)] small [OF sextet_bounds(4)]
  show "unat (sextet0 a) = take_bit 6 (drop_bit 18 (group24 a b c))"
    by (rule eq_digitI [OF sm(1)], assumption) (auto simp: below_six sextet0_def group24_def bit_simps no_high_bit)
  show "unat (sextet1 a b) = take_bit 6 (drop_bit 12 (group24 a b c))"
    by (rule eq_digitI [OF sm(2)], assumption) (auto simp: below_six sextet1_def masks group24_def bit_simps no_high_bit)
  show "unat (sextet2 b c) = take_bit 6 (drop_bit 6 (group24 a b c))"
    by (rule eq_digitI [OF sm(3)], assumption) (auto simp: below_six sextet2_def masks group24_def bit_simps no_high_bit)
  show "unat (sextet3 c) = take_bit 6 (drop_bit 0 (group24 a b c))"
    by (rule eq_digitI [OF sm(4)], assumption) (auto simp: below_six sextet3_def masks group24_def bit_simps no_high_bit)
qed

lemma b64_digits:
  "b64_digit (group24 a b c) 3 = encode_orig ! unat (sextet0 a)" "b64_digit (group24 a b c) 2 = encode_orig ! unat (sextet1 a b)"
  "b64_digit (group24 a b c) 1 = encode_orig ! unat (sextet2 b c)" "b64_digit (group24 a b c) 0 = encode_orig ! unat (sextet3 c)"
  using sextets_digits [where a = a and b = b and c = c] by (simp_all add: b64_digit_def)

lemma encode_triple_digits:
  "encode_triple encode_orig a b c 3 = map (b64_digit (group24 a b c)) [3, 2, 1, 0]"
  "encode_triple encode_orig a b 0 2 = map (b64_digit (group24 a b 0)) [3, 2, 1] @ [pad]"
  "encode_triple encode_orig a 0 0 1 = map (b64_digit (group24 a 0 0)) [3, 2] @ [pad, pad]"
  by (simp_all only: encode_triple_def list.map b64_digits append.simps) simp_all

lemma encode_loop_base64: "encode_loop encode_orig n d bs = (True, w) \<Longrightarrow> w = base64 bs"
proof (induction bs arbitrary: d w rule: base64.induct)
  case (4 a b c rest)
  obtain w' where "encode_loop encode_orig n (d + 4) rest = (True, w')" "w = encode_triple encode_orig a b c 3 @ w'"
    using "4.prems" by (auto split: if_splits prod.splits)
  with "4.IH" [of "d + 4" w'] show ?case by (simp only: base64.simps encode_triple_digits)
qed (auto simp: encode_triple_digits simp flip: One_nat_def split: if_splits)

lemma base64_text: "length (base64 bs) = encoded_length (length bs)" "0 \<notin> set (base64 bs)"
  using encode_loop_total [of encode_orig 0 bs "int (encoded_length (length bs)) + 1"] encode_loop_base64
  by (auto simp: alphabet_def)

lemma lws_b64_encode_string_base64:
  assumes "int (encoded_length (length bs)) + 1 < n" and "n \<le> int (length out)"
  shows "lws_b64_encode_string bs out n = Inr (int (encoded_length (length bs)), overwrite 0 (base64 bs @ [0]) out)"
proof -
  obtain w where w: "encode_loop encode_orig n 0 bs = (True, w)" "length w = encoded_length (length bs)"
    using encode_loop_total [of encode_orig 0 bs n] assms(1) by (auto simp: alphabet_def)
  with encode_loop_base64 [OF w(1)] assms show ?thesis by (simp add: lws_b64_encode_string_def b64_encode_def store_def)
qed

section \<open>Properties\<close>

text \<open>C17. Base64 both ways: for either alphabet and buffers that are large enough, encoding a block of
  bytes ends with a NUL and returns the length of the text, and decoding that text gives back the
  block, its length and a NUL behind it.\<close>

theorem b64_roundtrip:
  assumes "encode = encode_orig \<or> encode = encode_url" and "int (encoded_length (length bs)) + 1 < n" and "n \<le> int (length out)"
    and "int (length bs) + 4 < m" and "m \<le> int (length out2)"
  shows "\<exists>text out2'. b64_encode encode bs out n = Inr (int (encoded_length (length bs)), text) \<and>
     lws_b64_decode_string text out2 m = Inr (int (length bs), out2') \<and> take (length bs + 1) out2' = bs @ [0]"
proof -
  from encode_decode [of encode bs n out] assms(1-3) obtain out' w where
    w: "b64_encode encode bs out n = Inr (int (encoded_length (length bs)), out')" "out' = w @ [0] @ drop (length w + 1) out" "0 \<notin> set w"
      "decode_loop m 0 [None, None, None, None] w = Inr (Some (int (length bs)), bs)"
    using assms(4) by (fastforce simp: alphabet_def)
  have "\<And>x. x \<in> set w \<Longrightarrow> x \<noteq> 0" using w(3) by auto
  then have "takeWhile (\<lambda>x. x \<noteq> 0) out' = w" "0 \<in> set out'" using w(2) by (simp_all add: takeWhile_append2)
  then have "lws_b64_decode_string out' out2 m = Inr (int (length bs), overwrite 0 (bs @ [0]) out2)"
    using w(4) assms(4,5) by (simp add: lws_b64_decode_string_def b64_decode_def store_def)
  with w(1) overwrite_take [of "bs @ [0]" out2] assms(4,5) show ?thesis by auto
qed

theorem b64_roundtrip_witness:
  "\<exists>text out2'. lws_b64_encode_string [0x66, 0x6f, 0x6f, 0x62] (replicate 32 0) 32 = Inr (8, text) \<and>
     lws_b64_decode_string text (replicate 32 9) 32 = Inr (4, out2') \<and> take 5 out2' = [0x66, 0x6f, 0x6f, 0x62, 0]"
proof -
  have n: "length [0x66, 0x6f, 0x6f, 0x62 :: byte] = 4" and e: "encoded_length 4 = 8" "(4 :: nat) + 1 = 5"
    by (simp_all add: encoded_length_def)
  show ?thesis
    using b64_roundtrip [of encode_orig "[0x66, 0x6f, 0x6f, 0x62]" 32 "replicate 32 0" 32 "replicate 32 9", unfolded n e]
    by (simp add: lws_b64_encode_string_def)
qed

text \<open>C39. A superfluous padding character makes the decoder miscount: behind the text of a block whose
  length is a multiple of three it still stores the whole block, but returns a length that is
  one too small; for the empty block this is -1, the mark of an error.\<close>

theorem b64_extra_pad_miscounts:
  assumes "length bs mod 3 = 0" and "encode_loop encode_orig n 0 bs = (True, text)" and "int (length bs) + 4 < m" and "m \<le> int (length out)"
  shows "\<exists>out'. b64_decode (text @ [pad]) out m = Inr (int (length bs) - 1, out') \<and> take (length bs) out' = bs"
proof -
  obtain quad' where "decode_loop m 0 [None, None, None, None] (text @ [pad]) =
      bind_res (decode_loop m (0 + int (length bs)) quad' [pad]) (\<lambda>(r, w). Inr (r, bs @ w))"
    using decode_encode_triples [OF _ _ _ assms(2,1), of "[None, None, None, None]" 0 m] assms(3) by (auto simp: alphabet_def)
  then have "decode_loop m 0 [None, None, None, None] (text @ [pad]) = Inr (Some (int (length bs) - 1), bs)"
    using decode_lone_pad [of "int (length bs)" m quad'] assms(3) by simp
  then show ?thesis using assms(3,4) by (simp add: b64_decode_def store_def overwrite_def)
qed

theorem b64_extra_pad_miscounts_witness:
  "\<exists>out'. b64_decode (encode_triple encode_orig 0 0 0 3 @ [pad]) (replicate 16 7) 16 = Inr (2, out') \<and> take 3 out' = [0, 0, 0]"
proof -
  have "encode_loop encode_orig 16 0 [0, 0, 0] = (True, encode_triple encode_orig 0 0 0 3)" by simp
  from b64_extra_pad_miscounts [OF _ this, of 16 "replicate 16 7"] show ?thesis by (simp add: numeral_3_eq_3)
qed

end
