(* ===== verification/Lws_Sha1.thy ===== *)
theory Lws_Sha1
  imports Cpp_Prelude
begin

text \<open>
  The SHA-1 of the library (\<^verbatim>\<open>src/foreign/libwebsockets/lib/misc/sha-1.c\<close>), as compiled for a
  little-endian machine: the context with its buffer of 64 bytes, the step over a full buffer with
  the 16 words of the schedule used as a ring, the input in pieces and the padding; and FIPS 180-4
  as the reference.

  The unions of bytes and words are kept in one view each: \<open>h\<close> as words, \<open>c\<close> as a 64-bit number, \<open>m\<close>
  as bytes; the other view is read off through the byte order.
\<close>

unbundle bit_operations_syntax

section \<open>The code\<close>

record sha1_ctxt =
  h_b32 :: "u32 list"
  c_b64 :: u64
  m_b8 :: "byte list"
  buf_count :: byte

definition sha1_K :: "u32 list" where
  "sha1_K = [0x5a827999, 0x6ed9eba1, 0x8f1bbcdc, 0xca62c1d6]"

definition F0 :: "u32 \<Rightarrow> u32 \<Rightarrow> u32 \<Rightarrow> u32" where "F0 b c d = (b AND c) OR (NOT b AND d)"
definition F1 :: "u32 \<Rightarrow> u32 \<Rightarrow> u32 \<Rightarrow> u32" where "F1 b c d = (b XOR c) XOR d"
definition F2 :: "u32 \<Rightarrow> u32 \<Rightarrow> u32 \<Rightarrow> u32" where "F2 b c d = (b AND c) OR (b AND d) OR (c AND d)"
definition F3 :: "u32 \<Rightarrow> u32 \<Rightarrow> u32 \<Rightarrow> u32" where "F3 b c d = (b XOR c) XOR d"

definition sha1_S :: "nat \<Rightarrow> u32 \<Rightarrow> u32" where
  "sha1_S n x = push_bit n x OR drop_bit (32 - n) x"

text \<open>The word view of four bytes, and the byte view of a word and of the counter.\<close>

definition le32 :: "byte \<Rightarrow> byte \<Rightarrow> byte \<Rightarrow> byte \<Rightarrow> u32" where
  "le32 b0 b1 b2 b3 = ucast b0 OR push_bit 8 (ucast b1) OR push_bit 16 (ucast b2) OR push_bit 24 (ucast b3)"

definition b32_view :: "byte list \<Rightarrow> u32 list" where
  "b32_view bs = map (\<lambda>n. le32 (bs ! (4 * n)) (bs ! (4 * n + 1)) (bs ! (4 * n + 2)) (bs ! (4 * n + 3))) [0..<16]"

definition h_b8 :: "sha1_ctxt \<Rightarrow> nat \<Rightarrow> byte" where
  "h_b8 ctxt k = ucast (drop_bit (8 * (k mod 4)) (h_b32 ctxt ! (k div 4)))"

definition c_b8 :: "sha1_ctxt \<Rightarrow> nat \<Rightarrow> byte" where
  "c_b8 ctxt k = ucast (drop_bit (8 * k) (c_b64 ctxt))"

text \<open>The 64 assignments that reverse the bytes of each word.\<close>

definition swap_words :: "byte list \<Rightarrow> byte list" where
  "swap_words t = map (\<lambda>k. t ! (4 * (k div 4) + (3 - k mod 4))) [0..<64]"

type_synonym round_state = "u32 \<times> u32 \<times> u32 \<times> u32 \<times> u32 \<times> u32 list"

definition next_word :: "nat \<Rightarrow> u32 list \<Rightarrow> u32 list" where
  "next_word s W =
     W[s := sha1_S 1 (W ! ((s + 13) mod 16) XOR W ! ((s + 8) mod 16) XOR W ! ((s + 2) mod 16) XOR W ! s)]"

definition sha1_round :: "(u32 \<Rightarrow> u32 \<Rightarrow> u32 \<Rightarrow> u32) \<Rightarrow> nat \<Rightarrow> round_state \<Rightarrow> round_state" where
  "sha1_round f t = (\<lambda>(a, b, c, d, e, W).
     let s = t mod 16;
         W = (if t \<ge> 16 then next_word s W else W);
         tmp = sha1_S 5 a + f b c d + e + W ! s + sha1_K ! (t div 20)
     in (tmp, a, sha1_S 30 b, c, d, W))"

definition sha1_step :: "sha1_ctxt \<Rightarrow> sha1_ctxt" where
  "sha1_step ctxt =
     (let H = h_b32 ctxt;
          r = (H ! 0, H ! 1, H ! 2, H ! 3, H ! 4, b32_view (swap_words (m_b8 ctxt)));
          r = fold (sha1_round F0) [0..<20] r;
          r = fold (sha1_round F1) [20..<40] r;
          r = fold (sha1_round F2) [40..<60] r;
          (a, b, c, d, e, W) = fold (sha1_round F3) [60..<80] r
      in ctxt\<lparr>h_b32 := [H ! 0 + a, H ! 1 + b, H ! 2 + c, H ! 3 + d, H ! 4 + e], m_b8 := replicate 64 0\<rparr>)"

definition sha1_init :: sha1_ctxt where
  "sha1_init = \<lparr>h_b32 = [0x67452301, 0xefcdab89, 0x98badcfe, 0x10325476, 0xc3d2e1f0], c_b64 = 0, m_b8 = replicate 64 0, buf_count = 0\<rparr>"

definition step_if_full :: "sha1_ctxt \<Rightarrow> sha1_ctxt" where
  "step_if_full ctxt = (if unat (buf_count ctxt) mod 64 = 0 then sha1_step ctxt else ctxt)"

definition PUTPAD :: "byte \<Rightarrow> sha1_ctxt \<Rightarrow> sha1_ctxt" where
  "PUTPAD x ctxt =
     step_if_full (ctxt\<lparr>m_b8 := (m_b8 ctxt)[unat (buf_count ctxt) mod 64 := x], buf_count := (buf_count ctxt + 1) mod 64\<rparr>)"

text \<open>Zeros up to the end of the buffer when there is no room for the length.\<close>

definition pad_overflow :: "sha1_ctxt \<Rightarrow> sha1_ctxt" where
  "pad_overflow ctxt =
     (let padstart = unat (buf_count ctxt) mod 64; padlen = 64 - padstart
      in if padlen < 8
         then sha1_step (ctxt\<lparr>m_b8 := overwrite padstart (replicate padlen 0) (m_b8 ctxt),
                               buf_count := (buf_count ctxt + of_nat padlen) mod 64\<rparr>)
         else ctxt)"

definition sha1_pad :: "sha1_ctxt \<Rightarrow> sha1_ctxt" where
  "sha1_pad ctxt =
     (let ctxt = pad_overflow (PUTPAD 0x80 ctxt);
          padstart = unat (buf_count ctxt) mod 64;
          padlen = 64 - padstart;
          ctxt = ctxt\<lparr>m_b8 := overwrite padstart (replicate (padlen - 8) 0) (m_b8 ctxt),
                       buf_count := (buf_count ctxt + (of_nat padlen - 8)) mod 64\<rparr>
      in fold (\<lambda>k ctxt. PUTPAD (c_b8 ctxt k) ctxt) [7, 6, 5, 4, 3, 2, 1, 0] ctxt)"

function sha1_loop :: "sha1_ctxt \<Rightarrow> byte list \<Rightarrow> sha1_ctxt" where
  "sha1_loop ctxt input =
     (if input = [] then ctxt
      else
        let gapstart = unat (buf_count ctxt) mod 64;
            gaplen = 64 - gapstart;
            copysiz = (if gaplen < length input then gaplen else length input);
            ctxt = ctxt\<lparr>m_b8 := overwrite gapstart (take copysiz input) (m_b8 ctxt),
                         buf_count := (buf_count ctxt + of_nat copysiz) mod 64,
                         c_b64 := c_b64 ctxt + of_nat copysiz * 8\<rparr>
        in sha1_loop (step_if_full ctxt) (drop copysiz input))"
  by pat_completeness auto
termination
  by (relation "measure (\<lambda>(ctxt, input). length input)") auto

declare sha1_loop.simps [simp del]

definition sha1_result :: "sha1_ctxt \<Rightarrow> byte list" where
  "sha1_result ctxt =
     (let ctxt = sha1_pad ctxt
      in map (h_b8 ctxt) [3, 2, 1, 0, 7, 6, 5, 4, 11, 10, 9, 8, 15, 14, 13, 12, 19, 18, 17, 16])"

definition lws_SHA1 :: "byte list \<Rightarrow> byte list" where
  "lws_SHA1 d = sha1_result (sha1_loop sha1_init d)"

section \<open>The standard\<close>

definition ROTL :: "nat \<Rightarrow> u32 \<Rightarrow> u32" where
  "ROTL n x = push_bit n x OR drop_bit (32 - n) x"

definition Ch :: "u32 \<Rightarrow> u32 \<Rightarrow> u32 \<Rightarrow> u32" where "Ch x y z = (x AND y) XOR (NOT x AND z)"
definition Parity :: "u32 \<Rightarrow> u32 \<Rightarrow> u32 \<Rightarrow> u32" where "Parity x y z = x XOR y XOR z"
definition Maj :: "u32 \<Rightarrow> u32 \<Rightarrow> u32 \<Rightarrow> u32" where "Maj x y z = (x AND y) XOR (x AND z) XOR (y AND z)"

definition fips_f :: "nat \<Rightarrow> u32 \<Rightarrow> u32 \<Rightarrow> u32 \<Rightarrow> u32" where
  "fips_f t = (if t < 20 then Ch else if t < 40 then Parity else if t < 60 then Maj else Parity)"

definition fips_K :: "nat \<Rightarrow> u32" where
  "fips_K t = (if t < 20 then 0x5a827999 else if t < 40 then 0x6ed9eba1 else if t < 60 then 0x8f1bbcdc else 0xca62c1d6)"

definition be32 :: "byte list \<Rightarrow> u32" where
  "be32 bs = foldl (\<lambda>x b. push_bit 8 x OR ucast b) 0 bs"

fun schedule :: "byte list \<Rightarrow> nat \<Rightarrow> u32" where
  "schedule block t =
     (if t < 16 then be32 (take 4 (drop (4 * t) block))
      else ROTL 1 (schedule block (t - 3) XOR schedule block (t - 8) XOR schedule block (t - 14) XOR schedule block (t - 16)))"

declare schedule.simps [simp del]

fun fips_rounds :: "byte list \<Rightarrow> nat \<Rightarrow> u32 \<times> u32 \<times> u32 \<times> u32 \<times> u32 \<Rightarrow> u32 \<times> u32 \<times> u32 \<times> u32 \<times> u32" where
  "fips_rounds block 0 s = s"
| "fips_rounds block (Suc t) s =
     (case fips_rounds block t s of (a, b, c, d, e) \<Rightarrow>
        (ROTL 5 a + fips_f t b c d + e + fips_K t + schedule block t, a, ROTL 30 b, c, d))"

definition compress :: "u32 list \<Rightarrow> byte list \<Rightarrow> u32 list" where
  "compress H block =
     (case fips_rounds block 80 (H ! 0, H ! 1, H ! 2, H ! 3, H ! 4) of (a, b, c, d, e) \<Rightarrow>
        [a + H ! 0, b + H ! 1, c + H ! 2, d + H ! 3, e + H ! 4])"

function hash_blocks :: "u32 list \<Rightarrow> byte list \<Rightarrow> u32 list" where
  "hash_blocks H msg = (if length msg < 64 then H else hash_blocks (compress H (take 64 msg)) (drop 64 msg))"
  by pat_completeness auto
termination
  by (relation "measure (\<lambda>(H, msg). length msg)") auto

declare hash_blocks.simps [simp del]

definition be_bytes :: "nat \<Rightarrow> 'a :: len word \<Rightarrow> byte list" where
  "be_bytes n x = map (\<lambda>k. ucast (drop_bit (8 * k) x)) (rev [0..<n])"

text \<open>The message, a one, as many zeros as bring it to 56 bytes modulo 64, and its length in bits.\<close>

definition padded :: "byte list \<Rightarrow> byte list" where
  "padded msg = msg @ [0x80] @ replicate ((119 - length msg mod 64) mod 64) 0 @ be_bytes 8 (of_nat (8 * length msg) :: u64)"

definition fips_sha1 :: "byte list \<Rightarrow> byte list" where
  "fips_sha1 msg =
     concat (map (be_bytes 4) (hash_blocks [0x67452301, 0xefcdab89, 0x98badcfe, 0x10325476, 0xc3d2e1f0] (padded msg)))"

section \<open>The step is the compression function\<close>

lemma functions_agree: "F0 = Ch" "F1 = Parity" "F2 = Maj" "F3 = Parity" "sha1_S = ROTL"
  by (auto intro!: ext bit_eqI simp: F0_def F1_def F2_def F3_def Ch_def Parity_def Maj_def sha1_S_def ROTL_def bit_simps)

lemma le32_be32: "le32 b3 b2 b1 b0 = be32 [b0, b1, b2, b3]"
  by (rule bit_eqI) (auto simp: le32_def be32_def bit_simps)

lemma four_bytes: "4 * n + 3 < length bs \<Longrightarrow> take 4 (drop (4 * n) bs) = [bs ! (4 * n), bs ! (4 * n + 1), bs ! (4 * n + 2), bs ! (4 * n + 3)]"
  by (simp add: numeral_eq_Suc Cons_nth_drop_Suc [symmetric] take_Suc_conv_app_nth)

lemma word_view:
  assumes "length m = 64" and "n < 16"
  shows "b32_view (swap_words m) ! n = schedule m n"
proof -
  have i: "(4 * n + j) div 4 = n" "(4 * n + j) mod 4 = j" if "j < 4" for j using that by simp_all
  have "swap_words m ! (4 * n + j) = m ! (4 * n + (3 - j))" if "j < 4" for j
  proof -
    have "4 * n + j < 64" using assms(2) that by linarith
    then show ?thesis using that by (simp add: swap_words_def i [OF that])
  qed
  from this [of 0] this [of 1] this [of 2] this [of 3]
  have "b32_view (swap_words m) ! n = be32 (take 4 (drop (4 * n) m))"
    using assms four_bytes [of n m] by (simp add: b32_view_def le32_be32)
  then show ?thesis using assms(2) by (simp add: schedule.simps [of m n])
qed

text \<open>The ring holds the last sixteen words of the schedule.\<close>

definition ring :: "byte list \<Rightarrow> nat \<Rightarrow> u32 list \<Rightarrow> bool" where
  "ring block t W \<longleftrightarrow> length W = 16 \<and> (\<forall>j. (j < 16 \<or> j < t) \<and> t \<le> j + 16 \<longrightarrow> W ! (j mod 16) = schedule block j)"

lemma ring_start: "length m = 64 \<Longrightarrow> ring m 0 (b32_view (swap_words m))"
  using word_view by (auto simp: ring_def b32_view_def)

lemma back_mod: "k \<le> t \<Longrightarrow> k \<le> 16 \<Longrightarrow> (t mod 16 + (16 - k)) mod 16 = (t - k) mod (16 :: nat)"
proof -
  assume "k \<le> t" "k \<le> 16"
  then have "t + (16 - k) = t - k + 16" by simp
  then have "(t mod 16 + (16 - k)) mod 16 = (t - k + 16) mod 16" by (simp only: mod_add_left_eq)
  then show ?thesis by simp
qed

lemma close_mod: "a < b \<Longrightarrow> b < a + 16 \<Longrightarrow> a mod 16 \<noteq> b mod (16 :: nat)"
  using mod_eq_dvd_iff_nat [of a b 16] nat_dvd_not_less [of "b - a" 16] by auto

lemma ring_next:
  assumes "ring block t W"
  defines "W' \<equiv> if t \<ge> 16 then next_word (t mod 16) W else W"
  shows "ring block (Suc t) W'" and "W' ! (t mod 16) = schedule block t"
proof -
  have len: "length W = 16" and W: "\<And>j. (j < 16 \<or> j < t) \<Longrightarrow> t \<le> j + 16 \<Longrightarrow> W ! (j mod 16) = schedule block j"
    using assms(1) by (auto simp: ring_def)
  have new: "W' ! (t mod 16) = schedule block t"
  proof (cases "t \<ge> 16")
    case True
    have i: "(t mod 16 + 13) mod 16 = (t - 3) mod 16" "(t mod 16 + 8) mod 16 = (t - 8) mod 16" "(t mod 16 + 2) mod 16 = (t - 14) mod 16"
      using True back_mod [of 3 t] back_mod [of 8 t] back_mod [of 14 t] by simp_all
    have l: "(t - 16) mod 16 = t mod 16" by (rule le_mod_geq [symmetric, OF True])
    have "W ! ((t - 3) mod 16) = schedule block (t - 3)" "W ! ((t - 8) mod 16) = schedule block (t - 8)"
      "W ! ((t - 14) mod 16) = schedule block (t - 14)" "W ! (t mod 16) = schedule block (t - 16)"
      using True W [of "t - 3"] W [of "t - 8"] W [of "t - 14"] W [of "t - 16", unfolded l] by simp_all
    then show ?thesis
      using True len unfolding W'_def next_word_def i by (simp add: schedule.simps [of block t] functions_agree)
  next
    case False
    then show ?thesis using W [of t] by (simp add: W'_def)
  qed
  have old: "W' ! (j mod 16) = W ! (j mod 16)" if "j \<noteq> t" "t \<le> j + 16" "j + 16 \<noteq> t" "j < t \<or> j < 16" for j
  proof (cases "t \<ge> 16")
    case True
    have "j < t" "t < j + 16" using that True by auto
    from close_mod [OF this] have "j mod 16 \<noteq> t mod 16" .
    then show ?thesis by (simp add: W'_def next_word_def)
  qed (simp add: W'_def)
  show "ring block (Suc t) W'"
    unfolding ring_def
  proof (intro conjI allI impI)
    show "length W' = 16" by (simp add: W'_def next_word_def len)
    fix j assume j: "(j < 16 \<or> j < Suc t) \<and> Suc t \<le> j + 16"
    show "W' ! (j mod 16) = schedule block j"
    proof (cases "j = t")
      case False
      then have "j < t \<or> j < 16" "t \<le> j + 16" "j + 16 \<noteq> t" using j by auto
      with old [OF False] W [of j] show ?thesis by auto
    qed (simp add: new)
  qed
  show "W' ! (t mod 16) = schedule block t" by (rule new)
qed

definition code_f :: "nat \<Rightarrow> u32 \<Rightarrow> u32 \<Rightarrow> u32 \<Rightarrow> u32" where
  "code_f t = (if t < 20 then F0 else if t < 40 then F1 else if t < 60 then F2 else F3)"

lemma code_f_fips: "code_f t = fips_f t"
  by (simp add: code_f_def fips_f_def functions_agree)

lemma K_fips: "t < 80 \<Longrightarrow> sha1_K ! (t div 20) = fips_K t"
proof -
  assume t: "t < 80"
  consider "t < 20" | "20 \<le> t" "t < 40" | "40 \<le> t" "t < 60" | "60 \<le> t" by linarith
  then show ?thesis
  proof cases
    case 2
    then have "t div 20 = 1" by (intro div_nat_eqI) simp_all
    with 2 show ?thesis by (simp add: sha1_K_def fips_K_def)
  next
    case 3
    then have "t div 20 = 2" by (intro div_nat_eqI) simp_all
    with 3 show ?thesis by (simp add: sha1_K_def fips_K_def)
  next
    case 4
    then have "t div 20 = 3" using t by (intro div_nat_eqI) simp_all
    with 4 show ?thesis by (simp add: sha1_K_def fips_K_def)
  qed (simp add: sha1_K_def fips_K_def)
qed

lemma rounds_agree:
  assumes "ring block 0 W" and "t \<le> 80"
  shows "\<exists>W'. ring block t W' \<and> fold (\<lambda>t. sha1_round (code_f t) t) [0..<t] (a, b, c, d, e, W) =
     (case fips_rounds block t (a, b, c, d, e) of (a, b, c, d, e) \<Rightarrow> (a, b, c, d, e, W'))"
  using assms(2)
proof (induction t)
  case 0
  then show ?case using assms(1) by auto
next
  case (Suc t)
  obtain W' where W': "ring block t W'" "fold (\<lambda>t. sha1_round (code_f t) t) [0..<t] (a, b, c, d, e, W) =
     (case fips_rounds block t (a, b, c, d, e) of (a, b, c, d, e) \<Rightarrow> (a, b, c, d, e, W'))"
    using Suc by auto
  obtain a' b' c' d' e' where r: "fips_rounds block t (a, b, c, d, e) = (a', b', c', d', e')" by (metis surj_pair)
  note n = ring_next [OF W'(1)]
  have "fold (\<lambda>t. sha1_round (code_f t) t) [0..<Suc t] (a, b, c, d, e, W) =
      sha1_round (code_f t) t (a', b', c', d', e', W')" using W'(2) r by simp
  also have "\<dots> = (ROTL 5 a' + fips_f t b' c' d' + e' + fips_K t + schedule block t, a', ROTL 30 b', c', d',
      if t \<ge> 16 then next_word (t mod 16) W' else W')"
    using n(2) K_fips [of t] Suc.prems by (simp add: sha1_round_def Let_def functions_agree code_f_fips)
  finally show ?case using n(1) r by auto
qed

lemma fold_ranges:
  "fold (sha1_round F3) [60..<80] (fold (sha1_round F2) [40..<60] (fold (sha1_round F1) [20..<40] (fold (sha1_round F0) [0..<20] x))) =
   fold (\<lambda>t. sha1_round (code_f t) t) [0..<80] x"
proof -
  have u: "[0..<80] = [0..<20] @ [20..<40] @ [40..<60] @ [60..<80::nat]"
    using upt_add_eq_append [of 0 20 20] upt_add_eq_append [of 0 40 20] upt_add_eq_append [of 0 60 20] by simp
  have "fold (sha1_round F0) [0..<20] y = fold (\<lambda>t. sha1_round (code_f t) t) [0..<20] y"
    "fold (sha1_round F1) [20..<40] y = fold (\<lambda>t. sha1_round (code_f t) t) [20..<40] y"
    "fold (sha1_round F2) [40..<60] y = fold (\<lambda>t. sha1_round (code_f t) t) [40..<60] y"
    "fold (sha1_round F3) [60..<80] y = fold (\<lambda>t. sha1_round (code_f t) t) [60..<80] y" for y
    by (auto intro!: fold_cong simp: code_f_def)
  then show ?thesis unfolding u fold_append comp_def by simp
qed

lemma step_compress:
  assumes "length (m_b8 ctxt) = 64"
  shows "sha1_step ctxt = ctxt\<lparr>h_b32 := compress (h_b32 ctxt) (m_b8 ctxt), m_b8 := replicate 64 0\<rparr>"
proof -
  let ?H = "h_b32 ctxt"
  obtain a b c d e where f: "fips_rounds (m_b8 ctxt) 80 (?H ! 0, ?H ! 1, ?H ! 2, ?H ! 3, ?H ! 4) = (a, b, c, d, e)" by (metis surj_pair)
  from rounds_agree [OF ring_start [OF assms] order_refl, of "?H ! 0" "?H ! 1" "?H ! 2" "?H ! 3" "?H ! 4"] f
  obtain W where "fold (\<lambda>t. sha1_round (code_f t) t) [0..<80]
      (?H ! 0, ?H ! 1, ?H ! 2, ?H ! 3, ?H ! 4, b32_view (swap_words (m_b8 ctxt))) = (a, b, c, d, e, W)" by auto
  then show ?thesis unfolding sha1_step_def Let_def fold_ranges compress_def f by (simp add: add.commute)
qed

section \<open>Input in pieces and padding\<close>

lemma hash_blocks_part:
  "length msg mod 64 + length x < 64 \<Longrightarrow> hash_blocks H (msg @ x) = hash_blocks H msg"
proof (induction H msg rule: hash_blocks.induct)
  case (1 H msg)
  show ?case
  proof (cases "length msg < 64")
    case True
    with "1.prems" show ?thesis by (simp add: hash_blocks.simps [of H "msg @ x"] hash_blocks.simps [of H msg])
  next
    case False
    moreover have "length (drop 64 msg) mod 64 = length msg mod 64" using False by (simp add: le_mod_geq [symmetric])
    ultimately show ?thesis using 1 by (simp add: hash_blocks.simps [of H "msg @ x"] hash_blocks.simps [of H msg])
  qed
qed

lemma hash_blocks_full:
  "length msg mod 64 + length x = 64 \<Longrightarrow> x \<noteq> [] \<Longrightarrow>
     hash_blocks H (msg @ x) = compress (hash_blocks H msg) (drop (64 * (length msg div 64)) msg @ x)"
proof (induction H msg rule: hash_blocks.induct)
  case (1 H msg)
  show ?case
  proof (cases "length msg < 64")
    case True
    with "1.prems" show ?thesis
      by (simp add: hash_blocks.simps [of H "msg @ x"] hash_blocks.simps [of H msg] hash_blocks.simps [of "compress H (msg @ x)"])
  next
    case False
    have l: "length (drop 64 msg) mod 64 = length msg mod 64" using False by (simp add: le_mod_geq [symmetric])
    have "64 * (length msg div 64) = 64 * (length (drop 64 msg) div 64) + 64"
      using False by (simp add: le_div_geq)
    then have "drop (64 * (length (drop 64 msg) div 64)) (drop 64 msg) = drop (64 * (length msg div 64)) msg" by (simp add: add.commute)
    with 1 l False show ?thesis by (simp add: hash_blocks.simps [of H "msg @ x"] hash_blocks.simps [of H msg])
  qed
qed

text \<open>The context after the bytes \<open>msg\<close>.\<close>

definition tail :: "byte list \<Rightarrow> byte list" where
  "tail msg = drop (64 * (length msg div 64)) msg"

definition holds :: "sha1_ctxt \<Rightarrow> byte list \<Rightarrow> bool" where
  "holds ctxt msg \<longleftrightarrow> h_b32 ctxt = hash_blocks (h_b32 sha1_init) msg \<and>
     m_b8 ctxt = tail msg @ replicate (64 - length msg mod 64) 0 \<and> buf_count ctxt = of_nat (length msg mod 64)"

lemma length_tail [simp]: "length (tail msg) = length msg mod 64"
  by (simp add: tail_def minus_mult_div_eq_mod)

lemma div_part: "a mod 64 + k < 64 \<Longrightarrow> (a + k) div 64 = a div (64 :: nat)"
proof -
  assume a: "a mod 64 + k < 64"
  have "a + k = a div 64 * 64 + (a mod 64 + k)" by simp
  then have "(a + k) div 64 = (a div 64 * 64 + (a mod 64 + k)) div 64" by (rule arg_cong)
  also have "\<dots> = a div 64 + (a mod 64 + k) div 64" by (rule div_mult_self3) simp
  finally show ?thesis using a by simp
qed

lemma mod_part:
  "(a + k) mod 64 = (if a mod 64 + k < 64 then a mod 64 + k else a mod 64 + k - 64)" if "a mod 64 + k \<le> 64" for a k :: nat
proof -
  have "(a + k) mod 64 = (a mod 64 + k) mod 64" by (rule mod_add_left_eq [symmetric])
  with that show ?thesis by (cases "a mod 64 + k = 64") simp_all
qed

lemma tail_part: "length msg mod 64 + length x < 64 \<Longrightarrow> tail (msg @ x) = tail msg @ x"
proof -
  assume a: "length msg mod 64 + length x < 64"
  have "length (msg @ x) div 64 = length msg div 64"
    using div_part [OF a] by simp
  moreover have "64 * (length msg div 64) \<le> length msg" by simp
  ultimately show ?thesis by (simp add: tail_def)
qed

lemma byte_mod: "n < 256 \<Longrightarrow> (of_nat n :: byte) mod 64 = of_nat (n mod 64)"
  by (rule unsigned_word_eqI [where 'a = nat]) (simp add: unat_mod unat_of_nat less_trans [OF mod_less_divisor])

lemma count_index: "holds ctxt msg \<Longrightarrow> unat (buf_count ctxt) mod 64 = length msg mod 64"
  by (simp add: holds_def unat_of_nat less_trans [OF mod_less_divisor])

lemma count_add:
  assumes "holds ctxt msg" and "length msg mod 64 + k \<le> 64"
  shows "(buf_count ctxt + of_nat k) mod 64 = of_nat ((length msg + k) mod 64)"
proof -
  have "(buf_count ctxt + of_nat k) mod 64 = of_nat (length msg mod 64 + k) mod 64" using assms(1) by (simp add: holds_def)
  also have "\<dots> = of_nat ((length msg mod 64 + k) mod 64)" using assms(2) by (intro byte_mod) simp
  finally show ?thesis by (simp add: mod_add_left_eq)
qed

lemma holds_length: "holds ctxt msg \<Longrightarrow> length (m_b8 ctxt) = 64"
  by (simp add: holds_def)

lemma count_zero: "n < 256 \<Longrightarrow> unat (of_nat n :: byte) mod 64 = n mod 64"
  by (simp add: unat_of_nat)

lemma holds_put:
  assumes ok: "holds ctxt msg" and x: "x \<noteq> []" "length msg mod 64 + length x \<le> 64"
  defines "ctxt' \<equiv> ctxt\<lparr>m_b8 := overwrite (length msg mod 64) x (m_b8 ctxt), buf_count := (buf_count ctxt + of_nat (length x)) mod 64\<rparr>"
  shows "holds (step_if_full (ctxt'\<lparr>c_b64 := c\<rparr>)) (msg @ x)" and "c_b64 (step_if_full (ctxt'\<lparr>c_b64 := c\<rparr>)) = c"
proof -
  have cnt: "buf_count ctxt' = of_nat (length (msg @ x) mod 64)" using count_add [OF ok x(2)] by (simp add: ctxt'_def)
  have m: "m_b8 ctxt' = tail msg @ x @ replicate (64 - length msg mod 64 - length x) 0"
    using ok x(2) by (simp add: ctxt'_def holds_def overwrite_def)
  have l: "length (m_b8 (ctxt'\<lparr>c_b64 := c\<rparr>)) = 64" using x(2) by (simp add: m)
  have "unat (buf_count ctxt') mod 64 = 0 \<longleftrightarrow> length msg mod 64 + length x = 64"
    unfolding cnt using x mod_part [of "length msg" "length x"] by (simp add: count_zero less_trans [OF mod_less_divisor])
  note full = this
  show "holds (step_if_full (ctxt'\<lparr>c_b64 := c\<rparr>)) (msg @ x)"
  proof (cases "length msg mod 64 + length x = 64")
    case True
    have "length (msg @ x) mod 64 = 0" using True mod_part [of "length msg" "length x"] by simp
    moreover from this have "length (tail (msg @ x)) = 0" by simp
    then have "tail (msg @ x) = []" by (simp only: length_0_conv)
    ultimately show ?thesis
      using True full m ok cnt hash_blocks_full [OF True x(1), of "h_b32 sha1_init"]
      by (simp add: step_if_full_def step_compress [OF l] holds_def tail_def [symmetric]) (simp add: ctxt'_def)
  next
    case False
    then have p: "length msg mod 64 + length x < 64" using x(2) by simp
    have "length (msg @ x) mod 64 = length msg mod 64 + length x" using p mod_part [of "length msg" "length x"] by simp
    then show ?thesis
      using False full m ok cnt hash_blocks_part [OF p, of "h_b32 sha1_init"] tail_part [OF p]
      by (simp add: step_if_full_def holds_def) (simp add: ctxt'_def)
  qed
  show "c_b64 (step_if_full (ctxt'\<lparr>c_b64 := c\<rparr>)) = c"
    by (simp add: step_if_full_def step_compress [OF l])
qed

lemma holds_init: "holds sha1_init []"
  by (simp add: holds_def sha1_init_def hash_blocks.simps tail_def)

lemma holds_loop:
  assumes "holds ctxt msg"
  shows "holds (sha1_loop ctxt d) (msg @ d) \<and> c_b64 (sha1_loop ctxt d) = c_b64 ctxt + of_nat (8 * length d)"
  using assms
proof (induction "length d" arbitrary: ctxt msg d rule: less_induct)
  case (less input)
  show ?case
  proof (cases "input = []")
    case True
    with less.prems show ?thesis by (simp add: sha1_loop.simps)
  next
    case False
    let ?k = "if 64 - length msg mod 64 < length input then 64 - length msg mod 64 else length input"
    let ?x = "take ?k input"
    let ?c = "c_b64 ctxt + of_nat ?k * 8"
    let ?ctxt = "ctxt\<lparr>m_b8 := overwrite (length msg mod 64) ?x (m_b8 ctxt), buf_count := (buf_count ctxt + of_nat (length ?x)) mod 64,
        c_b64 := ?c\<rparr>"
    have k: "length ?x = ?k" by simp
    have x: "?x \<noteq> []" "length msg mod 64 + length ?x \<le> 64" using False by auto
    note put = holds_put [OF less.prems x, of ?c]
    have loop: "sha1_loop ctxt input = sha1_loop (step_if_full ?ctxt) (drop ?k input)"
      unfolding sha1_loop.simps [of ctxt input] k using False by (simp add: Let_def count_index [OF less.prems])
    have "holds (sha1_loop (step_if_full ?ctxt) (drop ?k input)) ((msg @ ?x) @ drop ?k input) \<and>
        c_b64 (sha1_loop (step_if_full ?ctxt) (drop ?k input)) = c_b64 (step_if_full ?ctxt) + of_nat (8 * length (drop ?k input))"
      by (rule less.hyps [OF _ put(1)]) (use x(1) in simp)
    moreover have "?c + of_nat (8 * length (drop ?k input)) = c_b64 ctxt + of_nat (8 * length input)"
      by (simp add: of_nat_diff algebra_simps)
    ultimately show ?thesis unfolding loop using put(2) by simp
  qed
qed

lemma holds_PUTPAD:
  assumes "holds ctxt msg"
  shows "holds (PUTPAD x ctxt) (msg @ [x])" and "c_b64 (PUTPAD x ctxt) = c_b64 ctxt"
proof -
  have k: "length msg mod 64 < length (m_b8 ctxt)" using holds_length [OF assms] by simp
  have "PUTPAD x ctxt = step_if_full (ctxt\<lparr>m_b8 := overwrite (length msg mod 64) [x] (m_b8 ctxt),
      buf_count := (buf_count ctxt + of_nat (length [x])) mod 64, c_b64 := c_b64 ctxt\<rparr>)"
    unfolding PUTPAD_def count_index [OF assms] using k by (simp add: overwrite_def upd_conv_take_nth_drop)
  moreover have "length msg mod 64 + length [x] \<le> 64" using mod_less_divisor [of 64 "length msg"] by simp
  ultimately show "holds (PUTPAD x ctxt) (msg @ [x])" "c_b64 (PUTPAD x ctxt) = c_b64 ctxt"
    using holds_put [OF assms, of "[x]" "c_b64 ctxt"] by simp_all
qed

definition overflow_zeros :: "byte list \<Rightarrow> nat" where
  "overflow_zeros msg = (if 64 - length msg mod 64 < 8 then 64 - length msg mod 64 else 0)"

lemma holds_pad_overflow:
  assumes "holds ctxt msg"
  shows "holds (pad_overflow ctxt) (msg @ replicate (overflow_zeros msg) 0)" and "c_b64 (pad_overflow ctxt) = c_b64 ctxt"
proof -
  let ?k = "64 - length msg mod 64"
  let ?x = "replicate ?k (0 :: byte)"
  have x: "?x \<noteq> []" "length msg mod 64 + length ?x \<le> 64" using mod_less_divisor [of 64 "length msg"] by (simp_all add: less_imp_le)
  let ?ctxt = "ctxt\<lparr>m_b8 := overwrite (length msg mod 64) ?x (m_b8 ctxt), buf_count := (buf_count ctxt + of_nat (length ?x)) mod 64\<rparr>"
  have "buf_count ?ctxt = 0" using count_add [OF assms x(2)] mod_part [of "length msg" ?k] x(2) by simp
  then have "sha1_step ?ctxt = step_if_full (?ctxt\<lparr>c_b64 := c_b64 ctxt\<rparr>)" by (simp add: step_if_full_def)
  with holds_put [OF assms x, of "c_b64 ctxt"] assms
  show "holds (pad_overflow ctxt) (msg @ replicate (overflow_zeros msg) 0)" "c_b64 (pad_overflow ctxt) = c_b64 ctxt"
    by (simp_all add: pad_overflow_def Let_def count_index [OF assms] overflow_zeros_def)
qed

lemma holds_zeros:
  assumes "holds ctxt msg" and "length msg mod 64 \<le> 56"
  defines "padlen \<equiv> 64 - length msg mod 64"
  shows "holds (ctxt\<lparr>m_b8 := overwrite (length msg mod 64) (replicate (padlen - 8) 0) (m_b8 ctxt),
     buf_count := (buf_count ctxt + (of_nat padlen - 8)) mod 64\<rparr>) (msg @ replicate (56 - length msg mod 64) 0)"
proof -
  define z where "z = 56 - length msg mod 64"
  have p: "length msg mod 64 + length (replicate z (0 :: byte)) < 64" using assms(2) by (simp add: z_def)
  have z: "padlen = z + 8" using assms(2) by (simp add: padlen_def z_def)
  have l: "length (msg @ replicate z (0 :: byte)) mod 64 = 56" using mod_part [of "length msg" z] assms(2) by (simp add: z_def)
  have "(of_nat padlen - 8 :: byte) = of_nat z" unfolding z by (simp only: of_nat_add of_nat_numeral add_diff_cancel_right')
  then have c: "(buf_count ctxt + (of_nat padlen - 8)) mod 64 = of_nat (length (msg @ replicate z (0 :: byte)) mod 64)"
    using count_add [OF assms(1), of z] p by simp
  have "overwrite (length msg mod 64) (replicate z 0) (tail msg @ replicate padlen 0) = tail msg @ replicate z 0 @ replicate 8 0"
    unfolding z by (simp add: overwrite_def)
  then have "m_b8 (ctxt\<lparr>m_b8 := overwrite (length msg mod 64) (replicate z 0) (m_b8 ctxt)\<rparr>) =
      tail (msg @ replicate z 0) @ replicate (64 - length (msg @ replicate z (0 :: byte)) mod 64) 0"
    using assms(1) tail_part [OF p] unfolding l by (simp add: holds_def padlen_def)
  moreover have "padlen - 8 = z" using z by simp
  ultimately show ?thesis
    using assms(1) hash_blocks_part [OF p, of "h_b32 sha1_init"] c unfolding holds_def z_def [symmetric] by simp
qed

lemma holds_length_bytes:
  assumes "holds ctxt msg"
  shows "holds (fold (\<lambda>k ctxt. PUTPAD (c_b8 ctxt k) ctxt) ks ctxt) (msg @ map (c_b8 ctxt) ks)"
  using assms
proof (induction ks arbitrary: ctxt msg)
  case (Cons k ks)
  have "c_b8 (PUTPAD (c_b8 ctxt k) ctxt) = c_b8 ctxt"
    using holds_PUTPAD(2) [OF Cons.prems] by (simp add: fun_eq_iff c_b8_def)
  with Cons.IH [OF holds_PUTPAD(1) [OF Cons.prems, of "c_b8 ctxt k"]] show ?case by simp
qed simp

lemma zeros_count:
  assumes "r1 = (if r < 63 then r + 1 else 0)" and "o1 = (if 64 - r1 < 8 then 64 - r1 else 0)" and "r2 = (if 64 - r1 < 8 then 0 else r1)"
    and "r < (64 :: nat)"
  shows "o1 + (56 - r2) = (119 - r) mod 64"
proof (cases "r \<le> 55")
  case True
  then have "119 - r = 55 - r + 64" by simp
  then have "(119 - r) mod 64 = (55 - r) mod 64" by (simp only: mod_add_self2)
  with True assms show ?thesis by simp
next
  case False
  with assms show ?thesis by (cases "r = 63") simp_all
qed

lemma room_for_length: "r2 = (if 64 - r1 < 8 then 0 else r1) \<Longrightarrow> r2 \<le> (56 :: nat)"
  by (cases "64 - r1 < 8") auto

lemma holds_pad:
  assumes "holds ctxt msg" and "c_b64 ctxt = of_nat (8 * length msg)"
  shows "h_b32 (sha1_pad ctxt) = hash_blocks (h_b32 sha1_init) (padded msg)"
proof -
  define m1 where "m1 = msg @ [0x80]"
  define m2 where "m2 = m1 @ replicate (overflow_zeros m1) 0"
  define m3 where "m3 = m2 @ replicate (56 - length m2 mod 64) 0"
  define c2 where "c2 = pad_overflow (PUTPAD 0x80 ctxt)"
  have c2: "holds c2 m2" "c_b64 c2 = of_nat (8 * length msg)"
    using holds_pad_overflow [OF holds_PUTPAD(1) [OF assms(1), of "0x80"]] holds_PUTPAD(2) [OF assms(1), of "0x80"] assms(2)
    unfolding c2_def m2_def m1_def by simp_all
  have r: "length msg mod 64 < 64" "length m1 mod 64 < 64" by simp_all
  have l1: "length m1 mod 64 = (if length msg mod 64 < 63 then length msg mod 64 + 1 else 0)"
    using mod_part [of "length msg" 1] r(1) by (auto simp: m1_def)
  have l2: "length m2 mod 64 = (if 64 - length m1 mod 64 < 8 then 0 else length m1 mod 64)"
    using mod_part [of "length m1" "overflow_zeros m1"] r(2) by (auto simp: m2_def overflow_zeros_def)
  have small: "length m2 mod 64 \<le> 56" by (rule room_for_length [OF l2])
  have z: "overflow_zeros m1 + (56 - length m2 mod 64) = (119 - length msg mod 64) mod 64"
    by (rule zeros_count [OF l1 overflow_zeros_def l2 r(1)])
  have "m3 = msg @ [0x80] @ replicate ((119 - length msg mod 64) mod 64) 0"
    unfolding z [symmetric] replicate_add m3_def m2_def m1_def by simp
  moreover have "holds (sha1_pad ctxt) (m3 @ map (c_b8 c2) [7, 6, 5, 4, 3, 2, 1, 0])"
    using holds_length_bytes [OF holds_zeros [OF c2(1) small], of "[7, 6, 5, 4, 3, 2, 1, 0]"]
    unfolding sha1_pad_def Let_def c2_def [symmetric] count_index [OF c2(1)] m3_def c_b8_def by simp
  moreover have "map (c_b8 c2) [7, 6, 5, 4, 3, 2, 1, 0] = be_bytes 8 (of_nat (8 * length msg) :: u64)"
    unfolding be_bytes_def c_b8_def c2(2) by (simp add: upt_rec)
  ultimately show ?thesis unfolding holds_def padded_def by simp
qed

lemma list_of_five: "length xs = 5 \<Longrightarrow> xs = [xs ! 0, xs ! 1, xs ! 2, xs ! 3, xs ! 4]"
  by (rule nth_equalityI) (auto simp: less_Suc_eq numeral_eq_Suc)

lemma hash_blocks_length: "length H = 5 \<Longrightarrow> length (hash_blocks H msg) = 5"
proof (induction H msg rule: hash_blocks.induct)
  case (1 H msg)
  have "length (compress H (take 64 msg)) = 5" by (simp add: compress_def split: prod.split)
  with 1 show ?case by (subst hash_blocks.simps) simp
qed

lemma digest_bytes:
  assumes "length (h_b32 ctxt) = 5"
  shows "map (h_b8 ctxt) [3, 2, 1, 0, 7, 6, 5, 4, 11, 10, 9, 8, 15, 14, 13, 12, 19, 18, 17, 16] =
    concat (map (be_bytes 4) (h_b32 ctxt))"
proof -
  have b: "be_bytes 4 x = [ucast (drop_bit 24 x), ucast (drop_bit 16 x), ucast (drop_bit 8 x), ucast (drop_bit 0 x)]" for x :: u32
    by (simp add: be_bytes_def upt_rec)
  show ?thesis by (subst list_of_five [OF assms]) (simp only: list.map concat.simps b append.simps, simp add: h_b8_def)
qed

lemma lws_SHA1_fips: "lws_SHA1 d = fips_sha1 d"
proof -
  let ?c = "sha1_loop sha1_init d"
  have "holds ?c d" "c_b64 ?c = of_nat (8 * length d)" using holds_loop [OF holds_init, of d] by (simp_all add: sha1_init_def)
  then have h: "h_b32 (sha1_pad ?c) = hash_blocks (h_b32 sha1_init) (padded d)" by (rule holds_pad)
  then have "length (h_b32 (sha1_pad ?c)) = 5" by (simp add: hash_blocks_length sha1_init_def)
  then show ?thesis
    unfolding lws_SHA1_def sha1_result_def Let_def by (simp only: digest_bytes h) (simp add: fips_sha1_def sha1_init_def)
qed

lemma length_be_bytes [simp]: "length (be_bytes k x) = k"
  by (simp add: be_bytes_def)

lemma length_fips_sha1: "length (fips_sha1 d) = 20"
proof -
  have "length (concat (map (be_bytes 4) ws)) = 4 * length ws" for ws :: "u32 list" by (induction ws) simp_all
  then show ?thesis by (simp add: fips_sha1_def hash_blocks_length)
qed

text \<open>C16. The library's digest is that of FIPS 180-4, for every input: the buffer filled in pieces, the ring
  of 16 words in place of the schedule of 80, the padding with or without an extra block and the
  digest read through the bytes of little-endian words compute the standard's function (for inputs
  longer than it admits, with the length field modulo \<open>2 ^ 64\<close>).\<close>

theorem sha1_is_fips: "lws_SHA1 d = fips_sha1 d"
  by (rule lws_SHA1_fips)

end
