(* ===== verification/Lws_Pollfd.thy ===== *)
theory Lws_Pollfd
  imports Example_Run
begin

text \<open>
  The library's table of polled descriptors (\<^verbatim>\<open>core-net/pollfd.c\<close> and \<^verbatim>\<open>plat/unix/unix-fds.c\<close> under
  \<^verbatim>\<open>src/foreign/libwebsockets/lib\<close>): the array \<open>pt->fds\<close>, the connections' positions in it, the lookup
  array from descriptors to connections in its direct and its searched form, and the callbacks to
  protocol 0 through which the server of \<^verbatim>\<open>serveri.cpp\<close> keeps its own table.

  A connection is a number; \<open>conns\<close> is the heap. The callback is the server's, which returns 0 for every
  reason. The default event loop has no \<open>io\<close> operation and \<open>lws_plat_change_pollfd\<close> returns 0.
\<close>

unbundle bit_operations_syntax

section \<open>State\<close>

definition LWS_NO_FDS_POS :: int where "LWS_NO_FDS_POS = -1"
definition LWS_POLLIN :: int where "LWS_POLLIN = 1"
definition LWS_POLLOUT :: int where "LWS_POLLOUT = 4"
definition LWS_SOCK_INVALID :: int where "LWS_SOCK_INVALID = -1"

record conn =
  sockfd :: int
  position_in_fds_table :: int
  has_vhost :: bool
  has_protocol :: bool
  event_pipe :: bool
  http2_substream :: bool
  handling_pollout :: bool
  leave_pollout_active :: bool

text \<open>The context with its one service thread. \<open>fds\<close> has \<open>fd_limit_per_thread\<close> slots, \<open>lws_lookup\<close> has
  \<open>max_fds\<close>; \<open>listeners\<close> are the listening connections of the virtual hosts; \<open>cancelled\<close> counts the
  wake-ups of the service thread; \<open>malloc_ok\<close> is the allocator's answer.\<close>

record lws_context =
  fds :: "pollfd list"
  fds_count :: nat
  count_conns :: u64
  inside_poll :: bool
  foreign_pfd_list :: "(int \<times> int \<times> int) list"
  service_tid :: int
  lws_lookup :: "wsi option list"
  max_fds :: int
  max_fds_unrelated_to_ulimit :: bool
  fd_limit_per_thread :: u32
  listeners :: "wsi option list"
  same_vh_protocol :: "wsi list"
  being_destroyed :: bool
  cancelled :: nat
  malloc_ok :: bool
  conns :: "wsi \<Rightarrow> conn"
  app :: serveri

definition upd_conn :: "wsi \<Rightarrow> (conn \<Rightarrow> conn) \<Rightarrow> lws_context \<Rightarrow> lws_context" where
  "upd_conn w f ctx = ctx\<lparr>conns := (conns ctx)(w := f (conns ctx w))\<rparr>"

section \<open>From descriptors to connections\<close>

text \<open>The direct form: the descriptor is the index.\<close>

definition direct_get :: "wsi option list \<Rightarrow> int \<Rightarrow> wsi option res" where
  "direct_get L f = (if f < 0 then Inl Undefined_behaviour else vec_get L (nat f))"

definition direct_insert :: "int \<Rightarrow> wsi \<Rightarrow> wsi option list \<Rightarrow> (int \<times> wsi option list) res" where
  "direct_insert f w L =
     bind_res (direct_get L f) (\<lambda>p. bind_res (assert_that (p = None)) (\<lambda>_. Inr (0, L[nat f := Some w])))"

definition direct_delete :: "int \<Rightarrow> wsi option list \<Rightarrow> wsi option list res" where
  "direct_delete f L = bind_res (direct_get L f) (\<lambda>_. Inr (L[nat f := None]))"

text \<open>The searched form: any slot may hold the connection, whose descriptor is read through \<open>key\<close>.\<close>

definition holds_fd :: "(wsi \<Rightarrow> int) \<Rightarrow> int \<Rightarrow> wsi option \<Rightarrow> bool" where
  "holds_fd key f p = (case p of None \<Rightarrow> False | Some w \<Rightarrow> key w = f)"

fun slow_get :: "(wsi \<Rightarrow> int) \<Rightarrow> wsi option list \<Rightarrow> int \<Rightarrow> wsi option" where
  "slow_get key [] f = None"
| "slow_get key (p # ps) f = (if holds_fd key f p then p else slow_get key ps f)"

text \<open>An insertion checks first that neither the connection nor its descriptor is there; a deletion checks
  afterwards that the descriptor is gone. The build has these assertions, since \<open>lws_config.h\<close> defines
  \<open>_DEBUG\<close>.\<close>

fun fill_free :: "wsi \<Rightarrow> wsi option list \<Rightarrow> int \<times> wsi option list" where
  "fill_free w [] = (1, [])"
| "fill_free w (None # ps) = (0, Some w # ps)"
| "fill_free w (Some v # ps) = (let (r, ps') = fill_free w ps in (r, Some v # ps'))"

definition slow_insert :: "(wsi \<Rightarrow> int) \<Rightarrow> wsi \<Rightarrow> wsi option list \<Rightarrow> (int \<times> wsi option list) res" where
  "slow_insert key w L =
     bind_res (assert_that (Some w \<notin> set L)) (\<lambda>_.
     bind_res (assert_that (\<not> list_ex (holds_fd key (key w)) L)) (\<lambda>_. Inr (fill_free w L)))"

fun clear_match :: "(wsi \<Rightarrow> int) \<Rightarrow> int \<Rightarrow> wsi option list \<Rightarrow> wsi option list" where
  "clear_match key f [] = []"
| "clear_match key f (p # ps) = (if holds_fd key f p then None # ps else p # clear_match key f ps)"

definition slow_delete :: "(wsi \<Rightarrow> int) \<Rightarrow> int \<Rightarrow> wsi option list \<Rightarrow> wsi option list res" where
  "slow_delete key f L =
     (let L' = clear_match key f L in bind_res (assert_that (\<not> list_ex (holds_fd key f) L')) (\<lambda>_. Inr L'))"

definition wsi_from_fd :: "lws_context \<Rightarrow> int \<Rightarrow> wsi option res" where
  "wsi_from_fd ctx f =
     (if \<not> max_fds_unrelated_to_ulimit ctx then direct_get (lws_lookup ctx) f
      else Inr (slow_get (sockfd \<circ> conns ctx) (lws_lookup ctx) f))"

definition insert_wsi :: "wsi \<Rightarrow> lws_context \<Rightarrow> (int \<times> lws_context) res" where
  "insert_wsi w ctx =
     bind_res (if \<not> max_fds_unrelated_to_ulimit ctx then direct_insert (sockfd (conns ctx w)) w (lws_lookup ctx)
               else slow_insert (sockfd \<circ> conns ctx) w (lws_lookup ctx))
       (\<lambda>(r, L). Inr (r, ctx\<lparr>lws_lookup := L\<rparr>))"

definition delete_from_fd :: "int \<Rightarrow> lws_context \<Rightarrow> lws_context res" where
  "delete_from_fd f ctx =
     bind_res (if \<not> max_fds_unrelated_to_ulimit ctx then direct_delete f (lws_lookup ctx)
               else slow_delete (sockfd \<circ> conns ctx) f (lws_lookup ctx))
       (\<lambda>L. Inr (ctx\<lparr>lws_lookup := L\<rparr>))"

definition lws_plat_insert_socket_into_fds :: "lws_context \<Rightarrow> lws_context res" where
  "lws_plat_insert_socket_into_fds ctx =
     bind_res (vec_get (fds ctx) (fds_count ctx)) (\<lambda>p.
       Inr (ctx\<lparr>fds := (fds ctx)[fds_count ctx := p\<lparr>revents := 0\<rparr>], fds_count := fds_count ctx + 1\<rparr>))"

definition lws_plat_delete_socket_from_fds :: "lws_context \<Rightarrow> lws_context" where
  "lws_plat_delete_socket_from_fds ctx = ctx\<lparr>fds_count := fds_count ctx - 1\<rparr>"

section \<open>The table\<close>

text \<open>A callback to protocol 0, for a connection that has a virtual host.\<close>

definition protocol0 :: "(wsi \<Rightarrow> string) \<Rightarrow> wsi \<Rightarrow> lws_reason \<Rightarrow> lws_context \<Rightarrow> (int \<times> lws_context) res" where
  "protocol0 peer w reason ctx =
     (if has_vhost (conns ctx w)
      then bind_res (callback peer w reason (app ctx)) (\<lambda>s. Inr (0, ctx\<lparr>app := s\<rparr>))
      else Inr (0, ctx))"

definition CB_GET_THREAD_ID :: lws_reason where "CB_GET_THREAD_ID = CB_other 31"
definition CB_LOCK_POLL :: lws_reason where "CB_LOCK_POLL = CB_other 35"
definition CB_UNLOCK_POLL :: lws_reason where "CB_UNLOCK_POLL = CB_other 36"

definition defer_change :: "wsi \<Rightarrow> int \<Rightarrow> int \<Rightarrow> lws_context \<Rightarrow> int \<times> lws_context" where
  "defer_change w and' or' ctx =
     (if \<not> malloc_ok ctx then (-1, ctx)
      else (0, ctx\<lparr>foreign_pfd_list := foreign_pfd_list ctx @ [(position_in_fds_table (conns ctx w), and', or')],
                   cancelled := cancelled ctx + 1\<rparr>))"

definition wake_other_thread :: "(wsi \<Rightarrow> string) \<Rightarrow> wsi \<Rightarrow> lws_context \<Rightarrow> (int \<times> lws_context) res" where
  "wake_other_thread peer w ctx =
     (let sampled_tid = service_tid ctx
      in if sampled_tid \<noteq> 0 \<and> has_vhost (conns ctx w)
         then bind_res (protocol0 peer w CB_GET_THREAD_ID ctx) (\<lambda>(tid, ctx).
           if tid = -1 then Inr (-1, ctx)
           else if tid \<noteq> sampled_tid then Inr (0, ctx\<lparr>cancelled := cancelled ctx + 1\<rparr>)
           else Inr (0, ctx))
         else Inr (0, ctx))"

text \<open>\<open>_lws_change_pollfd\<close>\<close>

definition change_pollfd_pa :: "(wsi \<Rightarrow> string) \<Rightarrow> wsi \<Rightarrow> int \<Rightarrow> int \<Rightarrow> lws_context \<Rightarrow> (int \<times> lws_context) res" where
  "change_pollfd_pa peer w and' or' ctx =
     (let c = conns ctx w; pos = position_in_fds_table c in
      bind_res (assert_that (pos = LWS_NO_FDS_POS \<or> pos \<ge> 0)) (\<lambda>_.
      if pos = LWS_NO_FDS_POS then Inr (0, ctx)
      else if handling_pollout c \<and> and' = 0 \<and> or' = LWS_POLLOUT
      then Inr (0, upd_conn w (\<lambda>c. c\<lparr>leave_pollout_active := True\<rparr>) ctx)
      else
        bind_res (assert_that (pos < int (fds_count ctx))) (\<lambda>_.
        if inside_poll ctx then Inr (defer_change w and' or' ctx)
        else
          bind_res (vec_get (fds ctx) (nat pos)) (\<lambda>pfd.
          let prev_events = events pfd;
              new_events = word_of_int ((sint prev_events AND NOT and') OR or');
              ctx = ctx\<lparr>fds := (fds ctx)[nat pos := pfd\<lparr>events := new_events\<rparr>]\<rparr>
          in if http2_substream c then Inr (0, ctx)
             else
               bind_res (protocol0 peer w (CB_CHANGE_MODE_POLL_FD (sockfd c) (sint new_events)) ctx) (\<lambda>(r, ctx).
               if r \<noteq> 0 then Inr (-1, ctx)
               else if prev_events \<noteq> new_events then wake_other_thread peer w ctx
               else Inr (0, ctx))))))"

definition lws_accept_modulation :: "(wsi \<Rightarrow> string) \<Rightarrow> bool \<Rightarrow> lws_context \<Rightarrow> lws_context res" where
  "lws_accept_modulation peer allow ctx =
     for_each (\<lambda>l ctx. case l of None \<Rightarrow> Inr ctx
       | Some w \<Rightarrow> bind_res (if allow then change_pollfd_pa peer w 0 LWS_POLLIN ctx else change_pollfd_pa peer w LWS_POLLIN 0 ctx)
                      (\<lambda>(r, ctx). Inr ctx))
       (listeners ctx) ctx"

text \<open>\<open>__insert_wsi_socket_into_fds\<close>: the slot is filled, then protocol 0 is told.\<close>

definition fill_slot :: "wsi \<Rightarrow> lws_context \<Rightarrow> lws_context res" where
  "fill_slot w ctx =
     (let n = fds_count ctx;
          ctx = upd_conn w (\<lambda>c. c\<lparr>position_in_fds_table := int n\<rparr>) (ctx\<lparr>count_conns := count_conns ctx + 1\<rparr>)
      in bind_res (vec_get (fds ctx) n) (\<lambda>p.
         lws_plat_insert_socket_into_fds
           (ctx\<lparr>fds := (fds ctx)[n := p\<lparr>fd := sockfd (conns ctx w), events := word_of_int LWS_POLLIN\<rparr>]\<rparr>)))"

definition insert_wsi_socket_into_fds :: "(wsi \<Rightarrow> string) \<Rightarrow> wsi \<Rightarrow> lws_context \<Rightarrow> (int \<times> lws_context) res" where
  "insert_wsi_socket_into_fds peer w ctx =
     (let c = conns ctx w in
      if fds_count ctx \<ge> unat (fd_limit_per_thread ctx) then Inr (1, ctx)
      else if \<not> max_fds_unrelated_to_ulimit ctx \<and> sockfd c \<ge> max_fds ctx then Inr (1, ctx)
      else
        bind_res (assert_that (event_pipe c \<or> has_vhost c)) (\<lambda>_.
        bind_res (assert_that (sockfd c \<noteq> LWS_SOCK_INVALID)) (\<lambda>_.
        bind_res (protocol0 peer w CB_LOCK_POLL ctx) (\<lambda>(r, ctx).
        if r \<noteq> 0 then Inr (-1, ctx)
        else
          bind_res (insert_wsi w ctx) (\<lambda>(r, ctx).
          if r \<noteq> 0 then Inr (-1, ctx)
          else
            bind_res (fill_slot w ctx) (\<lambda>ctx.
            bind_res (protocol0 peer w (CB_ADD_POLL_FD (sockfd c) LWS_POLLIN) ctx) (\<lambda>(r, ctx).
            let ret = (if r \<noteq> 0 then -1 else 0) in
            bind_res (if fds_count ctx = unat (fd_limit_per_thread ctx - 1)
                      then lws_accept_modulation peer False ctx else Inr ctx) (\<lambda>ctx.
            bind_res (protocol0 peer w CB_UNLOCK_POLL ctx) (\<lambda>(r, ctx).
            Inr (if r \<noteq> 0 then -1 else ret, ctx))))))))))"

definition lws_same_vh_protocol_remove :: "wsi \<Rightarrow> lws_context \<Rightarrow> lws_context" where
  "lws_same_vh_protocol_remove w ctx =
     (if has_vhost (conns ctx w) then ctx\<lparr>same_vh_protocol := removeAll w (same_vh_protocol ctx)\<rparr> else ctx)"

text \<open>\<open>__remove_wsi_socket_from_fds\<close>: the last entry takes the vacant slot, and its connection learns
  its new position.\<close>

definition vacate_slot :: "wsi \<Rightarrow> lws_context \<Rightarrow> lws_context res" where
  "vacate_slot w ctx =
     (let m = position_in_fds_table (conns ctx w) in
      bind_res (assert_that (fds_count ctx \<noteq> 0 \<and> nat m \<noteq> fds_count ctx)) (\<lambda>_.
      bind_res (delete_from_fd (sockfd (conns ctx w)) ctx) (\<lambda>ctx.
      let last = fds_count ctx - 1; fixup = (nat m \<noteq> last) in
      bind_res (vec_get (fds ctx) last) (\<lambda>p.
      bind_res (if fixup then vec_set (fds ctx) (nat m) p else Inr (fds ctx)) (\<lambda>ps.
      let ctx = lws_plat_delete_socket_from_fds (ctx\<lparr>fds := ps[last := p\<lparr>fd := -1\<rparr>]\<rparr>);
          ctx = ctx\<lparr>count_conns := count_conns ctx - 1\<rparr>
      in bind_res
           (if fixup
            then bind_res (wsi_from_fd ctx (fd (fds ctx ! nat m))) (\<lambda>e.
              case e of None \<Rightarrow> Inl Assertion_failure
              | Some end_wsi \<Rightarrow> Inr (upd_conn end_wsi (\<lambda>c. c\<lparr>position_in_fds_table := m\<rparr>) ctx))
            else Inr ctx) (\<lambda>ctx.
         Inr (upd_conn w (\<lambda>c. c\<lparr>position_in_fds_table := LWS_NO_FDS_POS\<rparr>) ctx)))))))"

definition remove_wsi_socket_from_fds :: "(wsi \<Rightarrow> string) \<Rightarrow> wsi \<Rightarrow> lws_context \<Rightarrow> (int \<times> lws_context) res" where
  "remove_wsi_socket_from_fds peer w ctx =
     (let c = conns ctx w; m = position_in_fds_table c in
      if \<not> max_fds_unrelated_to_ulimit ctx \<and> sockfd c > max_fds ctx then Inr (1, ctx)
      else
        bind_res (protocol0 peer w CB_LOCK_POLL ctx) (\<lambda>(r, ctx).
        if r \<noteq> 0 then Inr (-1, ctx)
        else
          let ctx = lws_same_vh_protocol_remove w ctx in
          bind_res (assert_that (m = LWS_NO_FDS_POS \<or> (m \<ge> 0 \<and> nat m < fds_count ctx))) (\<lambda>_.
          bind_res (if m \<noteq> LWS_NO_FDS_POS then vacate_slot w ctx else Inr ctx) (\<lambda>ctx.
          bind_res (if sockfd c \<noteq> LWS_SOCK_INVALID then protocol0 peer w (CB_DEL_POLL_FD (sockfd c)) ctx else Inr (0, ctx)) (\<lambda>(r, ctx).
          let ret = (if r \<noteq> 0 then -1 else 0) in
          bind_res (if \<not> being_destroyed ctx \<and> fds_count ctx < unat (fd_limit_per_thread ctx - 1)
                    then lws_accept_modulation peer True ctx else Inr ctx) (\<lambda>ctx.
          bind_res (protocol0 peer w CB_UNLOCK_POLL ctx) (\<lambda>(r, ctx).
          Inr (if r \<noteq> 0 then -1 else ret, ctx))))))))"

text \<open>\<open>__lws_change_pollfd\<close>\<close>

definition change_pollfd :: "(wsi \<Rightarrow> string) \<Rightarrow> wsi \<Rightarrow> int \<Rightarrow> int \<Rightarrow> lws_context \<Rightarrow> (int \<times> lws_context) res" where
  "change_pollfd peer w and' or' ctx =
     (let c = conns ctx w in
      if (\<not> has_protocol c \<and> \<not> event_pipe c) \<or> position_in_fds_table c = LWS_NO_FDS_POS then Inr (0, ctx)
      else
        bind_res (protocol0 peer w CB_LOCK_POLL ctx) (\<lambda>(r, ctx).
        if r \<noteq> 0 then Inr (-1, ctx)
        else
          bind_res (change_pollfd_pa peer w and' or' ctx) (\<lambda>(ret, ctx).
          bind_res (protocol0 peer w CB_UNLOCK_POLL ctx) (\<lambda>(r, ctx).
          Inr (if r \<noteq> 0 then -1 else ret, ctx)))))"

text \<open>\<open>lws_change_pollfd\<close>, which takes the lock of the thread's state around it.\<close>

definition lws_change_pollfd :: "(wsi \<Rightarrow> string) \<Rightarrow> wsi \<Rightarrow> int \<Rightarrow> int \<Rightarrow> lws_context \<Rightarrow> (int \<times> lws_context) res" where
  "lws_change_pollfd peer w and' or' ctx = change_pollfd peer w and' or' ctx"

text \<open>What the server sees of a change: callbacks of the kinds \<open>poll_call\<close> has, in some order. This is what the
  model of the poll loop assumes of \<open>lws_callback_on_writable\<close>.\<close>

definition polled :: "(wsi \<Rightarrow> string) \<Rightarrow> wsi \<Rightarrow> lws_context \<Rightarrow> lws_context \<Rightarrow> bool" where
  "polled peer w ctx ctx' \<longleftrightarrow> (\<exists>calls. for_each (\<lambda>c. callback peer w (poll_reason c)) calls (app ctx) = Inr (app ctx'))"

lemma polled_same: "app ctx' = app ctx \<Longrightarrow> polled peer w ctx ctx'"
  unfolding polled_def by (rule exI [of _ "[]"]) simp

lemma polled_trans: "polled peer w a b \<Longrightarrow> polled peer w b c \<Longrightarrow> polled peer w a c"
  unfolding polled_def by (metis for_each_append bind_res_simps(2))

lemma protocol0_polled:
  assumes "protocol0 peer w reason ctx = Inr (r, ctx')" and "reason = poll_reason c"
  shows "polled peer w ctx ctx'"
proof (cases "has_vhost (conns ctx w)")
  case True
  with assms obtain s where "callback peer w (poll_reason c) (app ctx) = Inr s" "ctx' = ctx\<lparr>app := s\<rparr>"
    by (auto simp: protocol0_def bind_res_def split: sum.splits)
  then show ?thesis unfolding polled_def by (intro exI [of _ "[c]"]) simp
next
  case False
  with assms show ?thesis by (auto simp: protocol0_def intro: polled_same)
qed

lemma wake_polled:
  assumes "wake_other_thread peer w ctx = Inr (r, ctx')"
  shows "polled peer w ctx ctx'"
proof (cases "service_tid ctx \<noteq> 0 \<and> has_vhost (conns ctx w)")
  case True
  with assms obtain tid ctx1 where 1: "protocol0 peer w CB_GET_THREAD_ID ctx = Inr (tid, ctx1)" "app ctx' = app ctx1"
    by (auto simp: wake_other_thread_def Let_def bind_res_def split: sum.splits if_splits)
  have "polled peer w ctx ctx1" using protocol0_polled [OF 1(1), of "Other_call 31"] by (simp add: CB_GET_THREAD_ID_def)
  with polled_same [OF 1(2)] show ?thesis by (rule polled_trans [rotated])
next
  case False
  with assms show ?thesis by (auto simp: wake_other_thread_def intro: polled_same)
qed

lemma change_mode_polled:
  assumes "protocol0 peer w (CB_CHANGE_MODE_POLL_FD f ev) ctx0 = Inr (r0, ctx1)" and "app ctx0 = app ctx"
    and "(if r0 \<noteq> 0 then Inr (-1, ctx1) else if b then wake_other_thread peer w ctx1 else Inr (0, ctx1)) = Inr (r, ctx')"
  shows "polled peer w ctx ctx'"
proof -
  have "polled peer w ctx ctx0" using assms(2) by (rule polled_same)
  moreover have "polled peer w ctx0 ctx1" using protocol0_polled [OF assms(1), of "Change_mode f ev"] by simp
  moreover have "polled peer w ctx1 ctx'" using assms(3) wake_polled by (auto split: if_splits intro: polled_same)
  ultimately show ?thesis by (blast intro: polled_trans)
qed

lemma change_pollfd_pa_polled:
  assumes "change_pollfd_pa peer w and' or' ctx = Inr (r, ctx')"
  shows "polled peer w ctx ctx'"
proof -
  consider "app ctx' = app ctx"
    | f ev ctx0 r0 ctx1 b where "protocol0 peer w (CB_CHANGE_MODE_POLL_FD f ev) ctx0 = Inr (r0, ctx1)" "app ctx0 = app ctx"
      "(if r0 \<noteq> 0 then Inr (-1, ctx1) else if b then wake_other_thread peer w ctx1 else Inr (0, ctx1)) = Inr (r, ctx')"
    using assms unfolding change_pollfd_pa_def Let_def
    by (elim bind_res_InrE) (auto simp: defer_change_def upd_conn_def split: if_splits elim!: bind_res_InrE)
  then show ?thesis by cases (auto intro: polled_same change_mode_polled)
qed

lemma lws_change_pollfd_polled:
  assumes "lws_change_pollfd peer w and' or' ctx = Inr (r, ctx')"
  shows "polled peer w ctx ctx'"
proof (cases "(\<not> has_protocol (conns ctx w) \<and> \<not> event_pipe (conns ctx w)) \<or> position_in_fds_table (conns ctx w) = LWS_NO_FDS_POS")
  case True
  with assms show ?thesis by (auto simp: lws_change_pollfd_def change_pollfd_def intro: polled_same)
next
  case False
  from assms obtain r1 ctx1 where
    1: "protocol0 peer w CB_LOCK_POLL ctx = Inr (r1, ctx1)"
       "(if r1 \<noteq> 0 then Inr (-1, ctx1) else bind_res (change_pollfd_pa peer w and' or' ctx1) (\<lambda>(ret, ctx).
          bind_res (protocol0 peer w CB_UNLOCK_POLL ctx) (\<lambda>(r, ctx). Inr (if r \<noteq> 0 then -1 else ret, ctx)))) = Inr (r, ctx')"
    unfolding lws_change_pollfd_def change_pollfd_def Let_def if_not_P [OF False] by (auto elim!: bind_res_InrE)
  have lock: "polled peer w ctx ctx1" using protocol0_polled [OF 1(1), of "Other_call 35"] by (simp add: CB_LOCK_POLL_def)
  show ?thesis
  proof (cases "r1 = 0")
    case True
    with 1(2) obtain ret ctx2 r2 where 2: "change_pollfd_pa peer w and' or' ctx1 = Inr (ret, ctx2)"
      "protocol0 peer w CB_UNLOCK_POLL ctx2 = Inr (r2, ctx')" by (auto elim!: bind_res_InrE)
    have "polled peer w ctx2 ctx'" using protocol0_polled [OF 2(2), of "Other_call 36"] by (simp add: CB_UNLOCK_POLL_def)
    with lock change_pollfd_pa_polled [OF 2(1)] show ?thesis by (blast intro: polled_trans)
  next
    case False
    with 1(2) lock show ?thesis by simp
  qed
qed

section \<open>Looking up a connection\<close>

text \<open>What the table asks of the lookup array: it holds a set of connections, whose descriptors (given
  by a key) differ, and it finds each of them by its descriptor.\<close>

locale fd_lookup =
  fixes get :: "('w \<Rightarrow> int) \<Rightarrow> 'l \<Rightarrow> int \<Rightarrow> 'w option res"
    and ins :: "('w \<Rightarrow> int) \<Rightarrow> 'w \<Rightarrow> 'l \<Rightarrow> (int \<times> 'l) res"
    and del :: "('w \<Rightarrow> int) \<Rightarrow> int \<Rightarrow> 'l \<Rightarrow> 'l res"
    and has :: "('w \<Rightarrow> int) \<Rightarrow> 'l \<Rightarrow> 'w set \<Rightarrow> bool"
    and fits :: "int \<Rightarrow> 'l \<Rightarrow> bool"
  assumes key_inj: "has key L S \<Longrightarrow> inj_on key S"
    and get_in: "has key L S \<Longrightarrow> w \<in> S \<Longrightarrow> get key L (key w) = Inr (Some w)"
    and ins_new: "has key L S \<Longrightarrow> w \<notin> S \<Longrightarrow> key w \<notin> key ` S \<Longrightarrow> fits (key w) L \<Longrightarrow>
       succeeds (\<lambda>(r, L'). has key L' (if r = 0 then insert w S else S)) (ins key w L)"
    and del_in: "has key L S \<Longrightarrow> w \<in> S \<Longrightarrow> succeeds (\<lambda>L'. has key L' (S - {w})) (del key (key w) L)"
begin

lemma get_unique: "has key L S \<Longrightarrow> w \<in> S \<Longrightarrow> v \<in> S \<Longrightarrow> key w = key v \<Longrightarrow> w = v"
  using key_inj by (auto dest: inj_onD)

lemma del_keeps:
  "has key L S \<Longrightarrow> w \<in> S \<Longrightarrow>
     succeeds (\<lambda>L'. has key L' (S - {w}) \<and> (\<forall>v \<in> S. v \<noteq> w \<longrightarrow> get key L' (key v) = Inr (Some v))) (del key (key w) L)"
  by (rule succeeds_mono [OF del_in]) (auto intro: get_in)

end

definition direct_has :: "(wsi \<Rightarrow> int) \<Rightarrow> wsi option list \<Rightarrow> wsi set \<Rightarrow> bool" where
  "direct_has key L S \<longleftrightarrow>
     (\<forall>w \<in> S. 0 \<le> key w \<and> nat (key w) < length L \<and> L ! nat (key w) = Some w) \<and>
     (\<forall>i w. i < length L \<longrightarrow> L ! i = Some w \<longrightarrow> w \<in> S \<and> key w = int i)"

definition direct_fits :: "int \<Rightarrow> wsi option list \<Rightarrow> bool" where
  "direct_fits f L \<longleftrightarrow> 0 \<le> f \<and> f < int (length L)"

lemma direct_hasD:
  "direct_has key L S \<Longrightarrow> w \<in> S \<Longrightarrow> 0 \<le> key w \<and> nat (key w) < length L \<and> L ! nat (key w) = Some w"
  by (simp add: direct_has_def)

lemma direct_hasD2: "direct_has key L S \<Longrightarrow> i < length L \<Longrightarrow> L ! i = Some w \<Longrightarrow> w \<in> S \<and> key w = int i"
  unfolding direct_has_def by blast

lemma direct_inj: "direct_has key L S \<Longrightarrow> inj_on key S"
proof (rule inj_onI)
  fix v w
  assume h: "direct_has key L S" and S: "v \<in> S" "w \<in> S" and k: "key v = key w"
  have "L ! nat (key v) = Some v" "L ! nat (key w) = Some w" using direct_hasD [OF h S(1)] direct_hasD [OF h S(2)] by blast+
  then show "v = w" unfolding k by simp
qed

lemma direct_ins_has:
  assumes h: "direct_has key L S" and w: "key w \<notin> key ` S" "direct_fits (key w) L"
  shows "L ! nat (key w) = None" and "direct_has key (L[nat (key w) := Some w]) (insert w S)"
proof -
  have n: "0 \<le> key w" "nat (key w) < length L" using w(2) by (auto simp: direct_fits_def)
  show "L ! nat (key w) = None"
  proof (cases "L ! nat (key w)")
    case (Some v)
    from direct_hasD2 [OF h n(2) this] n(1) have "v \<in> S" "key v = key w" by simp_all
    with w(1) show ?thesis by (metis image_eqI)
  qed
  show "direct_has key (L[nat (key w) := Some w]) (insert w S)" unfolding direct_has_def
  proof (intro conjI ballI allI impI)
    fix v assume v: "v \<in> insert w S"
    have "0 \<le> key v \<and> nat (key v) < length L \<and> L[nat (key w) := Some w] ! nat (key v) = Some v"
    proof (cases "v = w")
      case True
      with n show ?thesis by simp
    next
      case False
      with v have S: "v \<in> S" by simp
      then have "key v \<noteq> key w" using w(1) by (metis image_eqI)
      with direct_hasD [OF h S] n(1) show ?thesis by (simp add: eq_nat_nat_iff)
    qed
    then show "0 \<le> key v" "nat (key v) < length (L[nat (key w) := Some w])" "L[nat (key w) := Some w] ! nat (key v) = Some v"
      by simp_all
  next
    fix i v assume i: "i < length (L[nat (key w) := Some w])" "L[nat (key w) := Some w] ! i = Some v"
    have "v \<in> insert w S \<and> key v = int i"
    proof (cases "i = nat (key w)")
      case True
      with i n show ?thesis by simp
    next
      case False
      with i direct_hasD2 [OF h, of i v] show ?thesis by simp
    qed
    then show "v \<in> insert w S" "key v = int i" by simp_all
  qed
qed

lemma direct_del_has:
  assumes h: "direct_has key L S" and w: "w \<in> S"
  shows "direct_has key (L[nat (key w) := None]) (S - {w})"
  unfolding direct_has_def
proof (intro conjI ballI allI impI)
  fix v assume v: "v \<in> S - {w}"
  then have "key v \<noteq> key w" using direct_inj [OF h] w by (auto dest: inj_onD)
  then show "0 \<le> key v" "nat (key v) < length (L[nat (key w) := None])" "L[nat (key w) := None] ! nat (key v) = Some v"
    using v direct_hasD [OF h, of v] direct_hasD [OF h w] by (auto simp: nth_list_update eq_nat_nat_iff)
next
  fix i v assume i: "i < length (L[nat (key w) := None])" "L[nat (key w) := None] ! i = Some v"
  then have "i \<noteq> nat (key w)" by auto
  with i direct_hasD2 [OF h, of i v] direct_hasD [OF h w] show "v \<in> S - {w}" "key v = int i" by auto
qed

interpretation direct: fd_lookup "\<lambda>_. direct_get" "\<lambda>key w. direct_insert (key w) w" "\<lambda>_. direct_delete" direct_has direct_fits
proof
  fix key :: "wsi \<Rightarrow> int" and L S w
  assume h: "direct_has key L S"
  then show "inj_on key S" by (rule direct_inj)
  show "direct_get L (key w) = Inr (Some w)" if "w \<in> S"
    using direct_hasD [OF h that] by (simp add: direct_get_def)
  show "succeeds (\<lambda>(r, L'). direct_has key L' (if r = 0 then insert w S else S)) (direct_insert (key w) w L)"
    if "w \<notin> S" "key w \<notin> key ` S" "direct_fits (key w) L"
    using direct_ins_has [OF h that(2,3)] that(3)
    by (simp add: direct_insert_def direct_get_def assert_that_def direct_fits_def nat_less_iff)
  show "succeeds (\<lambda>L'. direct_has key L' (S - {w})) (direct_delete (key w) L)" if "w \<in> S"
    using direct_del_has [OF h that] direct_hasD [OF h that] by (simp add: direct_delete_def direct_get_def)
qed

definition slow_has :: "(wsi \<Rightarrow> int) \<Rightarrow> wsi option list \<Rightarrow> wsi set \<Rightarrow> bool" where
  "slow_has key L S \<longleftrightarrow> {w. Some w \<in> set L} = S \<and> distinct (filter (\<lambda>p. p \<noteq> None) L) \<and> inj_on key S"

lemma slow_get_in: "Some w \<in> set L \<Longrightarrow> inj_on key {w. Some w \<in> set L} \<Longrightarrow> slow_get key L (key w) = Some w"
proof (induction L)
  case (Cons p L)
  have "inj_on key {w. Some w \<in> set L}" using Cons.prems(2) by (rule inj_on_subset) auto
  with Cons show ?case by (cases p) (auto simp: holds_fd_def dest: inj_onD)
qed simp

lemma fill_free_set:
  "Some w \<notin> set L \<Longrightarrow> distinct (filter (\<lambda>p. p \<noteq> None) L) \<Longrightarrow>
     {v. Some v \<in> set (snd (fill_free w L))} = (if fst (fill_free w L) = 0 then insert w else id) {v. Some v \<in> set L} \<and>
     distinct (filter (\<lambda>p. p \<noteq> None) (snd (fill_free w L)))"
proof (induction w L rule: fill_free.induct)
  case (3 w v ps)
  let ?r = "fst (fill_free w ps)" and ?ps = "snd (fill_free w ps)"
  have IH: "{v. Some v \<in> set ?ps} = (if ?r = 0 then insert w else id) {v. Some v \<in> set ps}" "distinct (filter (\<lambda>p. p \<noteq> None) ?ps)"
    using 3 by auto
  have e: "fill_free w (Some v # ps) = (?r, Some v # ?ps)" by (simp add: case_prod_beta)
  have "Some v \<in> set ?ps \<longleftrightarrow> v \<in> (if ?r = 0 then insert w else id) {v. Some v \<in> set ps}" unfolding IH(1) [symmetric] by simp
  then have "Some v \<notin> set ?ps" using "3.prems" by (simp split: if_splits)
  moreover have "{u. Some u \<in> set (Some v # ?ps)} = insert v {u. Some u \<in> set ?ps}" for v by auto
  ultimately show ?case unfolding e using IH by (auto split: if_splits)
qed auto

lemma clear_match_set:
  "Some w \<in> set L \<Longrightarrow> distinct (filter (\<lambda>p. p \<noteq> None) L) \<Longrightarrow> inj_on key {v. Some v \<in> set L} \<Longrightarrow>
     {v. Some v \<in> set (clear_match key (key w) L)} = {v. Some v \<in> set L} - {w} \<and>
     distinct (filter (\<lambda>p. p \<noteq> None) (clear_match key (key w) L))"
proof (induction L)
  case (Cons p L)
  have i: "inj_on key {v. Some v \<in> set L}" using Cons.prems(3) by (rule inj_on_subset) auto
  show ?case
  proof (cases "p = Some w")
    case True
    then show ?thesis using Cons.prems by (auto simp: holds_fd_def)
  next
    case False
    then have w: "Some w \<in> set L" using Cons.prems(1) by simp
    have n: "\<not> holds_fd key (key w) p" using False w Cons.prems(3) by (auto simp: holds_fd_def dest!: inj_onD split: option.splits)
    have "distinct (filter (\<lambda>p. p \<noteq> None) L)" using Cons.prems(2) by (simp split: if_splits)
    note IH = Cons.IH [OF w this i]
    from False n IH Cons.prems(2) show ?thesis by (auto split: if_splits)
  qed
qed simp

lemma no_holder: "\<not> list_ex (holds_fd key f) L \<longleftrightarrow> f \<notin> key ` {v. Some v \<in> set L}"
  by (auto simp: list_ex_iff holds_fd_def image_iff split: option.splits)

interpretation searched: fd_lookup "\<lambda>key L f. Inr (slow_get key L f)" slow_insert slow_delete slow_has "\<lambda>_ _. True"
proof
  fix key :: "wsi \<Rightarrow> int" and L S w
  assume h: "slow_has key L S"
  then have S: "{v. Some v \<in> set L} = S" by (simp add: slow_has_def)
  show "inj_on key S" using h by (simp add: slow_has_def)
  show "Inr (slow_get key L (key w)) = Inr (Some w)" if "w \<in> S"
    using h that slow_get_in [of w L key] by (auto simp: slow_has_def)
  show "succeeds (\<lambda>(r, L'). slow_has key L' (if r = 0 then insert w S else S)) (slow_insert key w L)"
    if "w \<notin> S" "key w \<notin> key ` S"
  proof -
    obtain r L' where s: "fill_free w L = (r, L')" by fastforce
    have w: "Some w \<notin> set L" using S that(1) by blast
    have "slow_insert key w L = Inr (r, L')" using w that(2) s by (simp add: slow_insert_def no_holder S)
    moreover have "inj_on key (insert w S)" using h that by (simp add: slow_has_def)
    ultimately show ?thesis using fill_free_set [OF w] h by (auto simp: slow_has_def s)
  qed
  show "succeeds (\<lambda>L'. slow_has key L' (S - {w})) (slow_delete key (key w) L)" if "w \<in> S"
  proof -
    have inj: "inj_on key S" using h by (simp add: slow_has_def)
    have c: "{v. Some v \<in> set (clear_match key (key w) L)} = S - {w}" "distinct (filter (\<lambda>p. p \<noteq> None) (clear_match key (key w) L))"
      using clear_match_set [of w L key] h that S by (auto simp: slow_has_def)
    have "key w \<notin> key ` (S - {w})" using inj that by (auto dest: inj_onD)
    then have "slow_delete key (key w) L = Inr (clear_match key (key w) L)" by (simp add: slow_delete_def no_holder c(1))
    with c inj show ?thesis by (auto simp: slow_has_def intro: inj_on_diff)
  qed
qed

section \<open>The invariant of the library's table\<close>

definition registered :: "lws_context \<Rightarrow> wsi \<Rightarrow> bool" where
  "registered ctx w \<longleftrightarrow> position_in_fds_table (conns ctx w) \<noteq> LWS_NO_FDS_POS"

definition slot_of :: "lws_context \<Rightarrow> wsi \<Rightarrow> nat" where
  "slot_of ctx w = nat (position_in_fds_table (conns ctx w))"

definition lookup_ok :: "lws_context \<Rightarrow> wsi set \<Rightarrow> bool" where
  "lookup_ok ctx S \<longleftrightarrow>
     (if max_fds_unrelated_to_ulimit ctx then slow_has (sockfd \<circ> conns ctx) (lws_lookup ctx) S
      else direct_has (sockfd \<circ> conns ctx) (lws_lookup ctx) S \<and> int (length (lws_lookup ctx)) = max_fds ctx)"

text \<open>Every registered connection has its slot, every slot in use has its connection.\<close>

definition slots_ok :: "lws_context \<Rightarrow> bool" where
  "slots_ok ctx \<longleftrightarrow>
     (\<forall>w. registered ctx w \<longrightarrow> 0 \<le> position_in_fds_table (conns ctx w) \<and> slot_of ctx w < fds_count ctx \<and>
        fd (fds ctx ! slot_of ctx w) = sockfd (conns ctx w)) \<and>
     (\<forall>i < fds_count ctx. \<exists>w. registered ctx w \<and> slot_of ctx w = i) \<and>
     fds_count ctx \<le> length (fds ctx)"

definition lib_ok :: "lws_context \<Rightarrow> bool" where
  "lib_ok ctx \<longleftrightarrow>
     slots_ok ctx \<and> lookup_ok ctx {w. registered ctx w} \<and> length (fds ctx) = unat (fd_limit_per_thread ctx) \<and>
     \<not> inside_poll ctx \<and> (\<forall>w. registered ctx w \<longrightarrow> \<not> http2_substream (conns ctx w) \<and> 0 \<le> sockfd (conns ctx w))"

lemma wsi_from_fd_in: "lookup_ok ctx S \<Longrightarrow> w \<in> S \<Longrightarrow> wsi_from_fd ctx (sockfd (conns ctx w)) = Inr (Some w)"
  using direct.get_in [of "sockfd \<circ> conns ctx" _ S w] searched.get_in [of "sockfd \<circ> conns ctx" _ S w]
  by (auto simp: lookup_ok_def wsi_from_fd_def split: if_splits)

lemma lookup_inj: "lookup_ok ctx S \<Longrightarrow> v \<in> S \<Longrightarrow> w \<in> S \<Longrightarrow> sockfd (conns ctx v) = sockfd (conns ctx w) \<Longrightarrow> v = w"
  using direct.get_unique [of "sockfd \<circ> conns ctx" _ S v w] searched.get_unique [of "sockfd \<circ> conns ctx" _ S v w]
  by (auto simp: lookup_ok_def split: if_splits)

lemma insert_wsi_ok:
  assumes "lookup_ok ctx S" and "w \<notin> S" and "sockfd (conns ctx w) \<notin> (sockfd \<circ> conns ctx) ` S"
    and "\<not> max_fds_unrelated_to_ulimit ctx \<Longrightarrow> 0 \<le> sockfd (conns ctx w) \<and> sockfd (conns ctx w) < max_fds ctx"
  shows "succeeds (\<lambda>(r, ctx'). \<exists>L. ctx' = ctx\<lparr>lws_lookup := L\<rparr> \<and> lookup_ok ctx' (if r = 0 then insert w S else S)) (insert_wsi w ctx)"
proof (cases "max_fds_unrelated_to_ulimit ctx")
  case True
  with assms searched.ins_new [of "sockfd \<circ> conns ctx" "lws_lookup ctx" S w] obtain r L where
    "slow_insert (sockfd \<circ> conns ctx) w (lws_lookup ctx) = Inr (r, L)"
    "slow_has (sockfd \<circ> conns ctx) L (if r = 0 then insert w S else S)"
    by (auto simp: lookup_ok_def succeeds_iff)
  with True show ?thesis by (force simp: insert_wsi_def lookup_ok_def)
next
  case False
  have l: "length L' = length L" if "direct_insert f w L = Inr (r, L')" for f r L L'
    using that by (auto simp: direct_insert_def direct_get_def vec_get_def assert_that_def bind_res_def split: if_splits sum.splits)
  have "direct_fits (sockfd (conns ctx w)) (lws_lookup ctx)" using assms(1,4) False by (simp add: direct_fits_def lookup_ok_def)
  with False assms direct.ins_new [of "sockfd \<circ> conns ctx" "lws_lookup ctx" S w] obtain r L where
    L: "direct_insert (sockfd (conns ctx w)) w (lws_lookup ctx) = Inr (r, L)"
      "direct_has (sockfd \<circ> conns ctx) L (if r = 0 then insert w S else S)"
    by (auto simp: lookup_ok_def succeeds_iff)
  with False assms(1) l [OF L(1)] show ?thesis by (force simp: insert_wsi_def lookup_ok_def)
qed

lemma delete_from_fd_ok:
  assumes "lookup_ok ctx S" and "w \<in> S"
  shows "succeeds (\<lambda>ctx'. \<exists>L. ctx' = ctx\<lparr>lws_lookup := L\<rparr> \<and> lookup_ok ctx' (S - {w})) (delete_from_fd (sockfd (conns ctx w)) ctx)"
proof (cases "max_fds_unrelated_to_ulimit ctx")
  case True
  with assms searched.del_in [of "sockfd \<circ> conns ctx" "lws_lookup ctx" S w] show ?thesis
    by (auto simp: delete_from_fd_def lookup_ok_def succeeds_iff)
next
  case False
  have l: "length L' = length L" if "direct_delete f L = Inr L'" for f L L'
    using that by (auto simp: direct_delete_def bind_res_def split: sum.splits)
  with False assms direct.del_in [of "sockfd \<circ> conns ctx" "lws_lookup ctx" S w] show ?thesis
    by (auto simp: delete_from_fd_def lookup_ok_def succeeds_iff dest: l)
qed

section \<open>The server's table follows\<close>

text \<open>The events the library wants to be told of for a descriptor.\<close>

definition wants :: "lws_context \<Rightarrow> int \<Rightarrow> 16 word \<Rightarrow> bool" where
  "wants ctx f e \<longleftrightarrow> (\<exists>w. registered ctx w \<and> has_vhost (conns ctx w) \<and> sockfd (conns ctx w) = f \<and> events (fds ctx ! slot_of ctx w) = e)"

definition synced :: "lws_context \<Rightarrow> bool" where
  "synced ctx \<longleftrightarrow> (\<forall>f e. f \<noteq> UDPfd (app ctx) \<longrightarrow> (table_modes (pollfds (app ctx)) f = Some e \<longleftrightarrow> wants ctx f e))"

definition app_ok :: "lws_context \<Rightarrow> bool" where
  "app_ok ctx \<longleftrightarrow> server_ok (app ctx) \<and> distinct (map fd (pollfds (app ctx))) \<and>
     table_modes (pollfds (app ctx)) (UDPfd (app ctx)) \<noteq> None \<and> (\<forall>w. registered ctx w \<longrightarrow> sockfd (conns ctx w) \<noteq> UDPfd (app ctx))"

definition tables_ok :: "lws_context \<Rightarrow> bool" where
  "tables_ok ctx \<longleftrightarrow> lib_ok ctx \<and> app_ok ctx \<and> synced ctx"

lemma registered_frame [simp]:
  "registered (ctx\<lparr>app := s\<rparr>) = registered ctx" "registered (ctx\<lparr>fds := ps\<rparr>) = registered ctx"
  "registered (ctx\<lparr>fds_count := n\<rparr>) = registered ctx" "registered (ctx\<lparr>count_conns := k\<rparr>) = registered ctx"
  "registered (ctx\<lparr>lws_lookup := L\<rparr>) = registered ctx" "registered (ctx\<lparr>cancelled := c\<rparr>) = registered ctx"
  "registered (ctx\<lparr>same_vh_protocol := p\<rparr>) = registered ctx"
  by (simp_all add: registered_def fun_eq_iff)

lemma slot_of_frame [simp]:
  "slot_of (ctx\<lparr>app := s\<rparr>) = slot_of ctx" "slot_of (ctx\<lparr>fds := ps\<rparr>) = slot_of ctx"
  "slot_of (ctx\<lparr>fds_count := n\<rparr>) = slot_of ctx" "slot_of (ctx\<lparr>count_conns := k\<rparr>) = slot_of ctx"
  "slot_of (ctx\<lparr>lws_lookup := L\<rparr>) = slot_of ctx" "slot_of (ctx\<lparr>cancelled := c\<rparr>) = slot_of ctx"
  "slot_of (ctx\<lparr>same_vh_protocol := p\<rparr>) = slot_of ctx"
  by (simp_all add: slot_of_def fun_eq_iff)

lemma lib_ok_frame [simp]:
  "lib_ok (ctx\<lparr>app := s\<rparr>) = lib_ok ctx" "lib_ok (ctx\<lparr>cancelled := c\<rparr>) = lib_ok ctx"
  "lib_ok (ctx\<lparr>same_vh_protocol := p\<rparr>) = lib_ok ctx" "lib_ok (ctx\<lparr>count_conns := k\<rparr>) = lib_ok ctx"
  by (simp_all add: lib_ok_def slots_ok_def lookup_ok_def)

lemma wants_frame [simp]:
  "wants (ctx\<lparr>app := s\<rparr>) = wants ctx" "wants (ctx\<lparr>cancelled := c\<rparr>) = wants ctx" "wants (ctx\<lparr>same_vh_protocol := p\<rparr>) = wants ctx"
  by (simp_all add: wants_def fun_eq_iff)

lemma tables_ok_frame [simp]:
  "tables_ok (ctx\<lparr>cancelled := c\<rparr>) = tables_ok ctx" "tables_ok (ctx\<lparr>same_vh_protocol := p\<rparr>) = tables_ok ctx"
  by (simp_all add: tables_ok_def app_ok_def synced_def)

text \<open>What a callback to protocol 0 does: a request changes the server's table, any other reason does not.\<close>

lemma protocol0_request:
  assumes "server_ok (app ctx)"
  shows "succeeds (\<lambda>(r, ctx'). r = 0 \<and> (\<exists>s. ctx' = ctx\<lparr>app := s\<rparr> \<and> server_ok s \<and> UDPfd s = UDPfd (app ctx) \<and>
     pollfds s = (if has_vhost (conns ctx w) then table.request rq (pollfds (app ctx)) else pollfds (app ctx))))
     (protocol0 peer w (fd_reason rq) ctx)"
proof (cases "has_vhost (conns ctx w)")
  case True
  with callback_request [OF assms, of rq peer w] show ?thesis by (auto simp: protocol0_def succeeds_iff)
next
  case False
  then show ?thesis using assms by (auto simp: protocol0_def intro!: exI [of _ "app ctx"])
qed

lemma callback_other:
  assumes "server_ok s"
  shows "succeeds (\<lambda>s'. server_ok s' \<and> UDPfd s' = UDPfd s \<and> pollfds s' = pollfds s) (callback peer w (CB_other n) s)"
  unfolding callback_def using assms by (auto intro!: log_to_ok)

lemma protocol0_other:
  assumes "server_ok (app ctx)"
  shows "succeeds (\<lambda>(r, ctx'). r = 0 \<and> (\<exists>s. ctx' = ctx\<lparr>app := s\<rparr> \<and> server_ok s \<and> UDPfd s = UDPfd (app ctx) \<and> pollfds s = pollfds (app ctx)))
     (protocol0 peer w (CB_other n) ctx)"
proof (cases "has_vhost (conns ctx w)")
  case True
  with callback_other [OF assms, of peer w n] show ?thesis by (auto simp: protocol0_def succeeds_iff)
next
  case False
  then show ?thesis using assms by (auto simp: protocol0_def intro!: exI [of _ "app ctx"])
qed

lemma protocol0_quiet:
  assumes "tables_ok ctx"
  shows "succeeds (\<lambda>(r, ctx'). r = 0 \<and> tables_ok ctx' \<and> (\<exists>s. ctx' = ctx\<lparr>app := s\<rparr> \<and> UDPfd s = UDPfd (app ctx) \<and> pollfds s = pollfds (app ctx)))
     (protocol0 peer w (CB_other n) ctx)"
proof -
  have "server_ok (app ctx)" using assms by (simp add: tables_ok_def app_ok_def)
  from protocol0_other [OF this, of peer w n] show ?thesis
    by (rule succeeds_mono) (use assms in \<open>auto simp: tables_ok_def app_ok_def synced_def\<close>)
qed

section \<open>Changing the events of a connection\<close>

lemma lib_okD:
  assumes "lib_ok ctx" and "registered ctx w"
  shows "0 \<le> position_in_fds_table (conns ctx w)" and "slot_of ctx w < fds_count ctx" and "slot_of ctx w < length (fds ctx)"
    and "fd (fds ctx ! slot_of ctx w) = sockfd (conns ctx w)" and "position_in_fds_table (conns ctx w) = int (slot_of ctx w)"
    and "\<not> http2_substream (conns ctx w)" and "0 \<le> sockfd (conns ctx w)"
  using assms by (auto simp: lib_ok_def slots_ok_def slot_of_def)

lemma sockfd_inj: "lib_ok ctx \<Longrightarrow> registered ctx v \<Longrightarrow> registered ctx w \<Longrightarrow> sockfd (conns ctx v) = sockfd (conns ctx w) \<Longrightarrow> v = w"
  using lookup_inj [of ctx "{w. registered ctx w}" v w] by (simp add: lib_ok_def)

lemma slot_inj: "lib_ok ctx \<Longrightarrow> registered ctx v \<Longrightarrow> registered ctx w \<Longrightarrow> slot_of ctx v = slot_of ctx w \<Longrightarrow> v = w"
  by (metis lib_okD(4) sockfd_inj)

definition set_slot_events :: "nat \<Rightarrow> 16 word \<Rightarrow> lws_context \<Rightarrow> lws_context" where
  "set_slot_events i e ctx = ctx\<lparr>fds := (fds ctx)[i := (fds ctx ! i)\<lparr>events := e\<rparr>]\<rparr>"

lemma set_slot_events_frame [simp]:
  "registered (set_slot_events i e ctx) = registered ctx" "slot_of (set_slot_events i e ctx) = slot_of ctx"
  "conns (set_slot_events i e ctx) = conns ctx" "app (set_slot_events i e ctx) = app ctx"
  "listeners (set_slot_events i e ctx) = listeners ctx" "fds_count (set_slot_events i e ctx) = fds_count ctx"
  by (simp_all add: set_slot_events_def)

lemma fd_of_updated: "fd (ps[i := (ps ! i)\<lparr>events := e\<rparr>] ! j) = fd (ps ! j)"
  by (cases "i < length ps"; cases "i = j") (simp_all add: list_update_beyond)

lemma set_slot_events_ok: "lib_ok ctx \<Longrightarrow> lib_ok (set_slot_events i e ctx)"
  by (auto simp: set_slot_events_def lib_ok_def slots_ok_def lookup_ok_def fd_of_updated)

lemma set_slot_events_wants:
  assumes "lib_ok ctx" and "registered ctx w"
  shows "wants (set_slot_events (slot_of ctx w) e ctx) f e' \<longleftrightarrow>
    (if f = sockfd (conns ctx w) then has_vhost (conns ctx w) \<and> e' = e else wants ctx f e')"
proof -
  have "events (fds (set_slot_events (slot_of ctx w) e ctx) ! slot_of ctx v) = (if v = w then e else events (fds ctx ! slot_of ctx v))"
    if "registered ctx v" for v
    using slot_inj [OF assms(1) that assms(2)] lib_okD(3) [OF assms] by (auto simp: set_slot_events_def nth_list_update)
  then show ?thesis using sockfd_inj [OF assms(1) _ assms(2)] assms(2) by (auto simp: wants_def)
qed

definition same_members :: "lws_context \<Rightarrow> lws_context \<Rightarrow> bool" where
  "same_members ctx ctx' \<longleftrightarrow> registered ctx' = registered ctx \<and> listeners ctx' = listeners ctx \<and> fds_count ctx' = fds_count ctx"

lemma same_members_refl [simp]: "same_members ctx ctx"
  by (simp add: same_members_def)

lemma same_members_trans: "same_members a b \<Longrightarrow> same_members b c \<Longrightarrow> same_members a c"
  by (simp add: same_members_def)

lemma same_members_frame [simp]:
  "same_members ctx (ctx'\<lparr>app := s\<rparr>) = same_members ctx ctx'" "same_members ctx (ctx'\<lparr>cancelled := c\<rparr>) = same_members ctx ctx'"
  "same_members ctx (set_slot_events i e ctx') = same_members ctx ctx'"
  by (simp_all add: same_members_def)

text \<open>Operations that keep both tables in order and the set of registered connections as it was in \<open>ctx0\<close>.\<close>

definition keeps :: "lws_context \<Rightarrow> int \<times> lws_context \<Rightarrow> bool" where
  "keeps ctx0 = (\<lambda>(r, ctx). r = 0 \<and> tables_ok ctx \<and> same_members ctx0 ctx)"

lemma quiet_keeps: "tables_ok ctx \<Longrightarrow> same_members ctx0 ctx \<Longrightarrow> succeeds (keeps ctx0) (protocol0 peer w (CB_other n) ctx)"
  by (rule succeeds_mono [OF protocol0_quiet]) (auto simp: keeps_def)

lemma wake_keeps:
  assumes "tables_ok ctx" and "same_members ctx0 ctx"
  shows "succeeds (keeps ctx0) (wake_other_thread peer w ctx)"
proof -
  have "keeps ctx0 (0, ctx)" using assms by (simp add: keeps_def)
  moreover have "succeeds (keeps ctx0) (bind_res (protocol0 peer w CB_GET_THREAD_ID ctx) (\<lambda>(tid, ctx).
      if tid = -1 then Inr (-1, ctx) else if tid \<noteq> s then Inr (0, ctx\<lparr>cancelled := cancelled ctx + 1\<rparr>) else Inr (0, ctx)))" for s
    unfolding CB_GET_THREAD_ID_def by (rule succeeds_bind [OF quiet_keeps [OF assms]]) (auto simp: keeps_def)
  ultimately show ?thesis by (simp add: wake_other_thread_def Let_def)
qed

lemma change_mode_synced:
  fixes e :: "16 word"
  assumes "tables_ok ctx" and w: "registered ctx w"
  defines "c \<equiv> set_slot_events (slot_of ctx w) e ctx"
  shows "succeeds (keeps ctx)
    (protocol0 peer w (CB_CHANGE_MODE_POLL_FD (sockfd (conns ctx w)) (sint e)) c)"
proof -
  let ?f = "sockfd (conns ctx w)" and ?t = "pollfds (app ctx)"
  have ok: "lib_ok ctx" "server_ok (app ctx)" "distinct (map fd ?t)" "?f \<noteq> UDPfd (app ctx)" "synced ctx"
    using assms(1) w by (auto simp: tables_ok_def app_ok_def)
  have s: "server_ok (app c)" using ok(2) by (simp add: c_def)
  have "?f \<in> set (map fd ?t)" if "has_vhost (conns ctx w)"
  proof -
    have "wants ctx ?f (events (fds ctx ! slot_of ctx w))" using w that unfolding wants_def by blast
    with ok(4,5) have "?f \<in> dom (table_modes ?t)" by (auto simp: synced_def)
    then show ?thesis unfolding table.mode_dom .
  qed
  then have modes: "table_modes (if has_vhost (conns ctx w) then update_events ?f (sint e) ?t else ?t) f =
      (if f = ?f \<and> has_vhost (conns ctx w) then Some e else table_modes ?t f)" for f
    by (simp add: table.mode_set)
  have "\<not> has_vhost (conns ctx w) \<Longrightarrow> \<not> wants ctx ?f e'" for e'
    using sockfd_inj [OF ok(1) _ w] by (auto simp: wants_def)
  then have sync: "table_modes (if has_vhost (conns ctx w) then update_events ?f (sint e) ?t else ?t) f = Some e' \<longleftrightarrow> wants c f e'"
    if "f \<noteq> UDPfd (app ctx)" for f e'
    using ok(5) that unfolding modes c_def set_slot_events_wants [OF ok(1) w] by (auto simp: synced_def)
  from protocol0_request [OF s, of w "(?f, Some (sint e), False)" peer] obtain s where
    s: "protocol0 peer w (CB_CHANGE_MODE_POLL_FD ?f (sint e)) c = Inr (0, c\<lparr>app := s\<rparr>)" "server_ok s" "UDPfd s = UDPfd (app ctx)"
      "pollfds s = (if has_vhost (conns ctx w) then update_events ?f (sint e) ?t else ?t)"
    by (auto simp: succeeds_iff c_def)
  have "distinct (map fd (pollfds s))" using ok(3) table.fds_mode [of ?f "sint e" ?t] by (simp add: s(4))
  moreover have "table_modes (pollfds s) (UDPfd s) \<noteq> None"
    using assms(1) ok(4) by (simp only: s(3,4) modes) (simp add: tables_ok_def app_ok_def)
  moreover have "synced (c\<lparr>app := s\<rparr>)" using sync by (simp add: synced_def s(3,4))
  moreover have "lib_ok c" unfolding c_def by (rule set_slot_events_ok [OF ok(1)])
  ultimately show ?thesis using assms(1) s(1-3) by (simp add: keeps_def tables_ok_def app_ok_def) (simp add: c_def)
qed

lemma leave_pollout_frame:
  assumes "tables_ok ctx"
  shows "tables_ok (upd_conn w (\<lambda>c. c\<lparr>leave_pollout_active := True\<rparr>) ctx)" (is "tables_ok ?c")
    and "same_members ctx (upd_conn w (\<lambda>c. c\<lparr>leave_pollout_active := True\<rparr>) ctx)"
proof -
  have f: "registered ?c = registered ctx" "slot_of ?c = slot_of ctx" "sockfd \<circ> conns ?c = sockfd \<circ> conns ctx"
    by (auto simp: upd_conn_def registered_def slot_of_def fun_eq_iff)
  have g: "position_in_fds_table (conns ?c v) = position_in_fds_table (conns ctx v)" "sockfd (conns ?c v) = sockfd (conns ctx v)"
    "http2_substream (conns ?c v) = http2_substream (conns ctx v)" "has_vhost (conns ?c v) = has_vhost (conns ctx v)" for v
    by (simp_all add: upd_conn_def)
  have h: "app ?c = app ctx" "fds ?c = fds ctx" "fds_count ?c = fds_count ctx" "lws_lookup ?c = lws_lookup ctx" "max_fds ?c = max_fds ctx"
    "max_fds_unrelated_to_ulimit ?c = max_fds_unrelated_to_ulimit ctx" "fd_limit_per_thread ?c = fd_limit_per_thread ctx"
    "inside_poll ?c = inside_poll ctx" "listeners ?c = listeners ctx" by (simp_all add: upd_conn_def)
  show "tables_ok ?c" using assms
    by (simp add: tables_ok_def app_ok_def synced_def wants_def lib_ok_def slots_ok_def lookup_ok_def f g h)
  show "same_members ctx ?c" by (simp add: same_members_def f h)
qed

lemma change_keeps_pa:
  assumes t: "tables_ok ctx"
  shows "succeeds (keeps ctx) (change_pollfd_pa peer w a b ctx)"
proof (cases "registered ctx w")
  case False
  with t show ?thesis by (simp add: change_pollfd_pa_def registered_def assert_that_def keeps_def)
next
  case True
  have lib: "lib_ok ctx" using t by (simp add: tables_ok_def)
  note D = lib_okD [OF lib True]
  let ?i = "slot_of ctx w" and ?c = "conns ctx w"
  let ?e = "word_of_int (sint (events (fds ctx ! ?i)) AND NOT a OR b) :: 16 word"
  have i: "\<not> inside_poll ctx" "position_in_fds_table ?c \<noteq> LWS_NO_FDS_POS" "nat (position_in_fds_table ?c) = ?i"
    using lib True by (auto simp: lib_ok_def registered_def slot_of_def)
  show ?thesis
  proof (cases "handling_pollout ?c \<and> a = 0 \<and> b = LWS_POLLOUT")
    case hp: True
    with leave_pollout_frame [OF t, of w] i D(1) show ?thesis by (simp add: change_pollfd_pa_def assert_that_def Let_def keeps_def)
  next
    case False
    have eq: "change_pollfd_pa peer w a b ctx =
       bind_res (protocol0 peer w (CB_CHANGE_MODE_POLL_FD (sockfd ?c) (sint ?e)) (set_slot_events ?i ?e ctx)) (\<lambda>(r, ctx').
         if r \<noteq> 0 then Inr (-1, ctx') else if events (fds ctx ! ?i) \<noteq> ?e then wake_other_thread peer w ctx' else Inr (0, ctx'))"
      unfolding change_pollfd_pa_def Let_def i(3) if_not_P [OF False] using i D
      by (simp add: assert_that_def set_slot_events_def)
    have "succeeds (keeps ctx)
        (if r \<noteq> 0 then Inr (-1, ctx') else if events (fds ctx ! ?i) \<noteq> ?e then wake_other_thread peer w ctx' else Inr (0, ctx'))"
      if "keeps ctx (r, ctx')" for r ctx'
      using that wake_keeps [of ctx' ctx peer w] by (simp add: keeps_def)
    then show ?thesis unfolding eq
      by (intro succeeds_bind [OF change_mode_synced [OF t True]]) auto
  qed
qed

lemma modulation_keeps:
  assumes "tables_ok ctx" and "same_members ctx0 ctx"
  shows "succeeds (\<lambda>ctx'. tables_ok ctx' \<and> same_members ctx0 ctx') (lws_accept_modulation peer allow ctx)"
proof -
  have c: "succeeds (\<lambda>ctx'. tables_ok ctx' \<and> same_members ctx0 ctx') (bind_res (change_pollfd_pa peer w a b c) (\<lambda>(r, ctx). Inr ctx))"
    if "tables_ok c \<and> same_members ctx0 c" for w a b c
    by (rule succeeds_bind [OF change_keeps_pa]) (use that in \<open>auto simp: keeps_def intro: same_members_trans\<close>)
  show ?thesis unfolding lws_accept_modulation_def
    by (rule succeeds_for_each) (use assms c in \<open>auto split: option.splits\<close>)
qed

lemma change_keeps:
  assumes "tables_ok ctx"
  shows "succeeds (keeps ctx) (change_pollfd peer w a b ctx)"
proof -
  let ?k = "\<lambda>c. bind_res (change_pollfd_pa peer w a b c) (\<lambda>(ret, ctx). bind_res (protocol0 peer w CB_UNLOCK_POLL ctx)
      (\<lambda>(r, ctx). Inr (if r \<noteq> 0 then -1 else ret, ctx)))"
  have u: "succeeds (keeps ctx) (bind_res (protocol0 peer w CB_UNLOCK_POLL c) (\<lambda>(r, ctx). Inr (if r \<noteq> 0 then -1 else 0, ctx)))"
    if "keeps ctx (0, c)" for c
    unfolding CB_UNLOCK_POLL_def by (rule succeeds_bind [OF quiet_keeps]) (use that in \<open>auto simp: keeps_def\<close>)
  have k: "succeeds (keeps ctx) (?k c)" if "tables_ok c" "same_members ctx c" for c
    by (rule succeeds_bind [OF change_keeps_pa [OF that(1)]])
      (use that u in \<open>auto simp: keeps_def intro: same_members_trans\<close>)
  have "succeeds (keeps ctx) (bind_res (protocol0 peer w CB_LOCK_POLL ctx) (\<lambda>(r, ctx). if r \<noteq> 0 then Inr (-1, ctx) else ?k ctx))"
    unfolding CB_LOCK_POLL_def by (rule succeeds_bind [OF quiet_keeps [OF assms same_members_refl]]) (use k in \<open>auto simp: keeps_def\<close>)
  then show ?thesis using assms by (auto simp: change_pollfd_def Let_def keeps_def)
qed

section \<open>A connection enters the table\<close>

text \<open>What the system and the caller see to: the connection is not in the table and its descriptor is open
  nowhere else.\<close>

definition fresh :: "lws_context \<Rightarrow> wsi \<Rightarrow> bool" where
  "fresh ctx w \<longleftrightarrow> \<not> registered ctx w \<and> 0 \<le> sockfd (conns ctx w) \<and> sockfd (conns ctx w) \<noteq> UDPfd (app ctx) \<and>
     (\<forall>v. registered ctx v \<longrightarrow> sockfd (conns ctx v) \<noteq> sockfd (conns ctx w)) \<and>
     (event_pipe (conns ctx w) \<or> has_vhost (conns ctx w)) \<and> \<not> http2_substream (conns ctx w)"

definition filled :: "wsi \<Rightarrow> lws_context \<Rightarrow> lws_context" where
  "filled w ctx =
     (let n = fds_count ctx
      in (upd_conn w (\<lambda>c. c\<lparr>position_in_fds_table := int n\<rparr>) (ctx\<lparr>count_conns := count_conns ctx + 1\<rparr>))
        \<lparr>fds := (fds ctx)[n := (fds ctx ! n)\<lparr>fd := sockfd (conns ctx w), events := word_of_int LWS_POLLIN, revents := 0\<rparr>],
         fds_count := n + 1\<rparr>)"

lemma fill_slot_eq: "fds_count ctx < length (fds ctx) \<Longrightarrow> fill_slot w ctx = Inr (filled w ctx)"
  by (simp add: fill_slot_def filled_def lws_plat_insert_socket_into_fds_def upd_conn_def Let_def)

lemma filled_frame [simp]:
  "app (filled w ctx) = app ctx" "listeners (filled w ctx) = listeners ctx" "sockfd (conns (filled w ctx) v) = sockfd (conns ctx v)"
  "has_vhost (conns (filled w ctx) v) = has_vhost (conns ctx v)" "http2_substream (conns (filled w ctx) v) = http2_substream (conns ctx v)"
  "registered (filled w ctx) v \<longleftrightarrow> v = w \<or> registered ctx v"
  "slot_of (filled w ctx) v = (if v = w then fds_count ctx else slot_of ctx v)"
  "fds_count (filled w ctx) = fds_count ctx + 1"
  by (simp_all add: filled_def upd_conn_def Let_def registered_def slot_of_def LWS_NO_FDS_POS_def)

lemma filled_lookup: "lookup_ok (filled w ctx) S = lookup_ok ctx S"
proof -
  have "sockfd \<circ> conns (filled w ctx) = sockfd \<circ> conns ctx" by (simp add: fun_eq_iff)
  then show ?thesis by (simp add: lookup_ok_def) (simp add: filled_def upd_conn_def Let_def)
qed

lemma filled_slot:
  assumes "fds_count ctx < length (fds ctx)"
  shows "i \<noteq> fds_count ctx \<Longrightarrow> fds (filled w ctx) ! i = fds ctx ! i"
    and "fd (fds (filled w ctx) ! fds_count ctx) = sockfd (conns ctx w)"
    and "events (fds (filled w ctx) ! fds_count ctx) = word_of_int LWS_POLLIN"
  using assms by (simp_all add: filled_def upd_conn_def Let_def)

lemma filled_slots:
  assumes "slots_ok ctx" and "\<not> registered ctx w" and "fds_count ctx < length (fds ctx)"
  shows "slots_ok (filled w ctx)"
  unfolding slots_ok_def
proof (intro conjI allI impI)
  fix v assume v: "registered (filled w ctx) v"
  show "0 \<le> position_in_fds_table (conns (filled w ctx) v)"
    using v assms(1) by (auto simp: filled_def upd_conn_def Let_def registered_def slots_ok_def)
  show "slot_of (filled w ctx) v < fds_count (filled w ctx)" using v assms(1) by (auto simp: slots_ok_def less_Suc_eq)
  show "fd (fds (filled w ctx) ! slot_of (filled w ctx) v) = sockfd (conns (filled w ctx) v)"
  proof (cases "v = w")
    case True
    with filled_slot(2) [OF assms(3), of w] show ?thesis by simp
  next
    case False
    with v assms(1) have "slot_of ctx v < fds_count ctx" "fd (fds ctx ! slot_of ctx v) = sockfd (conns ctx v)"
      by (auto simp: slots_ok_def)
    with False filled_slot(1) [OF assms(3), of "slot_of ctx v" w] show ?thesis by simp
  qed
next
  fix i assume "i < fds_count (filled w ctx)"
  then consider "i = fds_count ctx" | "i < fds_count ctx" by fastforce
  then show "\<exists>v. registered (filled w ctx) v \<and> slot_of (filled w ctx) v = i"
  proof cases
    case 2
    with assms(1) obtain v where "registered ctx v" "slot_of ctx v = i" by (auto simp: slots_ok_def)
    with assms(2) show ?thesis by (intro exI [of _ v]) auto
  qed (intro exI [of _ w], simp)
next
  show "fds_count (filled w ctx) \<le> length (fds (filled w ctx))"
    using assms(3) by (simp add: filled_def upd_conn_def Let_def)
qed

lemma filled_lib:
  assumes "lib_ok ctx" and "\<not> registered ctx w" and "fds_count ctx < length (fds ctx)" and "\<not> http2_substream (conns ctx w) \<and> 0 \<le> sockfd (conns ctx w)"
    and "lookup_ok (ctx\<lparr>lws_lookup := L\<rparr>) (insert w {v. registered ctx v})"
  shows "lib_ok (filled w (ctx\<lparr>lws_lookup := L\<rparr>))"
proof -
  let ?c = "ctx\<lparr>lws_lookup := L\<rparr>"
  have "slots_ok ?c" using assms(1) by (simp add: lib_ok_def slots_ok_def)
  with assms(2,3) have "slots_ok (filled w ?c)" by (intro filled_slots) simp_all
  moreover have "{v. registered (filled w ?c) v} = insert w {v. registered ctx v}" by auto
  ultimately show ?thesis using assms(1,4,5) by (auto simp: lib_ok_def filled_lookup) (simp_all add: filled_def upd_conn_def Let_def)
qed

lemma filled_wants:
  assumes "lib_ok ctx" and "\<not> registered ctx w" and "fds_count ctx < length (fds ctx)"
  shows "wants (filled w (ctx\<lparr>lws_lookup := L\<rparr>)) f e \<longleftrightarrow>
    wants ctx f e \<or> (has_vhost (conns ctx w) \<and> f = sockfd (conns ctx w) \<and> e = word_of_int LWS_POLLIN)"
proof -
  let ?c = "ctx\<lparr>lws_lookup := L\<rparr>"
  have n: "fds_count ?c < length (fds ?c)" using assms(3) by simp
  have "events (fds (filled w ?c) ! slot_of ctx v) = events (fds ctx ! slot_of ctx v)" "v \<noteq> w" if "registered ctx v" for v
    using filled_slot(1) [OF n, of "slot_of ctx v" w] lib_okD(2) [OF assms(1) that] that assms(2) by auto
  moreover have "events (fds (filled w ?c) ! fds_count ctx) = word_of_int LWS_POLLIN" using filled_slot(3) [OF n, of w] by simp
  ultimately show ?thesis unfolding wants_def by (auto simp: fun_eq_iff split: if_splits)
qed

lemma tables_ok_lookup:
  "tables_ok ctx \<Longrightarrow> lookup_ok (ctx\<lparr>lws_lookup := L\<rparr>) {v. registered ctx v} \<Longrightarrow> tables_ok (ctx\<lparr>lws_lookup := L\<rparr>)"
  by (simp add: tables_ok_def app_ok_def synced_def wants_def lib_ok_def slots_ok_def)

text \<open>The callback makes the server follow.\<close>

lemma add_synced:
  assumes t: "tables_ok ctx" and f: "fresh ctx w" and n: "fds_count ctx < length (fds ctx)"
    and L: "lookup_ok (ctx\<lparr>lws_lookup := L\<rparr>) (insert w {v. registered ctx v})"
  shows "succeeds (\<lambda>(r, ctx'). r = 0 \<and> tables_ok ctx' \<and> registered ctx' w)
    (protocol0 peer w (CB_ADD_POLL_FD (sockfd (conns ctx w)) LWS_POLLIN) (filled w (ctx\<lparr>lws_lookup := L\<rparr>)))"
proof -
  let ?c = "filled w (ctx\<lparr>lws_lookup := L\<rparr>)" and ?f = "sockfd (conns ctx w)" and ?t = "pollfds (app ctx)"
  have ok: "lib_ok ctx" "server_ok (app ctx)" "distinct (map fd ?t)" "synced ctx" "\<forall>v. registered ctx v \<longrightarrow> sockfd (conns ctx v) \<noteq> UDPfd (app ctx)"
    using t by (simp_all add: tables_ok_def app_ok_def)
  have w: "\<not> registered ctx w" "?f \<noteq> UDPfd (app ctx)" "\<not> http2_substream (conns ctx w) \<and> 0 \<le> ?f" using f by (simp_all add: fresh_def)
  have nw: "\<not> wants ctx ?f e" for e using f by (auto simp: wants_def fresh_def)
  then have "?f \<notin> dom (table_modes ?t)" using ok(4) w(2) by (auto simp: synced_def)
  then have new: "?f \<notin> set (map fd ?t)" unfolding table.mode_dom .
  have "server_ok (app ?c)" using ok(2) by simp
  from protocol0_request [OF this, of w "(?f, Some LWS_POLLIN, True)" peer] obtain s where
    s: "protocol0 peer w (CB_ADD_POLL_FD ?f LWS_POLLIN) ?c = Inr (0, ?c\<lparr>app := s\<rparr>)" "server_ok s" "UDPfd s = UDPfd (app ctx)"
      "pollfds s = (if has_vhost (conns ctx w) then table_add ?f LWS_POLLIN ?t else ?t)"
    by (auto simp: succeeds_iff)
  have "distinct (map fd (pollfds s))" using ok(3) new table.fds_add [of ?f LWS_POLLIN ?t] by (simp add: s(4))
  moreover have "table_modes (pollfds s) (UDPfd s) \<noteq> None"
    using t w(2) table.mode_add [OF new, of LWS_POLLIN] by (simp add: s(3,4) tables_ok_def app_ok_def)
  moreover have "synced (?c\<lparr>app := s\<rparr>)"
    using ok(4) nw w(2) table.mode_add [OF new, of LWS_POLLIN] by (auto simp: synced_def s(3,4) filled_wants [OF ok(1) w(1) n])
  moreover have "lib_ok ?c" by (rule filled_lib [OF ok(1) w(1) n w(3) L])
  ultimately show ?thesis using ok(5) w(2) s(1-3) by (auto simp: tables_ok_def app_ok_def)
qed

lemma unlock_ok:
  assumes "tables_ok ctx" and "registered ctx = R"
  shows "succeeds (\<lambda>(r, ctx'). tables_ok ctx' \<and> registered ctx' = R)
    (bind_res (protocol0 peer w CB_UNLOCK_POLL ctx) (\<lambda>(r, ctx). Inr (if r \<noteq> 0 then -1 else ret, ctx)))"
  unfolding CB_UNLOCK_POLL_def
  by (rule succeeds_bind [OF quiet_keeps [OF assms(1) same_members_refl]]) (use assms(2) in \<open>auto simp: keeps_def same_members_def\<close>)

lemma modulate_unlock_ok:
  assumes "tables_ok ctx"
  shows "succeeds (\<lambda>(r, ctx'). tables_ok ctx' \<and> registered ctx' = registered ctx)
    (bind_res (if p then lws_accept_modulation peer allow ctx else Inr ctx) (\<lambda>ctx.
     bind_res (protocol0 peer w CB_UNLOCK_POLL ctx) (\<lambda>(r, ctx). Inr (if r \<noteq> 0 then -1 else ret, ctx))))"
proof -
  have "succeeds (\<lambda>c. tables_ok c \<and> registered c = registered ctx) (if p then lws_accept_modulation peer allow ctx else Inr ctx)"
    using assms succeeds_mono [OF modulation_keeps [OF assms same_members_refl, of peer allow]] by (simp add: same_members_def)
  then show ?thesis by (rule succeeds_bind) (auto intro: unlock_ok)
qed

lemma insert_ok:
  assumes t: "tables_ok ctx" and f: "fresh ctx w"
  shows "succeeds (\<lambda>(r, ctx'). tables_ok ctx' \<and> (r = 0 \<longrightarrow> registered ctx' w)) (insert_wsi_socket_into_fds peer w ctx)"
    (is "succeeds ?Q _")
proof (cases "fds_count ctx \<ge> unat (fd_limit_per_thread ctx) \<or> (\<not> max_fds_unrelated_to_ulimit ctx \<and> sockfd (conns ctx w) \<ge> max_fds ctx)")
  case True
  with t show ?thesis by (auto simp: insert_wsi_socket_into_fds_def Let_def)
next
  case room: False
  obtain s where s: "protocol0 peer w CB_LOCK_POLL ctx = Inr (0, ctx\<lparr>app := s\<rparr>)" "tables_ok (ctx\<lparr>app := s\<rparr>)" "UDPfd s = UDPfd (app ctx)"
    using protocol0_quiet [OF t, of peer w 35] by (auto simp: succeeds_iff CB_LOCK_POLL_def)
  let ?c = "ctx\<lparr>app := s\<rparr>"
  have f': "fresh ?c w" using f s(3) by (simp add: fresh_def)
  have lib: "lib_ok ?c" using s(2) by (simp add: tables_ok_def)
  have "succeeds (\<lambda>(r, c'). \<exists>L. c' = ?c\<lparr>lws_lookup := L\<rparr> \<and> lookup_ok c' (if r = 0 then insert w {v. registered ctx v} else {v. registered ctx v})) (insert_wsi w ?c)"
    by (rule insert_wsi_ok) (use lib f room in \<open>auto simp: lib_ok_def fresh_def\<close>)
  then obtain r L where r: "insert_wsi w ?c = Inr (r, ?c\<lparr>lws_lookup := L\<rparr>)"
      "lookup_ok (?c\<lparr>lws_lookup := L\<rparr>) (if r = 0 then insert w {v. registered ctx v} else {v. registered ctx v})"
    by (auto simp: succeeds_iff)
  have pre: "\<not> unat (fd_limit_per_thread ctx) \<le> fds_count ctx" "\<not> (\<not> max_fds_unrelated_to_ulimit ctx \<and> max_fds ctx \<le> sockfd (conns ctx w))"
    "event_pipe (conns ctx w) \<or> has_vhost (conns ctx w)" "sockfd (conns ctx w) \<noteq> LWS_SOCK_INVALID"
    using room f by (auto simp: fresh_def LWS_SOCK_INVALID_def)
  note run = insert_wsi_socket_into_fds_def Let_def if_not_P [OF pre(1)] if_not_P [OF pre(2)]
  show ?thesis
  proof (cases "r = 0")
    case False
    with r tables_ok_lookup [OF s(2), of L] show ?thesis unfolding run using pre(3,4) s(1) by (simp add: assert_that_def)
  next
    case True
    have n: "fds_count ?c < length (fds ?c)" using lib pre(1) by (simp add: lib_ok_def)
    have "lookup_ok (?c\<lparr>lws_lookup := L\<rparr>) (insert w {v. registered ?c v})" using r(2) True by simp
    note add = add_synced [OF s(2) f' n this, of peer]
    obtain d where d: "protocol0 peer w (CB_ADD_POLL_FD (sockfd (conns ctx w)) LWS_POLLIN) (filled w (?c\<lparr>lws_lookup := L\<rparr>)) = Inr (0, d)"
        "tables_ok d" "registered d w" using add by (auto simp: succeeds_iff)
    have "fill_slot w (?c\<lparr>lws_lookup := L\<rparr>) = Inr (filled w (?c\<lparr>lws_lookup := L\<rparr>))" using n by (intro fill_slot_eq) simp
    moreover have "succeeds ?Q (bind_res (if fds_count d = unat (fd_limit_per_thread d - 1) then lws_accept_modulation peer False d else Inr d)
        (\<lambda>ctx. bind_res (protocol0 peer w CB_UNLOCK_POLL ctx) (\<lambda>(r, ctx). Inr (if r \<noteq> 0 then -1 else 0, ctx))))"
      by (rule succeeds_mono [OF modulate_unlock_ok [OF d(2)]]) (use d(3) in auto)
    ultimately show ?thesis using d(1) s(1) r(1) True pre(3,4) unfolding run by (simp add: assert_that_def split: if_splits)
  qed
qed

section \<open>A connection leaves the table\<close>

text \<open>The state of the table after a slot is vacated.\<close>

definition vacated :: "wsi \<Rightarrow> lws_context \<Rightarrow> lws_context \<Rightarrow> bool" where
  "vacated w ctx ctx' \<longleftrightarrow> lib_ok ctx' \<and> app ctx' = app ctx \<and> (\<forall>v. registered ctx' v \<longleftrightarrow> registered ctx v \<and> v \<noteq> w) \<and>
     (\<forall>v. sockfd (conns ctx' v) = sockfd (conns ctx v)) \<and> (\<forall>v. has_vhost (conns ctx' v) = has_vhost (conns ctx v)) \<and>
     (\<forall>f e. wants ctx' f e \<longleftrightarrow> wants ctx f e \<and> f \<noteq> sockfd (conns ctx w))"

definition moved :: "wsi \<Rightarrow> wsi option \<Rightarrow> wsi option list \<Rightarrow> lws_context \<Rightarrow> lws_context" where
  "moved w end_wsi L ctx =
     (let m = slot_of ctx w; last = fds_count ctx - 1;
          ctx' = ctx\<lparr>lws_lookup := L, fds := ((fds ctx)[m := fds ctx ! last])[last := (fds ctx ! last)\<lparr>fd := -1\<rparr>],
                     fds_count := last, count_conns := count_conns ctx - 1\<rparr>;
          ctx' = (case end_wsi of None \<Rightarrow> ctx' | Some v \<Rightarrow> upd_conn v (\<lambda>c. c\<lparr>position_in_fds_table := int m\<rparr>) ctx')
      in upd_conn w (\<lambda>c. c\<lparr>position_in_fds_table := LWS_NO_FDS_POS\<rparr>) ctx')"

lemma moved_frame [simp]:
  "app (moved w e L ctx) = app ctx" "listeners (moved w e L ctx) = listeners ctx" "sockfd (conns (moved w e L ctx) v) = sockfd (conns ctx v)"
  "has_vhost (conns (moved w e L ctx) v) = has_vhost (conns ctx v)" "http2_substream (conns (moved w e L ctx) v) = http2_substream (conns ctx v)"
  "fds_count (moved w e L ctx) = fds_count ctx - 1" "length (fds (moved w e L ctx)) = length (fds ctx)"
  "inside_poll (moved w e L ctx) = inside_poll ctx" "fd_limit_per_thread (moved w e L ctx) = fd_limit_per_thread ctx"
  by (auto simp: moved_def upd_conn_def Let_def split: option.splits)

lemma moved_place:
  assumes "e \<noteq> Some w" and "\<And>v. e = Some v \<Longrightarrow> registered ctx v"
  shows "registered (moved w e L ctx) v \<longleftrightarrow> registered ctx v \<and> v \<noteq> w"
    and "v \<noteq> w \<Longrightarrow> position_in_fds_table (conns (moved w e L ctx) v) = (if e = Some v then int (slot_of ctx w) else position_in_fds_table (conns ctx v))"
    and "v \<noteq> w \<Longrightarrow> slot_of (moved w e L ctx) v = (if e = Some v then slot_of ctx w else slot_of ctx v)"
  using assms by (auto simp: moved_def upd_conn_def Let_def registered_def slot_of_def LWS_NO_FDS_POS_def split: option.splits)

lemma moved_lookup: "lookup_ok (moved w e L ctx) S = lookup_ok (ctx\<lparr>lws_lookup := L\<rparr>) S"
proof -
  have "sockfd \<circ> conns (moved w e L ctx) = sockfd \<circ> conns ctx" by (simp add: fun_eq_iff)
  then show ?thesis by (simp add: lookup_ok_def) (auto simp: moved_def upd_conn_def Let_def split: option.splits)
qed

lemma moved_slot:
  assumes "slot_of ctx w < fds_count ctx" and "fds_count ctx \<le> length (fds ctx)" and "i < fds_count ctx - 1"
  shows "fds (moved w e L ctx) ! i = (if i = slot_of ctx w then fds ctx ! (fds_count ctx - 1) else fds ctx ! i)"
  using assms by (auto simp: moved_def upd_conn_def Let_def nth_list_update split: option.splits)

text \<open>Who sits in the last slot, unless it is the one that leaves.\<close>

definition last_one :: "lws_context \<Rightarrow> wsi \<Rightarrow> wsi option \<Rightarrow> bool" where
  "last_one ctx w e \<longleftrightarrow> (case e of None \<Rightarrow> slot_of ctx w = fds_count ctx - 1
     | Some v \<Rightarrow> v \<noteq> w \<and> registered ctx v \<and> slot_of ctx v = fds_count ctx - 1)"

lemma last_one_ex:
  assumes "lib_ok ctx" and "registered ctx w"
  obtains e where "last_one ctx w e" "e = None \<longleftrightarrow> slot_of ctx w = fds_count ctx - 1"
proof (cases "slot_of ctx w = fds_count ctx - 1")
  case True
  then show ?thesis using that [of None] by (simp add: last_one_def)
next
  case False
  have "fds_count ctx - 1 < fds_count ctx" using lib_okD(2) [OF assms] by simp
  with assms(1) obtain v where "registered ctx v" "slot_of ctx v = fds_count ctx - 1" by (auto simp: lib_ok_def slots_ok_def)
  with False that [of "Some v"] show ?thesis by (auto simp: last_one_def)
qed

lemma moved_entry:
  assumes lib: "lib_ok ctx" and w: "registered ctx w" and e: "last_one ctx w e" and v: "registered ctx v" "v \<noteq> w"
  shows "slot_of (moved w e L ctx) v < fds_count ctx - 1" and "fds (moved w e L ctx) ! slot_of (moved w e L ctx) v = fds ctx ! slot_of ctx v"
proof -
  note D = lib_okD(2) [OF lib w] lib_okD(2) [OF lib v(1)]
  have n: "fds_count ctx \<le> length (fds ctx)" using lib by (simp add: lib_ok_def slots_ok_def)
  have ne: "slot_of ctx v \<noteq> slot_of ctx w" using slot_inj [OF lib v(1) w] v(2) by blast
  have e': "e \<noteq> Some w" "\<And>u. e = Some u \<Longrightarrow> registered ctx u" using e by (auto simp: last_one_def split: option.splits)
  note s = moved_place(3) [OF e' v(2), of L]
  have "e = Some v \<and> slot_of ctx w < fds_count ctx - 1 \<and> slot_of ctx v = fds_count ctx - 1 \<or> e \<noteq> Some v \<and> slot_of ctx v < fds_count ctx - 1"
  proof (cases "e = Some v")
    case True
    with e have "slot_of ctx v = fds_count ctx - 1" by (simp add: last_one_def)
    with True ne D show ?thesis by linarith
  next
    case False
    have "slot_of ctx v \<noteq> fds_count ctx - 1"
    proof (cases e)
      case None
      with e ne show ?thesis by (simp add: last_one_def)
    next
      case (Some u)
      with e False slot_inj [OF lib v(1), of u] show ?thesis by (auto simp: last_one_def)
    qed
    with D False show ?thesis by linarith
  qed
  with e s ne moved_slot [OF D(1) n, of _ e L] show "slot_of (moved w e L ctx) v < fds_count ctx - 1"
    "fds (moved w e L ctx) ! slot_of (moved w e L ctx) v = fds ctx ! slot_of ctx v"
    by (auto simp: last_one_def split: option.splits if_splits)
qed

lemma moved_ok:
  assumes lib: "lib_ok ctx" and w: "registered ctx w" and e: "last_one ctx w e"
    and L: "lookup_ok (ctx\<lparr>lws_lookup := L\<rparr>) ({v. registered ctx v} - {w})"
  shows "vacated w ctx (moved w e L ctx)"
proof -
  let ?c = "moved w e L ctx"
  have e': "e \<noteq> Some w" "\<And>u. e = Some u \<Longrightarrow> registered ctx u" using e by (auto simp: last_one_def split: option.splits)
  have R: "registered ?c v \<longleftrightarrow> registered ctx v \<and> v \<noteq> w" for v by (rule moved_place(1) [OF e'])
  note E = moved_entry [OF lib w e, where L = L]
  have pos: "0 \<le> position_in_fds_table (conns ?c v)" if "registered ctx v" "v \<noteq> w" for v
    using moved_place(2) [OF e' that(2), of L] lib_okD(1) [OF lib that(1)] by simp
  have full: "\<exists>v. registered ?c v \<and> slot_of ?c v = i" if i: "i < fds_count ctx - 1" for i
  proof (cases "i = slot_of ctx w")
    case True
    with i e obtain u where u: "e = Some u" by (auto simp: last_one_def split: option.splits)
    then have "u \<noteq> w" "registered ctx u" using e' by auto
    with u True R moved_place(3) [OF e', of u L] show ?thesis by metis
  next
    case False
    have "i < fds_count ctx" using i by simp
    with lib obtain v where v: "registered ctx v" "slot_of ctx v = i" by (auto simp: lib_ok_def slots_ok_def)
    with False have "v \<noteq> w" by auto
    moreover have "e \<noteq> Some v" using v i e by (auto simp: last_one_def)
    ultimately show ?thesis using v R moved_place(3) [OF e', of v L] by metis
  qed
  have "slots_ok ?c" unfolding slots_ok_def R
    using pos E full [unfolded R] lib lib_okD(4) [OF lib] by (auto simp: lib_ok_def slots_ok_def)
  moreover have "lookup_ok ?c {v. registered ?c v}"
  proof -
    have "{v. registered ?c v} = {v. registered ctx v} - {w}" using R by auto
    with L show ?thesis by (simp add: moved_lookup)
  qed
  ultimately have "lib_ok ?c" using lib by (auto simp: lib_ok_def R)
  moreover have "wants ?c f ev \<longleftrightarrow> wants ctx f ev \<and> f \<noteq> sockfd (conns ctx w)" for f ev
    using E(2) sockfd_inj [OF lib _ w] unfolding wants_def R by fastforce
  ultimately show ?thesis by (auto simp: vacated_def R)
qed

lemma vacate_slot_ok:
  assumes lib: "lib_ok ctx" and w: "registered ctx w"
  shows "succeeds (vacated w ctx) (vacate_slot w ctx)"
proof -
  note D = lib_okD [OF lib w]
  have n: "fds_count ctx \<le> length (fds ctx)" using lib by (simp add: lib_ok_def slots_ok_def)
  obtain L where L: "delete_from_fd (sockfd (conns ctx w)) ctx = Inr (ctx\<lparr>lws_lookup := L\<rparr>)"
      "lookup_ok (ctx\<lparr>lws_lookup := L\<rparr>) ({v. registered ctx v} - {w})"
    using delete_from_fd_ok [of ctx "{v. registered ctx v}" w] lib w by (auto simp: lib_ok_def succeeds_iff)
  obtain e where e: "last_one ctx w e" "e = None \<longleftrightarrow> slot_of ctx w = fds_count ctx - 1" using last_one_ex [OF lib w] .
  have "vacate_slot w ctx = Inr (moved w e L ctx)"
  proof (cases e)
    case None
    then show ?thesis using e(2) D n unfolding vacate_slot_def L(1)
      by (simp add: assert_that_def moved_def Let_def lws_plat_delete_socket_from_fds_def)
  next
    case (Some u)
    then have u: "u \<noteq> w" "registered ctx u" "slot_of ctx u = fds_count ctx - 1" using e(1) by (simp_all add: last_one_def)
    let ?c = "ctx\<lparr>lws_lookup := L, fds := ((fds ctx)[slot_of ctx w := fds ctx ! (fds_count ctx - 1)])[fds_count ctx - 1 := (fds ctx ! (fds_count ctx - 1))\<lparr>fd := -1\<rparr>],
      fds_count := fds_count ctx - 1, count_conns := count_conns ctx - 1\<rparr>"
    have "lookup_ok ?c ({v. registered ctx v} - {w})" using L(2) by (simp add: lookup_ok_def split: if_splits)
    from wsi_from_fd_in [OF this, of u] u lib_okD(4) [OF lib u(2)]
    have "wsi_from_fd ?c (fd (fds ctx ! (fds_count ctx - 1))) = Inr (Some u)" by simp
    then show ?thesis using e(2) D n Some unfolding vacate_slot_def L(1)
      by (simp add: assert_that_def moved_def Let_def lws_plat_delete_socket_from_fds_def)
  qed
  with moved_ok [OF lib w e(1) L(2)] show ?thesis by simp
qed

lemma del_synced:
  assumes t: "tables_ok ctx" and v: "vacated w ctx ctx'" and u: "sockfd (conns ctx w) \<noteq> UDPfd (app ctx)"
    and no: "\<And>e. \<not> has_vhost (conns ctx w) \<Longrightarrow> \<not> wants ctx (sockfd (conns ctx w)) e"
  shows "succeeds (\<lambda>(r, c). r = 0 \<and> tables_ok c \<and> registered c = registered ctx')
    (protocol0 peer w (CB_DEL_POLL_FD (sockfd (conns ctx w))) ctx')"
proof -
  let ?f = "sockfd (conns ctx w)" and ?t = "pollfds (app ctx)"
  have ok: "server_ok (app ctx)" "distinct (map fd ?t)" "synced ctx" "table_modes ?t (UDPfd (app ctx)) \<noteq> None"
    "\<And>v. registered ctx v \<Longrightarrow> sockfd (conns ctx v) \<noteq> UDPfd (app ctx)"
    using t by (simp_all add: tables_ok_def app_ok_def)
  note V = v [unfolded vacated_def]
  have "server_ok (app ctx')" using ok(1) V by simp
  from protocol0_request [OF this, of w "(?f, None, False)" peer] obtain s where
    s: "protocol0 peer w (CB_DEL_POLL_FD ?f) ctx' = Inr (0, ctx'\<lparr>app := s\<rparr>)" "server_ok s" "UDPfd s = UDPfd (app ctx)"
      "pollfds s = (if has_vhost (conns ctx w) then erase_fd ?f ?t else ?t)"
    using V by (auto simp: succeeds_iff)
  have "synced (ctx'\<lparr>app := s\<rparr>)"
    using ok(3) V no by (auto simp: synced_def s(3,4) table.mode_del)
  moreover have "distinct (map fd (pollfds s))" "table_modes (pollfds s) (UDPfd s) \<noteq> None"
    using ok(2,4) u table.fds_del [of ?f ?t] by (simp_all add: s(3,4) table.mode_del)
  ultimately show ?thesis using ok(5) V s(1-3) by (simp add: tables_ok_def app_ok_def)
qed

text \<open>A connection that leaves is in the table, or nobody in the table has its descriptor.\<close>

definition removable :: "lws_context \<Rightarrow> wsi \<Rightarrow> bool" where
  "removable ctx w \<longleftrightarrow> registered ctx w \<or>
     (sockfd (conns ctx w) \<noteq> UDPfd (app ctx) \<and> (\<forall>v. registered ctx v \<longrightarrow> sockfd (conns ctx v) \<noteq> sockfd (conns ctx w)))"

lemma removable_other:
  assumes "tables_ok ctx" and "removable ctx w"
  shows "sockfd (conns ctx w) \<noteq> UDPfd (app ctx)" and "\<not> has_vhost (conns ctx w) \<Longrightarrow> \<not> wants ctx (sockfd (conns ctx w)) e"
    and "\<not> registered ctx w \<Longrightarrow> vacated w ctx ctx"
  using assms sockfd_inj [of ctx _ w] by (auto simp: removable_def tables_ok_def app_ok_def wants_def vacated_def)

lemma remove_ok:
  assumes t: "tables_ok ctx" and f: "removable ctx w"
  shows "succeeds (\<lambda>(r, ctx'). tables_ok ctx' \<and> (r \<noteq> 1 \<longrightarrow> \<not> registered ctx' w)) (remove_wsi_socket_from_fds peer w ctx)"
    (is "succeeds ?Q _")
proof (cases "\<not> max_fds_unrelated_to_ulimit ctx \<and> sockfd (conns ctx w) > max_fds ctx")
  case True
  with t show ?thesis by (simp add: remove_wsi_socket_from_fds_def Let_def)
next
  case False
  obtain s where s: "protocol0 peer w CB_LOCK_POLL ctx = Inr (0, ctx\<lparr>app := s\<rparr>)" "tables_ok (ctx\<lparr>app := s\<rparr>)" "UDPfd s = UDPfd (app ctx)"
    using protocol0_quiet [OF t, of peer w 35] by (auto simp: succeeds_iff CB_LOCK_POLL_def)
  define c where "c = lws_same_vh_protocol_remove w (ctx\<lparr>app := s\<rparr>)"
  have c: "tables_ok c" "removable c w" "conns c = conns ctx" "registered c = registered ctx" "fds_count c = fds_count ctx"
    using s(2,3) f by (simp_all add: c_def lws_same_vh_protocol_remove_def removable_def)
  have lib: "lib_ok c" using c(1) by (simp add: tables_ok_def)
  let ?m = "position_in_fds_table (conns ctx w)"
  have "succeeds (vacated w c) (if ?m \<noteq> LWS_NO_FDS_POS then vacate_slot w c else Inr c)"
    using vacate_slot_ok [OF lib, of w] removable_other(3) [OF c(1,2)] by (auto simp: registered_def c(3))
  then obtain d where d: "(if ?m \<noteq> LWS_NO_FDS_POS then vacate_slot w c else Inr c) = Inr d" "vacated w c d" by (auto simp: succeeds_iff)
  have a: "?m = LWS_NO_FDS_POS \<or> (0 \<le> ?m \<and> nat ?m < fds_count c)"
    using lib_okD(1,2) [OF lib, of w] by (auto simp: registered_def slot_of_def c(3))
  obtain e where e: "(if sockfd (conns ctx w) \<noteq> LWS_SOCK_INVALID then protocol0 peer w (CB_DEL_POLL_FD (sockfd (conns ctx w))) d else Inr (0, d)) = Inr (0, e)"
      "tables_ok e" "\<not> registered e w"
  proof (cases "sockfd (conns ctx w) = LWS_SOCK_INVALID")
    case True
    then have "\<not> registered c w" using lib_okD(7) [OF lib, of w] by (auto simp: c(3) LWS_SOCK_INVALID_def)
    with True d(1) c(1) that [of c] show ?thesis by (simp add: registered_def c(3))
  next
    case False
    from del_synced [OF c(1) d(2) removable_other(1,2) [OF c(1,2)], of peer] False that d(2) show ?thesis
      by (auto simp: succeeds_iff c(3) vacated_def)
  qed
  have "succeeds ?Q (bind_res (if \<not> being_destroyed e \<and> fds_count e < unat (fd_limit_per_thread e - 1) then lws_accept_modulation peer True e else Inr e)
      (\<lambda>ctx. bind_res (protocol0 peer w CB_UNLOCK_POLL ctx) (\<lambda>(r, ctx). Inr (if r \<noteq> 0 then -1 else 0, ctx))))"
    by (rule succeeds_mono [OF modulate_unlock_ok [OF e(2)]]) (use e(3) in auto)
  then show ?thesis using s(1) a d(1) e(1)
    unfolding remove_wsi_socket_from_fds_def Let_def if_not_P [OF False]
    by (simp only: assert_that_def if_True if_False bind_res_simps prod.case c_def [symmetric] simp_thms)
qed

section \<open>Everything that happens to the tables\<close>

lemma has_cong:
  assumes "\<And>v. v \<in> S \<Longrightarrow> key v = key' v"
  shows "direct_has key L S = direct_has key' L S" and "slow_has key L S = slow_has key' L S"
proof -
  show "direct_has key L S = direct_has key' L S" by (auto simp: direct_has_def assms cong: conj_cong)
  have "inj_on key S = inj_on key' S" by (rule inj_on_cong) (rule assms)
  then show "slow_has key L S = slow_has key' L S" by (simp add: slow_has_def)
qed

lemma new_conn_ok:
  assumes t: "tables_ok ctx" and w: "\<not> registered ctx w" and c: "position_in_fds_table c = LWS_NO_FDS_POS"
  shows "tables_ok (upd_conn w (\<lambda>_. c) ctx)" (is "tables_ok ?c")
proof -
  have f: "registered ?c = registered ctx" using w c by (auto simp: upd_conn_def registered_def fun_eq_iff)
  have g: "conns ?c v = conns ctx v" "slot_of ?c v = slot_of ctx v" if "registered ctx v" for v
    using that w by (auto simp: upd_conn_def slot_of_def)
  have h: "app ?c = app ctx" "fds ?c = fds ctx" "fds_count ?c = fds_count ctx" "lws_lookup ?c = lws_lookup ctx" "max_fds ?c = max_fds ctx"
    "max_fds_unrelated_to_ulimit ?c = max_fds_unrelated_to_ulimit ctx" "fd_limit_per_thread ?c = fd_limit_per_thread ctx"
    "inside_poll ?c = inside_poll ctx" by (simp_all add: upd_conn_def)
  have "lookup_ok ?c {v. registered ctx v} = lookup_ok ctx {v. registered ctx v}"
    using has_cong [of "{v. registered ctx v}" "sockfd \<circ> conns ?c" "sockfd \<circ> conns ctx"] g by (simp add: lookup_ok_def h)
  moreover have "wants ?c = wants ctx" using g by (auto simp: wants_def f h fun_eq_iff)
  moreover have "slots_ok ?c = slots_ok ctx" using g unfolding slots_ok_def f h by (metis (no_types, lifting))
  ultimately show ?thesis using t g by (auto simp: tables_ok_def app_ok_def synced_def lib_ok_def f h)
qed

text \<open>The steps: a connection object is made, enters the table, leaves it, changes its events, or the
  server works on without touching its table.\<close>

inductive table_step :: "(wsi \<Rightarrow> string) \<Rightarrow> lws_context \<Rightarrow> lws_context \<Rightarrow> bool" for peer where
  made: "\<not> registered ctx w \<Longrightarrow> position_in_fds_table c = LWS_NO_FDS_POS \<Longrightarrow> table_step peer ctx (upd_conn w (\<lambda>_. c) ctx)"
| entered: "fresh ctx w \<Longrightarrow> insert_wsi_socket_into_fds peer w ctx = Inr (r, ctx') \<Longrightarrow> table_step peer ctx ctx'"
| left: "removable ctx w \<Longrightarrow> remove_wsi_socket_from_fds peer w ctx = Inr (r, ctx') \<Longrightarrow> table_step peer ctx ctx'"
| changed: "lws_change_pollfd peer w a b ctx = Inr (r, ctx') \<Longrightarrow> table_step peer ctx ctx'"
| served: "server_ok s \<Longrightarrow> pollfds s = pollfds (app ctx) \<Longrightarrow> UDPfd s = UDPfd (app ctx) \<Longrightarrow> table_step peer ctx (ctx\<lparr>app := s\<rparr>)"

lemma table_step_ok: "table_step peer ctx ctx' \<Longrightarrow> tables_ok ctx \<Longrightarrow> tables_ok ctx'"
proof (induction rule: table_step.induct)
  case (made ctx w c)
  then show ?case by (intro new_conn_ok)
next
  case (entered ctx w r ctx')
  with insert_ok [of ctx w peer] show ?case by simp
next
  case (left ctx w r ctx')
  with remove_ok [of ctx w peer] show ?case by simp
next
  case (changed w a b ctx r ctx')
  with change_keeps [of ctx peer w a b] show ?case by (simp add: lws_change_pollfd_def keeps_def)
next
  case (served s ctx)
  then show ?case by (simp add: tables_ok_def app_ok_def synced_def)
qed

lemma table_steps_ok: "(table_step peer)\<^sup>*\<^sup>* ctx ctx' \<Longrightarrow> tables_ok ctx \<Longrightarrow> tables_ok ctx'"
  by (induction rule: rtranclp_induct) (auto intro: table_step_ok)

section \<open>Properties\<close>

text \<open>C22. The library and the server poll for the same things. Whatever sequence of connections enters and
  leaves the library's table or changes its events, with descriptors that are not open twice, none of
  its assertions fails and no access leaves its arrays; every registered connection is found in its
  slot and by its descriptor; and the server's table has, besides its UDP socket, exactly the
  registered connections of the virtual host, each with the events the library wants.\<close>

theorem tables_stay_in_step:
  assumes "tables_ok ctx0" and "(table_step peer)\<^sup>*\<^sup>* ctx0 ctx"
  shows "(\<forall>f e. f \<noteq> UDPfd (app ctx) \<longrightarrow> (table_modes (pollfds (app ctx)) f = Some e \<longleftrightarrow>
        (\<exists>w. registered ctx w \<and> has_vhost (conns ctx w) \<and> sockfd (conns ctx w) = f \<and> events (fds ctx ! slot_of ctx w) = e))) \<and>
    distinct (map fd (pollfds (app ctx))) \<and> UDPfd (app ctx) \<in> set (map fd (pollfds (app ctx))) \<and>
    (\<forall>w. registered ctx w \<longrightarrow> slot_of ctx w < fds_count ctx \<and> fd (fds ctx ! slot_of ctx w) = sockfd (conns ctx w) \<and>
        wsi_from_fd ctx (sockfd (conns ctx w)) = Inr (Some w)) \<and>
    (\<forall>w. fresh ctx w \<longrightarrow> (\<exists>r ctx'. insert_wsi_socket_into_fds peer w ctx = Inr (r, ctx') \<and> (r = 0 \<longrightarrow> registered ctx' w))) \<and>
    (\<forall>w. removable ctx w \<longrightarrow> (\<exists>r ctx'. remove_wsi_socket_from_fds peer w ctx = Inr (r, ctx') \<and> (r \<noteq> 1 \<longrightarrow> \<not> registered ctx' w))) \<and>
    (\<forall>w a b. \<exists>ctx'. lws_change_pollfd peer w a b ctx = Inr (0, ctx'))"
proof (intro conjI allI impI)
  have t: "tables_ok ctx" using table_steps_ok [OF assms(2,1)] .
  then have lib: "lib_ok ctx" by (simp add: tables_ok_def)
  show "table_modes (pollfds (app ctx)) f = Some e \<longleftrightarrow>
      (\<exists>w. registered ctx w \<and> has_vhost (conns ctx w) \<and> sockfd (conns ctx w) = f \<and> events (fds ctx ! slot_of ctx w) = e)"
    if "f \<noteq> UDPfd (app ctx)" for f e using t that by (simp add: tables_ok_def synced_def wants_def)
  show "distinct (map fd (pollfds (app ctx)))" using t by (simp add: tables_ok_def app_ok_def)
  have "UDPfd (app ctx) \<in> dom (table_modes (pollfds (app ctx)))" using t by (simp add: tables_ok_def app_ok_def dom_def)
  then show "UDPfd (app ctx) \<in> set (map fd (pollfds (app ctx)))" unfolding table.mode_dom .
  show "slot_of ctx w < fds_count ctx" "fd (fds ctx ! slot_of ctx w) = sockfd (conns ctx w)"
    "wsi_from_fd ctx (sockfd (conns ctx w)) = Inr (Some w)" if "registered ctx w" for w
    using lib_okD(2,4) [OF lib that] wsi_from_fd_in [of ctx "{w. registered ctx w}" w] lib that by (simp_all add: lib_ok_def)
  show "\<exists>r ctx'. insert_wsi_socket_into_fds peer w ctx = Inr (r, ctx') \<and> (r = 0 \<longrightarrow> registered ctx' w)" if "fresh ctx w" for w
    using insert_ok [OF t that, of peer] by (auto simp: succeeds_iff)
  show "\<exists>r ctx'. remove_wsi_socket_from_fds peer w ctx = Inr (r, ctx') \<and> (r \<noteq> 1 \<longrightarrow> \<not> registered ctx' w)" if "removable ctx w" for w
    using remove_ok [OF t that, of peer] by (auto simp: succeeds_iff)
  show "\<exists>ctx'. lws_change_pollfd peer w a b ctx = Inr (0, ctx')" for w a b
    using change_keeps [OF t, of peer w a b] by (auto simp: succeeds_iff lws_change_pollfd_def keeps_def)
qed

text \<open>A table with one connection in it, on descriptor 7 of the example's server.\<close>

definition demo_conn :: conn where
  "demo_conn = \<lparr>sockfd = 7, position_in_fds_table = 0, has_vhost = True, has_protocol = True, event_pipe = False,
     http2_substream = False, handling_pollout = False, leave_pollout_active = False\<rparr>"

definition demo_table :: lws_context where
  "demo_table = \<lparr>fds = \<lparr>fd = 7, events = 1, revents = 0\<rparr> # replicate 7 \<lparr>fd = 0, events = 0, revents = 0\<rparr>, fds_count = 1, count_conns = 1,
     inside_poll = False, foreign_pfd_list = [], service_tid = 0, lws_lookup = (replicate 16 None)[7 := Some 3], max_fds = 16,
     max_fds_unrelated_to_ulimit = False, fd_limit_per_thread = 8, listeners = [], same_vh_protocol = [], being_destroyed = False,
     cancelled = 0, malloc_ok = True, conns = (\<lambda>w. if w = 3 then demo_conn else demo_conn\<lparr>position_in_fds_table := LWS_NO_FDS_POS\<rparr>),
     app = demo_state\<rparr>"

lemma demo_table_ok: "tables_ok demo_table"
proof -
  have r: "registered demo_table w \<longleftrightarrow> w = 3" "slot_of demo_table 3 = 0" for w
    by (simp_all add: registered_def demo_table_def demo_conn_def LWS_NO_FDS_POS_def slot_of_def)
  have c: "conns demo_table 3 = demo_conn" "fds_count demo_table = 1" "app demo_table = demo_state"
    "fds demo_table ! 0 = \<lparr>fd = 7, events = 1, revents = 0\<rparr>" "length (fds demo_table) = 8" "fd_limit_per_thread demo_table = 8"
    "inside_poll demo_table = False" by (simp_all add: demo_table_def)
  have d: "position_in_fds_table demo_conn = 0" "sockfd demo_conn = 7" "has_vhost demo_conn" "\<not> http2_substream demo_conn"
    by (simp_all add: demo_conn_def)
  have u: "UDPfd demo_state = 4" "table_modes (pollfds demo_state) = [4 \<mapsto> 9, 7 \<mapsto> 1]"
    by (auto simp: demo_state_def table_modes_def fun_eq_iff)
  have "slots_ok demo_table" unfolding slots_ok_def by (simp add: r c d)
  moreover have "lookup_ok demo_table {3}"
    by (auto simp: lookup_ok_def direct_has_def demo_table_def demo_conn_def nth_list_update split: if_splits)
  ultimately have "lib_ok demo_table" by (simp add: lib_ok_def r c d)
  moreover have "synced demo_table" by (auto simp: synced_def wants_def r c d u split: if_splits)
  moreover have "app_ok demo_table"
    using demo_state_ok by (simp add: app_ok_def r c d u) (simp add: demo_state_def)
  ultimately show ?thesis by (simp add: tables_ok_def)
qed

theorem tables_stay_in_step_witness:
  "\<exists>ctx. (table_step (\<lambda>_. [])) demo_table ctx \<and> lws_change_pollfd (\<lambda>_. []) 3 0 LWS_POLLOUT demo_table = Inr (0, ctx) \<and>
     distinct (map fd (pollfds (app ctx))) \<and> (\<forall>e. 7 \<noteq> UDPfd (app ctx) \<longrightarrow> (table_modes (pollfds (app ctx)) 7 = Some e \<longleftrightarrow>
        (\<exists>w. registered ctx w \<and> has_vhost (conns ctx w) \<and> sockfd (conns ctx w) = 7 \<and> events (fds ctx ! slot_of ctx w) = e)))"
proof -
  note ok = tables_stay_in_step [OF demo_table_ok, of "\<lambda>_. []"]
  obtain ctx where c: "lws_change_pollfd (\<lambda>_. []) 3 0 LWS_POLLOUT demo_table = Inr (0, ctx)"
    using ok [OF rtranclp.rtrancl_refl] by blast
  then have s: "table_step (\<lambda>_. []) demo_table ctx" by (rule table_step.changed)
  then have "(table_step (\<lambda>_. []))\<^sup>*\<^sup>* demo_table ctx" by (rule r_into_rtranclp)
  from ok [OF this] c s show ?thesis by blast
qed

end
