(* ===== verification/Lws_Headers.thy ===== *)
theory Lws_Headers
  imports Cpp_Prelude
begin

text \<open>
  The table of the headers of a request and the access to it
  (\<^verbatim>\<open>src/foreign/libwebsockets/lib/roles/http/server/parsers.c\<close>).

  The text of all headers lies in one block; a header is a chain of fragments of it, linked by index,
  where the index 0 ends the chain. The walks along a chain are loops with as much fuel as there are
  fragments, which is enough when every link leads further on, as the parser makes them. Reading or writing outside of a block is
  undefined behaviour.
\<close>

section \<open>State\<close>

text \<open>The headers the handshake looks at.\<close>

datatype hdr_token = WSI_TOKEN_GET_URI | WSI_TOKEN_HOST | WSI_TOKEN_CONNECTION | WSI_TOKEN_PROTOCOL
  | WSI_TOKEN_HTTP_COOKIE | WSI_TOKEN_KEY | WSI_TOKEN_VERSION

record lws_fragments =
  frag_offset :: nat
  frag_len :: nat
  nfrag :: nat

record allocated_headers =
  ah_data :: "byte list"
  frags :: "lws_fragments list"
  frag_index :: "hdr_token \<Rightarrow> nat"

section \<open>Memory\<close>

definition store_at :: "nat \<Rightarrow> byte list \<Rightarrow> byte list \<Rightarrow> byte list res" where
  "store_at p bs dst = (if p + length bs \<le> length dst then Inr (overwrite p bs dst) else Inl Undefined_behaviour)"

text \<open>The string a pointer points to.\<close>

definition c_string :: "byte list option \<Rightarrow> byte list res" where
  "c_string p = (case p of None \<Rightarrow> Inl Undefined_behaviour
     | Some s \<Rightarrow> if 0 \<in> set s then Inr (takeWhile (\<lambda>c. c \<noteq> 0) s) else Inl Undefined_behaviour)"

text \<open>What \<open>strncpy\<close> writes: \<open>n\<close> characters, with zeros from the end of the string on.\<close>

definition nul_padded :: "byte list \<Rightarrow> byte list" where
  "nul_padded s = (let t = takeWhile (\<lambda>c. c \<noteq> 0) s in t @ replicate (length s - length t) 0)"

definition c_strncpy :: "byte list \<Rightarrow> nat \<Rightarrow> byte list res" where
  "c_strncpy s n =
     (let t = take n s in if length t = n then Inr (nul_padded t)
      else if 0 \<in> set t then Inr (nul_padded (t @ replicate (n - length t) 0)) else Inl Undefined_behaviour)"

section \<open>Access\<close>

fun fragment_length_loop :: "nat \<Rightarrow> allocated_headers \<Rightarrow> nat \<Rightarrow> int \<Rightarrow> nat run" where
  "fragment_length_loop 0 ah n frag_idx = None"
| "fragment_length_loop (Suc k) ah n frag_idx =
     bind_run (Some (vec_get (frags ah) n)) (\<lambda>f.
       if frag_idx = 0 then Some (Inr (frag_len f))
       else if nfrag f = 0 then Some (Inr 0)
       else fragment_length_loop k ah (nfrag f) (frag_idx - 1))"

definition lws_hdr_fragment_length :: "allocated_headers option \<Rightarrow> hdr_token \<Rightarrow> int \<Rightarrow> nat run" where
  "lws_hdr_fragment_length ah h frag_idx =
     (case ah of None \<Rightarrow> Some (Inr 0)
      | Some ah \<Rightarrow> let n = frag_index ah h in
          if n = 0 then Some (Inr 0) else fragment_length_loop (length (frags ah)) ah n frag_idx)"

fun hdr_length_loop :: "nat \<Rightarrow> allocated_headers \<Rightarrow> hdr_token \<Rightarrow> nat \<Rightarrow> nat \<Rightarrow> nat run" where
  "hdr_length_loop 0 ah h n len = None"
| "hdr_length_loop (Suc k) ah h n len =
     bind_run (Some (vec_get (frags ah) n)) (\<lambda>f.
       let len = len + frag_len f;
           len = (if nfrag f \<noteq> 0 \<and> h \<noteq> WSI_TOKEN_HTTP_COOKIE then len + 1 else len)
       in if nfrag f = 0 then Some (Inr len) else hdr_length_loop k ah h (nfrag f) len)"

definition lws_hdr_total_length :: "allocated_headers option \<Rightarrow> hdr_token \<Rightarrow> nat run" where
  "lws_hdr_total_length ah h =
     (case ah of None \<Rightarrow> Some (Inr 0)
      | Some ah \<Rightarrow> let n = frag_index ah h in
          if n = 0 then Some (Inr 0) else hdr_length_loop (length (frags ah)) ah h n 0)"

text \<open>\<open>lws_hdr_copy_fragment\<close>: the walk to the fragment, and the copy.\<close>

fun nth_fragment :: "nat \<Rightarrow> allocated_headers \<Rightarrow> int \<Rightarrow> nat \<Rightarrow> int \<Rightarrow> nat option run" where
  "nth_fragment 0 ah n f frag_idx = None"
| "nth_fragment (Suc k) ah n f frag_idx =
     (if n < frag_idx then
        bind_run (Some (vec_get (frags ah) f)) (\<lambda>fr.
          if nfrag fr = 0 then Some (Inr None) else nth_fragment k ah (n + 1) (nfrag fr) frag_idx)
      else Some (Inr (Some f)))"

definition lws_hdr_copy_fragment ::
    "allocated_headers option \<Rightarrow> byte list \<Rightarrow> int \<Rightarrow> hdr_token \<Rightarrow> int \<Rightarrow> (int \<times> byte list) run" where
  "lws_hdr_copy_fragment ah dst len h frag_idx =
     (case ah of None \<Rightarrow> Some (Inr (-1, dst))
      | Some ah \<Rightarrow> let f = frag_index ah h in
          if f = 0 then Some (Inr (-1, dst))
          else
            bind_run (nth_fragment (length (frags ah)) ah 0 f frag_idx) (\<lambda>f. case f of None \<Rightarrow> Some (Inr (-1, dst)) | Some f \<Rightarrow>
            bind_run (Some (vec_get (frags ah) f)) (\<lambda>fr.
            if int (frag_len fr) \<ge> len then Some (Inr (-1, dst))
            else Some
              (if frag_offset fr + frag_len fr \<le> length (ah_data ah)
               then bind_res (store_at 0 (window (frag_offset fr) (frag_len fr) (ah_data ah) @ [0]) dst) (\<lambda>dst.
                      Inr (int (frag_len fr), dst))
               else Inl Undefined_behaviour))))"

text \<open>\<open>lws_hdr_copy\<close>: the fragments one behind the other, with commas in between but for cookies.\<close>

fun hdr_copy_loop ::
    "nat \<Rightarrow> allocated_headers \<Rightarrow> hdr_token \<Rightarrow> nat \<Rightarrow> nat \<Rightarrow> int \<Rightarrow> byte list \<Rightarrow> (bool \<times> nat \<times> byte list) run" where
  "hdr_copy_loop 0 ah h n p len dst = None"
| "hdr_copy_loop (Suc k) ah h n p len dst =
     bind_run (Some (vec_get (frags ah) n)) (\<lambda>f.
       let comma = nfrag f \<noteq> 0 \<and> h \<noteq> WSI_TOKEN_HTTP_COOKIE
       in if int (frag_len f) + of_bool comma \<ge> len then Some (Inr (False, p, dst))
          else
            bind_run (Some (bind_res (c_strncpy (drop (frag_offset f) (ah_data ah)) (frag_len f)) (\<lambda>t.
                bind_res (store_at p t dst) (\<lambda>dst.
                if comma then store_at (p + frag_len f) [0x2c] dst else Inr dst)))) (\<lambda>dst.
            let p = p + frag_len f + of_bool comma
            in if nfrag f = 0 then Some (Inr (True, p, dst))
               else hdr_copy_loop k ah h (nfrag f) p (len - int (frag_len f)) dst))"

definition lws_hdr_copy :: "allocated_headers option \<Rightarrow> byte list \<Rightarrow> int \<Rightarrow> hdr_token \<Rightarrow> (int \<times> byte list) run" where
  "lws_hdr_copy ah dst len h =
     bind_run (lws_hdr_total_length ah h) (\<lambda>toklen.
     bind_run (Some (store_at 0 [0] dst)) (\<lambda>dst.
     if toklen = 0 then Some (Inr (0, dst))
     else if int toklen \<ge> len then Some (Inr (-1, dst))
     else
       case ah of None \<Rightarrow> Some (Inr (-1, dst))
       | Some ah \<Rightarrow> let n = frag_index ah h in
           if n = 0 then Some (Inr (0, dst))
           else
             bind_run (hdr_copy_loop (length (frags ah)) ah h n 0 len dst) (\<lambda>(ok, p, dst).
             if \<not> ok then Some (Inr (-1, dst))
             else Some (bind_res (store_at p [0] dst) (\<lambda>dst. Inr (int toklen, dst))))))"

definition lws_hdr_simple_ptr :: "allocated_headers option \<Rightarrow> hdr_token \<Rightarrow> byte list option res" where
  "lws_hdr_simple_ptr ah h =
     (case ah of None \<Rightarrow> Inr None
      | Some ah \<Rightarrow> let n = frag_index ah h in
          if n = 0 then Inr None
          else bind_res (vec_get (frags ah) n) (\<lambda>f. Inr (Some (drop (frag_offset f) (ah_data ah)))))"

section \<open>Chains of fragments\<close>

text \<open>What the parser makes of a request: links lead further on and end with 0; the text of a fragment lies
  in the block with a NUL behind it.\<close>

definition linked_headers :: "allocated_headers \<Rightarrow> bool" where
  "linked_headers ah \<longleftrightarrow> (\<forall>h. frag_index ah h = 0 \<or> frag_index ah h < length (frags ah)) \<and>
     (\<forall>n \<in> {0<..<length (frags ah)}. let f = frags ah ! n in
        (nfrag f = 0 \<or> n < nfrag f \<and> nfrag f < length (frags ah)) \<and>
        frag_offset f + frag_len f < length (ah_data ah) \<and> ah_data ah ! (frag_offset f + frag_len f) = 0)"

fun chain :: "nat \<Rightarrow> allocated_headers \<Rightarrow> nat \<Rightarrow> nat list" where
  "chain 0 ah n = []"
| "chain (Suc k) ah n = (if n = 0 then [] else n # chain k ah (nfrag (frags ah ! n)))"

definition frag_text :: "allocated_headers \<Rightarrow> nat \<Rightarrow> byte list" where
  "frag_text ah n = window (frag_offset (frags ah ! n)) (frag_len (frags ah ! n)) (ah_data ah)"

definition hdr_values :: "allocated_headers \<Rightarrow> hdr_token \<Rightarrow> byte list list" where
  "hdr_values ah h = map (frag_text ah) (chain (length (frags ah)) ah (frag_index ah h))"

fun joined :: "byte list \<Rightarrow> byte list list \<Rightarrow> byte list" where
  "joined sep [] = []"
| "joined sep [v] = v"
| "joined sep (v # w # vs) = v @ sep @ joined sep (w # vs)"

definition hdr_sep :: "hdr_token \<Rightarrow> byte list" where
  "hdr_sep h = (if h = WSI_TOKEN_HTTP_COOKIE then [] else [0x2c])"

definition hdr_text :: "allocated_headers \<Rightarrow> hdr_token \<Rightarrow> byte list" where
  "hdr_text ah h = joined (hdr_sep h) (hdr_values ah h)"

lemma linkedD:
  assumes "linked_headers ah" and "0 < n" and "n < length (frags ah)"
  shows "nfrag (frags ah ! n) = 0 \<or> n < nfrag (frags ah ! n) \<and> nfrag (frags ah ! n) < length (frags ah)"
    "frag_offset (frags ah ! n) + frag_len (frags ah ! n) < length (ah_data ah)"
    "ah_data ah ! (frag_offset (frags ah ! n) + frag_len (frags ah ! n)) = 0" "vec_get (frags ah) n = Inr (frags ah ! n)"
  using assms by (auto simp: linked_headers_def Let_def)

lemma linked_index: "linked_headers ah \<Longrightarrow> frag_index ah h \<noteq> 0 \<Longrightarrow> 0 < frag_index ah h \<and> frag_index ah h < length (frags ah)"
  unfolding linked_headers_def by (metis neq0_conv)

lemma length_frag_text: "linked_headers ah \<Longrightarrow> 0 < n \<Longrightarrow> n < length (frags ah) \<Longrightarrow> length (frag_text ah n) = frag_len (frags ah ! n)"
  using linkedD(2) [of ah n] by (simp add: frag_text_def window_def)

lemma joined_Cons: "joined sep (v # vs) = v @ (if vs = [] then [] else sep @ joined sep vs)"
  by (cases vs) simp_all

lemma length_joined: "map length vs = map length ws \<Longrightarrow> length (joined sep vs) = length (joined sep ws)"
proof (induction vs arbitrary: ws)
  case (Cons v vs)
  then show ?case by (cases ws) (auto simp: joined_Cons)
qed simp

lemma chain_zero [simp]: "chain k ah 0 = []"
  by (cases k) simp_all

text \<open>The rule for walks: the link of a fragment is 0, or the walk goes on with less fuel.\<close>

lemma chain_induct [consumes 4, case_names last link]:
  assumes "linked_headers ah" and "0 < n" and "n < length (frags ah)" and "length (frags ah) - n \<le> k"
    and "\<And>n k. 0 < n \<Longrightarrow> n < length (frags ah) \<Longrightarrow> nfrag (frags ah ! n) = 0 \<Longrightarrow> P n (Suc k)"
    and "\<And>n k. 0 < n \<Longrightarrow> n < length (frags ah) \<Longrightarrow> 0 < nfrag (frags ah ! n) \<Longrightarrow> nfrag (frags ah ! n) < length (frags ah) \<Longrightarrow>
      P (nfrag (frags ah ! n)) (Suc k) \<Longrightarrow> P n (Suc (Suc k))"
  shows "P n k"
  using assms(2-4)
proof (induction k arbitrary: n)
  case (Suc k)
  show ?case
  proof (cases "nfrag (frags ah ! n) = 0")
    case True
    with Suc.prems show ?thesis by (intro assms(5)) simp_all
  next
    case False
    with linkedD(1) [OF assms(1) Suc.prems(1,2)] have n': "0 < nfrag (frags ah ! n)" "n < nfrag (frags ah ! n)" "nfrag (frags ah ! n) < length (frags ah)"
      by auto
    with Suc.prems(3) obtain k' where "k = Suc k'" by (cases k) auto
    with n' Suc assms(6) [of n k'] show ?thesis by auto
  qed
qed simp

lemma chain_Suc: "0 < n \<Longrightarrow> chain (Suc k) ah n = n # chain k ah (nfrag (frags ah ! n))"
  by simp

lemma length_loop:
  assumes "linked_headers ah" and "0 < n" and "n < length (frags ah)" and "length (frags ah) - n \<le> k"
  shows "hdr_length_loop k ah h n len = Some (Inr (len + length (joined (hdr_sep h) (map (frag_text ah) (chain k ah n)))))"
  using assms
proof (induction arbitrary: len rule: chain_induct)
  case (last n k)
  with linkedD(4) [OF assms(1) last(1,2)] length_frag_text [OF assms(1) last(1,2)] show ?case by (simp add: Let_def)
next
  case (link n k)
  with linkedD(4) [OF assms(1) link(1,2)] length_frag_text [OF assms(1) link(1,2)] show ?case
    by (simp add: joined_Cons hdr_sep_def Let_def chain_Suc del: chain.simps)
qed

lemma total_length:
  assumes "linked_headers ah"
  shows "lws_hdr_total_length (Some ah) h = Some (Inr (length (hdr_text ah h)))"
proof (cases "frag_index ah h = 0")
  case False
  with length_loop [OF assms, of "frag_index ah h" "length (frags ah)" h 0] linked_index [OF assms False] show ?thesis
    by (simp add: lws_hdr_total_length_def hdr_text_def hdr_values_def)
qed (simp add: lws_hdr_total_length_def hdr_text_def hdr_values_def)

lemma length_nul_padded [simp]: "length (nul_padded s) = length s"
  using length_takeWhile_le [of "\<lambda>c. c \<noteq> 0" s] by (simp add: nul_padded_def Let_def)

lemma nul_padded_plain: "0 \<notin> set s \<Longrightarrow> nul_padded s = s"
  by (subst nul_padded_def, subst takeWhile_eq_all_conv [THEN iffD2]) (auto simp: takeWhile_eq_all_conv)

lemma strncpy_frag:
  assumes "linked_headers ah" and "0 < n" and "n < length (frags ah)"
  shows "c_strncpy (drop (frag_offset (frags ah ! n)) (ah_data ah)) (frag_len (frags ah ! n)) = Inr (nul_padded (frag_text ah n))"
  using linkedD(2) [OF assms] by (simp add: c_strncpy_def frag_text_def window_def)

lemma overwrite_append:
  "k + length a + length b \<le> length ys \<Longrightarrow> overwrite (k + length a) b (overwrite k a ys) = overwrite k (a @ b) ys"
  by (simp add: overwrite_def add.assoc add.commute add.left_commute)

lemma copy_loop:
  assumes "linked_headers ah" and "0 < n" and "n < length (frags ah)" and "length (frags ah) - n \<le> k"
    and "int (length (joined (hdr_sep h) (map (frag_text ah) (chain k ah n)))) < len"
    and "p + length (joined (hdr_sep h) (map (frag_text ah) (chain k ah n))) \<le> length dst"
  shows "hdr_copy_loop k ah h n p len dst =
     (let t = joined (hdr_sep h) (map (\<lambda>n. nul_padded (frag_text ah n)) (chain k ah n))
      in Some (Inr (True, p + length t, overwrite p t dst)))"
  using assms
proof (induction arbitrary: p len dst rule: chain_induct)
  case (last n k)
  with linkedD(4) [OF assms(1) last(1,2)] length_frag_text [OF assms(1) last(1,2)] strncpy_frag [OF assms(1) last(1,2)] show ?case
    by (simp add: store_at_def Let_def)
next
  case (link n k)
  let ?f = "frags ah ! n" and ?t = "nul_padded (frag_text ah n)" and ?comma = "h \<noteq> WSI_TOKEN_HTTP_COOKIE"
  let ?dst = "overwrite p (?t @ hdr_sep h) dst" and ?rest = "chain (Suc k) ah (nfrag ?f)"
  have l: "length (frag_text ah n) = frag_len ?f" by (rule length_frag_text [OF assms(1) link(1,2)])
  have c: "length (hdr_sep h) = of_bool ?comma" by (simp add: hdr_sep_def)
  have ne: "?rest \<noteq> []" using link(3) by simp
  let ?len = "length (joined (hdr_sep h) (map (frag_text ah) ?rest))"
  have total: "length (joined (hdr_sep h) (map (frag_text ah) (chain (Suc (Suc k)) ah n))) = frag_len ?f + of_bool ?comma + ?len"
    using ne by (simp add: chain_Suc [OF link(1)] joined_Cons l c del: chain.simps)
  have room: "p + frag_len ?f + of_bool ?comma + ?len \<le> length dst" "int (frag_len ?f + of_bool ?comma + ?len) < len"
    using link.prems unfolding total by simp_all
  have st: "bind_res (store_at p ?t dst) (\<lambda>dst. if ?comma then store_at (p + frag_len ?f) [0x2c] dst else Inr dst) = Inr ?dst"
  proof (cases ?comma)
    case True
    with room(1) l overwrite_append [of p ?t "[0x2c]" dst] show ?thesis by (simp add: store_at_def hdr_sep_def)
  next
    case False
    with room(1) l show ?thesis by (simp add: store_at_def hdr_sep_def)
  qed
  have "hdr_copy_loop (Suc (Suc k)) ah h n p len dst =
      hdr_copy_loop (Suc k) ah h (nfrag ?f) (p + frag_len ?f + of_bool ?comma) (len - int (frag_len ?f)) ?dst"
    using link(3) linkedD(4) [OF assms(1) link(1,2)] strncpy_frag [OF assms(1) link(1,2)] st room(2)
    by (subst hdr_copy_loop.simps) (simp add: Let_def)
  moreover have "length ?dst = length dst" using room(1) l c by simp
  moreover have "length (joined (hdr_sep h) (map (\<lambda>n. nul_padded (frag_text ah n)) ?rest)) = ?len"
    by (rule length_joined) simp
  moreover have "p + frag_len ?f + of_bool ?comma = p + length (?t @ hdr_sep h)" by (simp add: l c)
  ultimately show ?case
    using link.IH [of "len - int (frag_len ?f)" "p + frag_len ?f + of_bool ?comma" ?dst] room ne
      overwrite_append [of p "?t @ hdr_sep h" "joined (hdr_sep h) (map (\<lambda>n. nul_padded (frag_text ah n)) ?rest)" dst]
    by (simp add: Let_def chain_Suc [OF link(1)] joined_Cons add.assoc del: chain.simps hdr_copy_loop.simps)
qed

section \<open>What the accesses give\<close>

definition hdr_copied :: "allocated_headers \<Rightarrow> hdr_token \<Rightarrow> byte list" where
  "hdr_copied ah h = joined (hdr_sep h) (map nul_padded (hdr_values ah h))"

lemma hdr_text_index: "hdr_text ah h \<noteq> [] \<Longrightarrow> frag_index ah h \<noteq> 0"
  by (metis chain_zero hdr_text_def hdr_values_def joined.simps(1) list.simps(8))

lemma length_hdr_copied [simp]: "length (hdr_copied ah h) = length (hdr_text ah h)"
  unfolding hdr_copied_def hdr_text_def by (rule length_joined) simp

lemma set_joined: "set (joined sep vs) \<subseteq> set sep \<union> \<Union> (set ` set vs)"
  by (induction sep vs rule: joined.induct) auto

lemma values_in_joined: "v \<in> set vs \<Longrightarrow> set v \<subseteq> set (joined sep vs)"
  by (induction sep vs rule: joined.induct) auto

lemma hdr_copied_plain:
  assumes "0 \<notin> set (hdr_text ah h)"
  shows "hdr_copied ah h = hdr_text ah h"
proof -
  have "nul_padded v = v" if "v \<in> set (hdr_values ah h)" for v
    using assms values_in_joined [OF that, of "hdr_sep h"] by (intro nul_padded_plain) (auto simp: hdr_text_def)
  then have "map nul_padded (hdr_values ah h) = hdr_values ah h" by (simp add: map_idI)
  then show ?thesis by (simp add: hdr_copied_def hdr_text_def)
qed

lemma overwrite_again: "length a \<le> length b \<Longrightarrow> k + length b \<le> length ys \<Longrightarrow> overwrite k b (overwrite k a ys) = overwrite k b ys"
  by (simp add: overwrite_def add.commute)

lemma hdr_copy:
  assumes "linked_headers ah" and "0 < len" and "len \<le> int (length dst)"
  shows "lws_hdr_copy (Some ah) dst len h = Some (Inr
     (if hdr_text ah h = [] then (0, overwrite 0 [0] dst)
      else if int (length (hdr_text ah h)) \<ge> len then (-1, overwrite 0 [0] dst)
      else (int (length (hdr_text ah h)), overwrite 0 (hdr_copied ah h @ [0]) dst)))"
proof -
  have d: "0 < length dst" using assms(2,3) by linarith
  then have s0: "store_at 0 [0] dst = Inr (overwrite 0 [0] dst)" unfolding store_at_def by (simp add: Suc_le_eq)
  note tl = total_length [OF assms(1), of h]
  show ?thesis
  proof (cases "hdr_text ah h = [] \<or> int (length (hdr_text ah h)) \<ge> len")
    case True
    then show ?thesis using tl s0 by (auto simp: lws_hdr_copy_def)
  next
    case False
    let ?i = "frag_index ah h" and ?t = "hdr_copied ah h"
    have i: "?i \<noteq> 0" using False hdr_text_index by blast
    have room: "length ?t + 1 \<le> length dst" "?t \<noteq> []"
      using False assms(3) length_hdr_copied [of ah h] by (simp, metis list.size(3) length_0_conv)
    have "hdr_copy_loop (length (frags ah)) ah h ?i 0 len (overwrite 0 [0] dst) =
        (let t = joined (hdr_sep h) (map (\<lambda>n. nul_padded (frag_text ah n)) (chain (length (frags ah)) ah ?i))
         in Some (Inr (True, 0 + length t, overwrite 0 t (overwrite 0 [0] dst))))"
      using linked_index [OF assms(1) i] False room d
      by (intro copy_loop [OF assms(1)]) (simp_all add: hdr_text_def [symmetric] hdr_values_def [symmetric])
    also have "\<dots> = Some (Inr (True, length ?t, overwrite 0 ?t (overwrite 0 [0] dst)))"
      by (simp add: hdr_copied_def hdr_values_def Let_def comp_def)
    also have "overwrite 0 ?t (overwrite 0 [0] dst) = overwrite 0 ?t dst"
      using room by (intro overwrite_again) (cases ?t; simp)+
    finally have l: "hdr_copy_loop (length (frags ah)) ah h ?i 0 len (overwrite 0 [0] dst) = Some (Inr (True, length ?t, overwrite 0 ?t dst))" .
    have "store_at (length ?t) [0] (overwrite 0 ?t dst) = Inr (overwrite 0 (?t @ [0]) dst)"
      using room overwrite_append [of 0 ?t "[0]" dst] by (simp add: store_at_def)
    with l tl s0 False i show ?thesis by (simp add: lws_hdr_copy_def Let_def)
  qed
qed

lemma frag_in_data:
  assumes "linked_headers ah" and "0 < n" and "n < length (frags ah)"
  shows "\<exists>rest. drop (frag_offset (frags ah ! n)) (ah_data ah) = frag_text ah n @ 0 # rest"
proof -
  let ?o = "frag_offset (frags ah ! n)" and ?l = "frag_len (frags ah ! n)"
  have "drop ?o (ah_data ah) = frag_text ah n @ drop (?o + ?l) (ah_data ah)"
    by (simp add: frag_text_def window_def add.commute flip: drop_drop)
  also have "drop (?o + ?l) (ah_data ah) = 0 # drop (Suc (?o + ?l)) (ah_data ah)"
    using linkedD(2,3) [OF assms] by (simp flip: Cons_nth_drop_Suc)
  finally show ?thesis by blast
qed

lemma takeWhile_NUL: "takeWhile (\<lambda>c. c \<noteq> 0) (s @ 0 # rest) = takeWhile (\<lambda>c. c \<noteq> 0) s"
  by (induction s) simp_all

lemma simple_ptr:
  assumes "linked_headers ah" and "hdr_text ah h \<noteq> []"
  shows "\<exists>p. lws_hdr_simple_ptr (Some ah) h = Inr (Some p) \<and> c_string (Some p) = Inr (takeWhile (\<lambda>c. c \<noteq> 0) (hd (hdr_values ah h)))"
proof -
  let ?n = "frag_index ah h"
  have "?n \<noteq> 0" using assms(2) by (rule hdr_text_index)
  from linked_index [OF assms(1) this] have n: "0 < ?n" "?n < length (frags ah)" by simp_all
  obtain rest where r: "drop (frag_offset (frags ah ! ?n)) (ah_data ah) = frag_text ah ?n @ 0 # rest"
    using frag_in_data [OF assms(1) n] by blast
  have "hd (hdr_values ah h) = frag_text ah ?n"
    using n by (cases "length (frags ah)") (simp_all add: hdr_values_def)
  then show ?thesis using n linkedD(4) [OF assms(1) n] r takeWhile_NUL by (simp add: lws_hdr_simple_ptr_def c_string_def)
qed

lemma simple_ptr_total: "linked_headers ah \<Longrightarrow> \<exists>p. lws_hdr_simple_ptr (Some ah) h = Inr p"
  using linked_index [of ah h] linkedD(4) [of ah "frag_index ah h"] by (cases "frag_index ah h = 0") (auto simp: lws_hdr_simple_ptr_def)

lemma length_first_value: "length (hd (hdr_values ah h)) \<le> length (hdr_text ah h)" if "hdr_text ah h \<noteq> []"
  using that by (cases "hdr_values ah h") (auto simp: hdr_text_def joined_Cons)

text \<open>The two accesses to a single fragment.\<close>

lemma fragment_length_walk:
  assumes "linked_headers ah" and "0 < n" and "n < length (frags ah)" and "length (frags ah) - n \<le> k"
  shows "fragment_length_loop k ah n (int i) =
     Some (Inr (if i < length (chain k ah n) then frag_len (frags ah ! (chain k ah n ! i)) else 0))"
  using assms
proof (induction arbitrary: i rule: chain_induct)
  case (last n k)
  with linkedD(4) [OF assms(1) last(1,2)] show ?case by (cases i) auto
next
  case (link n k)
  with linkedD(4) [OF assms(1) link(1,2)] link.IH [of "i - 1"] show ?case
    by (cases i) (simp_all add: chain_Suc del: chain.simps)
qed

lemma chain_members:
  assumes "linked_headers ah" and "0 < n" and "n < length (frags ah)" and "length (frags ah) - n \<le> k" and "m \<in> set (chain k ah n)"
  shows "0 < m \<and> m < length (frags ah)"
  using assms
proof (induction rule: chain_induct)
  case (link n k)
  then show ?case by (auto simp: chain_Suc simp del: chain.simps)
qed auto

lemma fragment_length:
  assumes "linked_headers ah"
  shows "lws_hdr_fragment_length (Some ah) h (int i) =
     Some (Inr (if i < length (hdr_values ah h) then length (hdr_values ah h ! i) else 0))"
proof (cases "frag_index ah h = 0")
  case False
  note n = linked_index [OF assms False]
  let ?c = "chain (length (frags ah)) ah (frag_index ah h)"
  have "length (frag_text ah (?c ! i)) = frag_len (frags ah ! (?c ! i))" if "i < length ?c"
    using chain_members [OF assms, of "frag_index ah h" "length (frags ah)" "?c ! i"] n that by (intro length_frag_text [OF assms]) simp_all
  with fragment_length_walk [OF assms, of "frag_index ah h" "length (frags ah)" i] n show ?thesis
    by (auto simp: lws_hdr_fragment_length_def hdr_values_def Let_def)
qed (simp add: lws_hdr_fragment_length_def hdr_values_def)

lemma nth_walk:
  assumes "linked_headers ah" and "0 < n" and "n < length (frags ah)" and "length (frags ah) - n \<le> k"
  shows "nth_fragment k ah j n (j + int i) =
     Some (Inr (if i < length (chain k ah n) then Some (chain k ah n ! i) else None))"
  using assms
proof (induction arbitrary: i j rule: chain_induct)
  case (last n k)
  with linkedD(4) [OF assms(1) last(1,2)] show ?case by (cases i) auto
next
  case (link n k)
  with linkedD(4) [OF assms(1) link(1,2)] link.IH [of "j + 1" "i - 1"] show ?case
    by (cases i) (simp_all add: chain_Suc algebra_simps del: chain.simps)
qed

lemma copy_fragment:
  assumes "linked_headers ah" and "i < length (hdr_values ah h)" and "len \<le> int (length dst)"
  shows "lws_hdr_copy_fragment (Some ah) dst len h (int i) = Some (Inr
     (let v = hdr_values ah h ! i in if int (length v) \<ge> len then (-1, dst) else (int (length v), overwrite 0 (v @ [0]) dst)))"
proof -
  have i: "frag_index ah h \<noteq> 0" using assms(2) by (metis chain_zero hdr_values_def length_map list.size(3) not_less_zero)
  note n = linked_index [OF assms(1) i]
  let ?c = "chain (length (frags ah)) ah (frag_index ah h)"
  have m: "0 < ?c ! i" "?c ! i < length (frags ah)"
    using chain_members [OF assms(1), of "frag_index ah h" "length (frags ah)" "?c ! i"] n assms(2) by (simp_all add: hdr_values_def)
  show ?thesis
    using nth_walk [OF assms(1), of "frag_index ah h" "length (frags ah)" 0 i] n assms(2,3) i linkedD(2,4) [OF assms(1) m]
      length_frag_text [OF assms(1) m]
    by (auto simp: lws_hdr_copy_fragment_def hdr_values_def store_at_def frag_text_def Let_def)
qed

end
