(* ===== verification/Lws_Tokenize.thy ===== *)
theory Lws_Tokenize
  imports Lws_Utf8
begin

text \<open>
  The tokenizer of the library (\<^verbatim>\<open>lws_tokenize\<close> in \<^verbatim>\<open>src/foreign/libwebsockets/lib/core/libwebsockets.c\<close>),
  with which the server reads the lists in a client's headers.

  A pointer into the text is the rest of the text from there on; reading behind the end of the text
  is undefined behaviour. The loop over the characters is structural in the remaining length.
\<close>

unbundle bit_operations_syntax

section \<open>The code\<close>

definition LWS_TOKENIZE_F_MINUS_NONTERM :: int where "LWS_TOKENIZE_F_MINUS_NONTERM = 1"
definition LWS_TOKENIZE_F_AGG_COLON :: int where "LWS_TOKENIZE_F_AGG_COLON = 2"
definition LWS_TOKENIZE_F_COMMA_SEP_LIST :: int where "LWS_TOKENIZE_F_COMMA_SEP_LIST = 4"
definition LWS_TOKENIZE_F_RFC7230_DELIMS :: int where "LWS_TOKENIZE_F_RFC7230_DELIMS = 8"
definition LWS_TOKENIZE_F_DOT_NONTERM :: int where "LWS_TOKENIZE_F_DOT_NONTERM = 16"
definition LWS_TOKENIZE_F_NO_FLOATS :: int where "LWS_TOKENIZE_F_NO_FLOATS = 32"
definition LWS_TOKENIZE_F_NO_INTEGERS :: int where "LWS_TOKENIZE_F_NO_INTEGERS = 64"

lemmas tokenize_flags = LWS_TOKENIZE_F_MINUS_NONTERM_def LWS_TOKENIZE_F_AGG_COLON_def LWS_TOKENIZE_F_COMMA_SEP_LIST_def
  LWS_TOKENIZE_F_RFC7230_DELIMS_def LWS_TOKENIZE_F_DOT_NONTERM_def LWS_TOKENIZE_F_NO_FLOATS_def LWS_TOKENIZE_F_NO_INTEGERS_def

datatype tokenize_elem =
    LWS_TOKZE_ERR_BROKEN_UTF8 | LWS_TOKZE_ERR_UNTERM_STRING | LWS_TOKZE_ERR_MALFORMED_FLOAT
  | LWS_TOKZE_ERR_NUM_ON_LHS | LWS_TOKZE_ERR_COMMA_LIST | LWS_TOKZE_ENDED | LWS_TOKZE_DELIMITER
  | LWS_TOKZE_TOKEN | LWS_TOKZE_INTEGER | LWS_TOKZE_FLOAT | LWS_TOKZE_TOKEN_NAME_EQUALS
  | LWS_TOKZE_TOKEN_NAME_COLON | LWS_TOKZE_QUOTED_STRING

datatype delimiter_tracking = LWSTZ_DT_NEED_FIRST_CONTENT | LWSTZ_DT_NEED_DELIM | LWSTZ_DT_NEED_NEXT_CONTENT

datatype tokenize_state =
  LWS_TOKZS_LEADING_WHITESPACE | LWS_TOKZS_QUOTED_STRING | LWS_TOKZS_TOKEN | LWS_TOKZS_TOKEN_POST_TERMINAL

record lws_tokenize_t =
  tz_start :: "byte list"
  tz_token :: "byte list"
  tz_len :: nat
  tz_token_len :: nat
  tz_flags :: int
  tz_delim :: delimiter_tracking

text \<open>The locals of a call.\<close>

record tokenize_locals =
  tz_state :: tokenize_state
  tz_flo :: bool
  tz_num :: int
  tz_utf8 :: int

definition flag :: "lws_tokenize_t \<Rightarrow> int \<Rightarrow> bool" where
  "flag ts f \<longleftrightarrow> tz_flags ts AND f \<noteq> 0"

definition rfc7230_delims :: "byte list" where
  "rfc7230_delims = bytes_of_string ''(),/:;<=>?@['' @ [0x5c] @ bytes_of_string '']{}''"

definition tz_whitespace :: "byte \<Rightarrow> bool" where
  "tz_whitespace c \<longleftrightarrow> c = 0x20 \<or> c = 0x09 \<or> c = 0x0a \<or> c = 0x0d \<or> c = 0x0c"

definition tz_digit :: "byte \<Rightarrow> bool" where
  "tz_digit c \<longleftrightarrow> \<not> (c < 0x30 \<or> c > 0x39)"

definition tz_delimiter :: "lws_tokenize_t \<Rightarrow> byte \<Rightarrow> bool" where
  "tz_delimiter ts c \<longleftrightarrow>
     flag ts LWS_TOKENIZE_F_RFC7230_DELIMS \<and> c \<in> set rfc7230_delims \<and> 0x20 < c \<and> c < 0x80 \<or>
     \<not> flag ts LWS_TOKENIZE_F_RFC7230_DELIMS \<and> \<not> tz_digit c \<and> (c < 0x41 \<or> c > 0x5a) \<and> (c < 0x61 \<or> c > 0x7a) \<and> c \<noteq> 0x5f \<and>
       \<not> (flag ts LWS_TOKENIZE_F_MINUS_NONTERM \<and> c = 0x2d) \<and> \<not> (flag ts LWS_TOKENIZE_F_DOT_NONTERM \<and> c = 0x2e) \<or>
     \<not> flag ts LWS_TOKENIZE_F_MINUS_NONTERM \<and> c = 0x2d \<or>
     \<not> flag ts LWS_TOKENIZE_F_DOT_NONTERM \<and> c = 0x2e"

definition token_or_numeric :: "tokenize_locals \<Rightarrow> tokenize_elem" where
  "token_or_numeric l =
     (if tz_num l \<noteq> 1 then LWS_TOKZE_TOKEN else if tz_flo l then LWS_TOKZE_FLOAT else LWS_TOKZE_INTEGER)"

definition checknum :: "lws_tokenize_t \<Rightarrow> byte \<Rightarrow> tokenize_locals \<Rightarrow> tokenize_locals" where
  "checknum ts c l =
     (if flag ts LWS_TOKENIZE_F_NO_INTEGERS then l
      else if \<not> tz_digit c then l\<lparr>tz_num := 0\<rparr>
      else if tz_num l < 0 then l\<lparr>tz_num := 1\<rparr> else l)"

text \<open>How the body of the loop goes on: with the next character, or by returning, with the character used up
  or put back.\<close>

datatype tokenize_next = Next lws_tokenize_t tokenize_locals | Return tokenize_elem lws_tokenize_t | Put_back tokenize_elem

definition in_token :: "tokenize_locals \<Rightarrow> bool" where
  "in_token l \<longleftrightarrow> tz_state l = LWS_TOKZS_TOKEN_POST_TERMINAL \<or> tz_state l = LWS_TOKZS_TOKEN"

definition longer :: "lws_tokenize_t \<Rightarrow> lws_tokenize_t" where
  "longer ts = ts\<lparr>tz_token_len := tz_token_len ts + 1\<rparr>"

definition tz_space :: "lws_tokenize_t \<Rightarrow> tokenize_locals \<Rightarrow> tokenize_next" where
  "tz_space ts l =
     (case tz_state l of
        LWS_TOKZS_LEADING_WHITESPACE \<Rightarrow> Next ts l
      | LWS_TOKZS_TOKEN_POST_TERMINAL \<Rightarrow> Next ts l
      | LWS_TOKZS_QUOTED_STRING \<Rightarrow> Next (longer ts) l
      | LWS_TOKZS_TOKEN \<Rightarrow> Next ts (l\<lparr>tz_state := LWS_TOKZS_TOKEN_POST_TERMINAL\<rparr>))"

definition tz_quote :: "byte list \<Rightarrow> lws_tokenize_t \<Rightarrow> tokenize_locals \<Rightarrow> tokenize_next" where
  "tz_quote rest ts l =
     (if tz_state l = LWS_TOKZS_QUOTED_STRING then Return LWS_TOKZE_QUOTED_STRING ts
      else if flag ts LWS_TOKENIZE_F_COMMA_SEP_LIST \<and> tz_delim ts = LWSTZ_DT_NEED_DELIM then Return LWS_TOKZE_ERR_COMMA_LIST ts
      else Next (ts\<lparr>tz_delim := if flag ts LWS_TOKENIZE_F_COMMA_SEP_LIST then LWSTZ_DT_NEED_DELIM else tz_delim ts,
                    tz_token := rest, tz_token_len := 0\<rparr>) (l\<lparr>tz_state := LWS_TOKZS_QUOTED_STRING\<rparr>))"

definition tz_delim_char :: "byte \<Rightarrow> byte list \<Rightarrow> lws_tokenize_t \<Rightarrow> tokenize_locals \<Rightarrow> tokenize_next" where
  "tz_delim_char c rest ts l =
     (case tz_state l of
        LWS_TOKZS_LEADING_WHITESPACE \<Rightarrow>
          if flag ts LWS_TOKENIZE_F_COMMA_SEP_LIST \<and> (c \<noteq> 0x2c \<or> tz_delim ts \<noteq> LWSTZ_DT_NEED_DELIM)
          then Return LWS_TOKZE_ERR_COMMA_LIST ts
          else Return LWS_TOKZE_DELIMITER
            (ts\<lparr>tz_delim := if flag ts LWS_TOKENIZE_F_COMMA_SEP_LIST then LWSTZ_DT_NEED_NEXT_CONTENT else tz_delim ts,
                tz_token := c # rest, tz_token_len := 1\<rparr>)
      | LWS_TOKZS_QUOTED_STRING \<Rightarrow> Next (longer ts) l
      | LWS_TOKZS_TOKEN_POST_TERMINAL \<Rightarrow> Put_back (token_or_numeric l)
      | LWS_TOKZS_TOKEN \<Rightarrow> Put_back (token_or_numeric l))"

definition tz_payload :: "byte \<Rightarrow> byte list \<Rightarrow> lws_tokenize_t \<Rightarrow> tokenize_locals \<Rightarrow> tokenize_next" where
  "tz_payload c rest ts l =
     (case tz_state l of
        LWS_TOKZS_LEADING_WHITESPACE \<Rightarrow>
          if flag ts LWS_TOKENIZE_F_COMMA_SEP_LIST \<and> tz_delim ts = LWSTZ_DT_NEED_DELIM then Return LWS_TOKZE_ERR_COMMA_LIST ts
          else Next (ts\<lparr>tz_delim := if flag ts LWS_TOKENIZE_F_COMMA_SEP_LIST then LWSTZ_DT_NEED_DELIM else tz_delim ts,
                        tz_token := c # rest, tz_token_len := 1\<rparr>)
                 (checknum ts c (l\<lparr>tz_state := LWS_TOKZS_TOKEN\<rparr>))
      | LWS_TOKZS_QUOTED_STRING \<Rightarrow> Next (longer ts) (checknum ts c l)
      | LWS_TOKZS_TOKEN \<Rightarrow> Next (longer ts) (checknum ts c l)
      | LWS_TOKZS_TOKEN_POST_TERMINAL \<Rightarrow> Put_back (token_or_numeric l))"

definition tz_char :: "byte \<Rightarrow> byte list \<Rightarrow> lws_tokenize_t \<Rightarrow> tokenize_locals \<Rightarrow> tokenize_next" where
  "tz_char c rest ts l =
     (if tz_whitespace c then tz_space ts l
      else if c = 0x22 then tz_quote rest ts l
      else if c = 0x3d \<and> in_token l
      then Return (if tz_num l = 1 then LWS_TOKZE_ERR_NUM_ON_LHS else LWS_TOKZE_TOKEN_NAME_EQUALS) ts
      else if flag ts LWS_TOKENIZE_F_AGG_COLON \<and> c = 0x3a \<and> in_token l then Return LWS_TOKZE_TOKEN_NAME_COLON ts
      else if c = 0x2e \<and> \<not> flag ts LWS_TOKENIZE_F_NO_FLOATS \<and> tz_state l = LWS_TOKZS_TOKEN \<and> tz_num l = 1
      then if tz_flo l then Return LWS_TOKZE_ERR_MALFORMED_FLOAT ts else Next (longer ts) (l\<lparr>tz_flo := True\<rparr>)
      else if tz_utf8 l = 0 \<and> tz_delimiter ts c then tz_delim_char c rest ts l
      else tz_payload c rest ts l)"

text \<open>After the text: what is pending is reported.\<close>

definition tz_end :: "lws_tokenize_t \<Rightarrow> tokenize_locals \<Rightarrow> tokenize_elem" where
  "tz_end ts l =
     (if tz_utf8 l \<noteq> 0 then LWS_TOKZE_ERR_BROKEN_UTF8
      else if tz_state l = LWS_TOKZS_QUOTED_STRING then LWS_TOKZE_ERR_UNTERM_STRING
      else if \<not> in_token l
      then if flag ts LWS_TOKENIZE_F_COMMA_SEP_LIST \<and> tz_delim ts = LWSTZ_DT_NEED_NEXT_CONTENT then LWS_TOKZE_ERR_COMMA_LIST
           else LWS_TOKZE_ENDED
      else token_or_numeric l)"

fun tz_loop :: "nat \<Rightarrow> byte list \<Rightarrow> lws_tokenize_t \<Rightarrow> tokenize_locals \<Rightarrow> (tokenize_elem \<times> lws_tokenize_t) res" where
  "tz_loop 0 inp ts l = Inr (tz_end ts l, ts\<lparr>tz_start := inp, tz_len := 0\<rparr>)"
| "tz_loop (Suc n) [] ts l = Inl Undefined_behaviour"
| "tz_loop (Suc n) (c # rest) ts l =
     (let u = lws_check_byte_utf8 (word_of_int (tz_utf8 l)) c; l = l\<lparr>tz_utf8 := u\<rparr>
      in if u < 0 then Inr (LWS_TOKZE_ERR_BROKEN_UTF8, ts\<lparr>tz_start := rest, tz_len := n\<rparr>)
         else if c = 0 then Inr (tz_end ts l, ts\<lparr>tz_start := rest, tz_len := n\<rparr>)
         else
           (case tz_char c rest ts l of
              Next ts l \<Rightarrow> tz_loop n rest ts l
            | Return e ts \<Rightarrow> Inr (e, ts\<lparr>tz_start := rest, tz_len := n\<rparr>)
            | Put_back e \<Rightarrow> Inr (e, ts\<lparr>tz_start := c # rest, tz_len := Suc n\<rparr>)))"

definition lws_tokenize :: "lws_tokenize_t \<Rightarrow> (tokenize_elem \<times> lws_tokenize_t) res" where
  "lws_tokenize ts =
     tz_loop (tz_len ts) (tz_start ts) (ts\<lparr>tz_token := [], tz_token_len := 0\<rparr>)
       \<lparr>tz_state = LWS_TOKZS_LEADING_WHITESPACE, tz_flo = False,
        tz_num = (if flag ts LWS_TOKENIZE_F_NO_INTEGERS then 0 else -1), tz_utf8 = 0\<rparr>"

definition lws_tokenize_init :: "byte list \<Rightarrow> int \<Rightarrow> lws_tokenize_t" where
  "lws_tokenize_init start flags =
     \<lparr>tz_start = start, tz_token = [], tz_len = 0x7fffffff, tz_token_len = 0, tz_flags = flags, tz_delim = LWSTZ_DT_NEED_FIRST_CONTENT\<rparr>"

definition token_text :: "lws_tokenize_t \<Rightarrow> byte list" where
  "token_text ts = take (tz_token_len ts) (tz_token ts)"

text \<open>\<open>lws_tokenize_cstr\<close>: the token as a string, unless it does not fit in \<open>sz\<close> bytes.\<close>

definition lws_tokenize_cstr :: "lws_tokenize_t \<Rightarrow> nat \<Rightarrow> byte list option" where
  "lws_tokenize_cstr ts sz = (if tz_token_len ts + 1 \<ge> sz then None else Some (token_text ts))"

section \<open>Every call moves on\<close>

text \<open>A character is put back only behind a token, so a call that reports anything has used a character.\<close>

definition tokenize_positive :: "tokenize_elem \<Rightarrow> bool" where
  "tokenize_positive e \<longleftrightarrow> e \<in> {LWS_TOKZE_DELIMITER, LWS_TOKZE_TOKEN, LWS_TOKZE_INTEGER, LWS_TOKZE_FLOAT,
     LWS_TOKZE_TOKEN_NAME_EQUALS, LWS_TOKZE_TOKEN_NAME_COLON, LWS_TOKZE_QUOTED_STRING}"

lemmas tz_char_defs = tz_char_def tz_space_def tz_quote_def tz_delim_char_def tz_payload_def

lemma tz_char_put_back: "tz_char c rest ts l = Put_back e \<Longrightarrow> in_token l"
  by (auto simp: tz_char_defs in_token_def split: if_splits tokenize_state.splits)

lemma tz_char_next: "tz_char c rest ts l = Next ts' l' \<Longrightarrow> tz_flags ts' = tz_flags ts"
  by (auto simp: tz_char_defs longer_def split: if_splits tokenize_state.splits)

lemma tz_loop_len:
  "tz_loop n inp ts l = Inr (e, ts') \<Longrightarrow> tz_len ts' \<le> n"
proof (induction n inp ts l rule: tz_loop.induct)
  case (3 n c rest ts l)
  then show ?case
    by (fastforce simp: Let_def split: if_splits tokenize_next.splits)
qed auto

lemma tz_loop_moves:
  assumes "tz_loop n inp ts l = Inr (e, ts')" and "\<not> in_token l" and "tokenize_positive e"
  shows "tz_len ts' < n"
proof (cases n)
  case 0
  with assms show ?thesis by (auto simp: tz_end_def tokenize_positive_def split: if_splits)
next
  case (Suc m)
  with assms(1) obtain c rest where t: "inp = c # rest" by (cases inp) auto
  let ?l = "l\<lparr>tz_utf8 := lws_check_byte_utf8 (word_of_int (tz_utf8 l)) c\<rparr>"
  have "in_token ?l = in_token l" by (simp add: in_token_def)
  then have "tz_char c rest ts ?l \<noteq> Put_back e'" for e' using tz_char_put_back assms(2) by blast
  with assms(1) tz_loop_len [of m rest] show ?thesis unfolding Suc t
    by (fastforce simp: Let_def less_Suc_eq_le split: if_splits tokenize_next.splits)
qed

lemma lws_tokenize_moves: "lws_tokenize ts = Inr (e, ts') \<Longrightarrow> tokenize_positive e \<Longrightarrow> tz_len ts' < tz_len ts"
  unfolding lws_tokenize_def by (erule tz_loop_moves) (simp add: in_token_def)

text \<open>The inp is long enough, and stays so.\<close>

lemma tz_loop_total:
  "n \<le> length inp \<Longrightarrow> succeeds (\<lambda>(e, ts'). tz_len ts' \<le> length (tz_start ts') \<and> tz_flags ts' = tz_flags ts) (tz_loop n inp ts l)"
proof (induction n inp ts l rule: tz_loop.induct)
  case (3 n c rest ts l)
  let ?l = "l\<lparr>tz_utf8 := lws_check_byte_utf8 (word_of_int (tz_utf8 l)) c\<rparr>"
  have r: "tz_flags ts' = tz_flags ts" if "tz_char c rest ts ?l = Return e ts'" for e ts'
    using that by (auto simp: tz_char_defs longer_def split: if_splits tokenize_state.splits)
  show ?case
  proof (cases "lws_check_byte_utf8 (word_of_int (tz_utf8 l)) c < 0 \<or> c = 0")
    case True
    with "3.prems" show ?thesis by (auto simp: Let_def)
  next
    case False
    show ?thesis
    proof (cases "tz_char c rest ts ?l")
      case (Next ts1 l1)
      have "succeeds (\<lambda>(e, ts'). tz_len ts' \<le> length (tz_start ts') \<and> tz_flags ts' = tz_flags ts1) (tz_loop n rest ts1 l1)"
        by (rule "3.IH" [OF refl refl _ _ Next]) (use False "3.prems" in auto)
      then have "succeeds (\<lambda>(e, ts'). tz_len ts' \<le> length (tz_start ts') \<and> tz_flags ts' = tz_flags ts) (tz_loop n rest ts1 l1)"
        unfolding tz_char_next [OF Next] .
      with False Next show ?thesis by (simp add: Let_def)
    next
      case (Return e ts1)
      with False "3.prems" r [OF Return] show ?thesis by (simp add: Let_def)
    next
      case (Put_back e)
      with False "3.prems" show ?thesis by (simp add: Let_def)
    qed
  qed
qed auto

lemma lws_tokenize_total:
  "tz_len ts \<le> length (tz_start ts) \<Longrightarrow>
     succeeds (\<lambda>(e, ts'). tz_len ts' \<le> length (tz_start ts') \<and> tz_flags ts' = tz_flags ts) (lws_tokenize ts)"
  using tz_loop_total [of "tz_len ts" "tz_start ts" "ts\<lparr>tz_token := [], tz_token_len := 0\<rparr>"] by (simp add: lws_tokenize_def)

section \<open>Comma-separated lists\<close>

definition list_flags :: int where
  "list_flags = LWS_TOKENIZE_F_COMMA_SEP_LIST OR LWS_TOKENIZE_F_MINUS_NONTERM OR LWS_TOKENIZE_F_DOT_NONTERM OR LWS_TOKENIZE_F_RFC7230_DELIMS"

lemma flag_list [simp]:
  assumes "tz_flags ts = list_flags"
  shows "flag ts LWS_TOKENIZE_F_COMMA_SEP_LIST" "flag ts LWS_TOKENIZE_F_MINUS_NONTERM" "flag ts LWS_TOKENIZE_F_DOT_NONTERM"
    "flag ts LWS_TOKENIZE_F_RFC7230_DELIMS" "\<not> flag ts LWS_TOKENIZE_F_AGG_COLON" "\<not> flag ts LWS_TOKENIZE_F_NO_FLOATS"
    "\<not> flag ts LWS_TOKENIZE_F_NO_INTEGERS"
  by (simp_all add: flag_def assms list_flags_def tokenize_flags)

text \<open>A character of a token, and a token: one that starts with a digit might be taken for a number.\<close>

definition token_char :: "byte \<Rightarrow> bool" where
  "token_char c \<longleftrightarrow> c \<noteq> 0 \<and> c < 0x80 \<and> \<not> tz_whitespace c \<and> c \<noteq> 0x22 \<and> c \<notin> set rfc7230_delims"

definition list_token :: "byte list \<Rightarrow> bool" where
  "list_token t \<longleftrightarrow> t \<noteq> [] \<and> list_all token_char t \<and> \<not> tz_digit (hd t)"

lemma utf8_ascii [simp]: "c < 0x80 \<Longrightarrow> lws_check_byte_utf8 0 c = 0"
  by (auto simp: lws_check_byte_utf8_def)

lemma utf8_same [simp]: "tz_utf8 l = 0 \<Longrightarrow> l\<lparr>tz_utf8 := 0\<rparr> = l"
  by (cases l) simp

lemma whitespace_ascii: "tz_whitespace c \<Longrightarrow> c < 0x80 \<and> c \<noteq> 0"
  by (auto simp: tz_whitespace_def)

lemma equals_delimiter: "0x3d \<in> set rfc7230_delims" "0x2c \<in> set rfc7230_delims" "0 \<notin> set rfc7230_delims"
  by (simp_all add: rfc7230_delims_def bytes_of_string_def byte_of_char_def)

lemma tz_loop_spaces:
  assumes "list_all tz_whitespace sp" and "tz_state l = LWS_TOKZS_LEADING_WHITESPACE \<or> tz_state l = LWS_TOKZS_TOKEN_POST_TERMINAL" and "tz_utf8 l = 0"
  shows "tz_loop (length sp + n) (sp @ inp) ts l = tz_loop n inp ts l"
  using assms
proof (induction sp)
  case (Cons c sp)
  from Cons whitespace_ascii [of c] show ?case by (auto simp: tz_char_def tz_space_def Let_def)
qed simp

lemma token_char_step:
  assumes "token_char c" and "tz_flags ts = list_flags" and "tz_utf8 l = 0" and "tz_num l \<noteq> 1"
  shows "tz_loop (Suc n) (c # rest) ts l = (case tz_payload c rest ts l of
      Next ts l \<Rightarrow> tz_loop n rest ts l
    | Return e ts \<Rightarrow> Inr (e, ts\<lparr>tz_start := rest, tz_len := n\<rparr>)
    | Put_back e \<Rightarrow> Inr (e, ts\<lparr>tz_start := c # rest, tz_len := Suc n\<rparr>))"
proof -
  have "\<not> tz_delimiter ts c" using assms(1,2) by (simp add: tz_delimiter_def token_char_def)
  moreover have "c \<noteq> 0x3d" using assms(1) equals_delimiter(1) by (auto simp: token_char_def)
  ultimately show ?thesis using assms by (simp add: tz_char_def token_char_def Let_def)
qed

text \<open>The rest of a token, up to something that is none of its characters.\<close>

definition token_locals :: "tokenize_locals \<Rightarrow> bool" where
  "token_locals l \<longleftrightarrow> tz_utf8 l = 0 \<and> tz_num l = 0 \<and> tz_state l = LWS_TOKZS_TOKEN"

lemma token_chars:
  assumes "list_all token_char t" and "tz_flags ts = list_flags" and "token_locals l"
  shows "tz_loop (length t + n) (t @ inp) ts l = tz_loop n inp (ts\<lparr>tz_token_len := tz_token_len ts + length t\<rparr>) l"
  using assms
proof (induction t arbitrary: ts)
  case (Cons c t)
  then have l: "tz_utf8 l = 0" "tz_num l = 0" "tz_state l = LWS_TOKZS_TOKEN" by (simp_all add: token_locals_def)
  then have "checknum ts c l = l" by (cases l) (simp add: checknum_def)
  with Cons l token_char_step [of c ts l "length t + n" "t @ inp"] Cons.IH [of "longer ts"] show ?case
    by (simp add: tz_payload_def longer_def)
qed simp

lemma token_start:
  assumes "list_token t" and "tz_flags ts = list_flags" and "tz_delim ts \<noteq> LWSTZ_DT_NEED_DELIM"
    and "tz_utf8 l = 0" and "tz_num l = -1" and "tz_state l = LWS_TOKZS_LEADING_WHITESPACE"
  shows "tz_loop (length t + n) (t @ inp) ts l =
    tz_loop n inp (ts\<lparr>tz_delim := LWSTZ_DT_NEED_DELIM, tz_token := t @ inp, tz_token_len := length t\<rparr>) (l\<lparr>tz_state := LWS_TOKZS_TOKEN, tz_num := 0\<rparr>)"
proof -
  obtain c t' where t: "t = c # t'" using assms(1) by (cases t) (auto simp: list_token_def)
  with assms(1) have c: "token_char c" "list_all token_char t'" "\<not> tz_digit c" by (simp_all add: list_token_def)
  have "tz_loop (Suc (length t' + n)) (c # t' @ inp) ts l =
      tz_loop (length t' + n) (t' @ inp) (ts\<lparr>tz_delim := LWSTZ_DT_NEED_DELIM, tz_token := c # t' @ inp, tz_token_len := 1\<rparr>)
        (l\<lparr>tz_state := LWS_TOKZS_TOKEN, tz_num := 0\<rparr>)"
    using token_char_step [OF c(1) assms(2,4), of "length t' + n" "t' @ inp"] assms c(3) by (simp add: tz_payload_def checknum_def)
  with token_chars [OF c(2), of "ts\<lparr>tz_delim := LWSTZ_DT_NEED_DELIM, tz_token := c # t' @ inp, tz_token_len := 1\<rparr>" "l\<lparr>tz_state := LWS_TOKZS_TOKEN, tz_num := 0\<rparr>" n inp]
  show ?thesis using assms(2,4) unfolding t by (simp add: token_locals_def)
qed

text \<open>Behind a token: white space, then a comma or the end.\<close>

lemma token_tail:
  assumes "list_all tz_whitespace sp" and "tz_flags ts = list_flags" and "token_locals l" and "n = 0 \<or> (\<exists>m rest. n = Suc m \<and> inp = 0x2c # rest)"
  shows "tz_loop (length sp + n) (sp @ inp) ts l = Inr (LWS_TOKZE_TOKEN, ts\<lparr>tz_start := inp, tz_len := n\<rparr>)"
proof -
  have fin: "tz_loop n inp ts l = Inr (LWS_TOKZE_TOKEN, ts\<lparr>tz_start := inp, tz_len := n\<rparr>)"
    if "tz_utf8 l = 0" "tz_num l = 0" "in_token l" for l
  proof -
    have "\<not> tz_whitespace 0x2c" "(0x2c :: byte) < 0x80" by (simp_all add: tz_whitespace_def)
    moreover have "tz_delimiter ts 0x2c" using assms(2) equals_delimiter(2) by (simp add: tz_delimiter_def)
    ultimately show ?thesis using assms(2,4) that
      by (auto simp: tz_end_def token_or_numeric_def tz_char_def tz_delim_char_def in_token_def Let_def)
  qed
  have l: "tz_utf8 l = 0" "tz_num l = 0" "tz_state l = LWS_TOKZS_TOKEN" using assms(3) by (simp_all add: token_locals_def)
  show ?thesis
  proof (cases sp)
    case Nil
    with fin [of l] l show ?thesis by (simp add: in_token_def)
  next
    case (Cons c sp')
    let ?l = "l\<lparr>tz_state := LWS_TOKZS_TOKEN_POST_TERMINAL\<rparr>"
    have "tz_loop (Suc (length sp' + n)) (c # sp' @ inp) ts l = tz_loop (length sp' + n) (sp' @ inp) ts ?l"
      using assms(1) Cons l whitespace_ascii [of c] by (simp add: tz_char_def tz_space_def Let_def)
    also have "\<dots> = tz_loop n inp ts ?l" by (rule tz_loop_spaces) (use assms(1) Cons l in simp_all)
    finally show ?thesis using fin [of ?l] l Cons by (simp add: in_token_def)
  qed
qed

text \<open>The four calls a list needs.\<close>

lemma tokenize_token:
  assumes "list_all tz_whitespace a" and "list_token t" and "list_all tz_whitespace b"
    and "tz_flags ts = list_flags" and "tz_delim ts \<noteq> LWSTZ_DT_NEED_DELIM"
    and "tz_start ts = a @ t @ b @ inp" and "tz_len ts = length a + length t + length b + n"
    and "n = 0 \<or> (\<exists>m rest. n = Suc m \<and> inp = 0x2c # rest)"
  shows "\<exists>ts'. lws_tokenize ts = Inr (LWS_TOKZE_TOKEN, ts') \<and> token_text ts' = t \<and> tz_token_len ts' = length t \<and> tz_start ts' = inp \<and>
    tz_len ts' = n \<and> tz_flags ts' = list_flags \<and> tz_delim ts' = LWSTZ_DT_NEED_DELIM"
proof -
  let ?ts = "ts\<lparr>tz_token := [], tz_token_len := 0\<rparr>"
  let ?l = "\<lparr>tz_state = LWS_TOKZS_LEADING_WHITESPACE, tz_flo = False, tz_num = -1, tz_utf8 = 0\<rparr>"
  have "lws_tokenize ts = tz_loop (length a + (length t + (length b + n))) (a @ t @ b @ inp) ?ts ?l"
    using assms(4,6,7) by (simp add: lws_tokenize_def add.assoc)
  also have "\<dots> = tz_loop (length t + (length b + n)) (t @ b @ inp) ?ts ?l" by (rule tz_loop_spaces) (use assms(1) in simp_all)
  also have "\<dots> = tz_loop (length b + n) (b @ inp) (?ts\<lparr>tz_delim := LWSTZ_DT_NEED_DELIM, tz_token := t @ b @ inp, tz_token_len := length t\<rparr>)
      (?l\<lparr>tz_state := LWS_TOKZS_TOKEN, tz_num := 0\<rparr>)" by (rule token_start) (use assms in simp_all)
  also have "\<dots> = Inr (LWS_TOKZE_TOKEN, ?ts\<lparr>tz_delim := LWSTZ_DT_NEED_DELIM, tz_token := t @ b @ inp, tz_token_len := length t\<rparr>
      \<lparr>tz_start := inp, tz_len := n\<rparr>)" by (rule token_tail) (use assms in \<open>simp_all add: token_locals_def\<close>)
  finally show ?thesis using assms(4) by (simp add: token_text_def)
qed

lemma tokenize_comma:
  assumes "tz_flags ts = list_flags" and "tz_delim ts = LWSTZ_DT_NEED_DELIM" and "tz_start ts = 0x2c # rest" and "tz_len ts = Suc n"
  shows "\<exists>ts'. lws_tokenize ts = Inr (LWS_TOKZE_DELIMITER, ts') \<and> tz_start ts' = rest \<and> tz_len ts' = n \<and> tz_flags ts' = list_flags \<and>
    tz_delim ts' = LWSTZ_DT_NEED_NEXT_CONTENT"
proof -
  have "\<not> tz_whitespace 0x2c" "(0x2c :: byte) < 0x80" by (simp_all add: tz_whitespace_def)
  moreover have "tz_delimiter (ts\<lparr>tz_token := [], tz_token_len := 0\<rparr>) 0x2c" using assms(1) equals_delimiter(2) by (simp add: tz_delimiter_def)
  ultimately show ?thesis using assms by (simp add: lws_tokenize_def tz_char_def tz_delim_char_def in_token_def Let_def)
qed

lemma tokenize_ended:
  assumes "tz_flags ts = list_flags" and "tz_delim ts = LWSTZ_DT_NEED_DELIM" and "tz_len ts = 0"
  shows "\<exists>ts'. lws_tokenize ts = Inr (LWS_TOKZE_ENDED, ts')"
  using assms by (simp add: lws_tokenize_def tz_end_def in_token_def)

end
