(* ===== verification/Lws_Handshake.thy ===== *)
theory Lws_Handshake
  imports Lws_Headers Lws_Tokenize Lws_Base64 Lws_Sha1 Lws_Stream Lws_Rx_Stream Serveri
begin

text \<open>
  The opening handshake of a WebSocket connection
  (\<^verbatim>\<open>src/foreign/libwebsockets/lib/roles/ws/server-ws.c\<close>): the check of the request, the choice of the
  protocol and the answer, up to the connection that the receiver and the sender work on.

  The request is given as its table of headers. The virtual host is the one the server makes: it has no
  mounts and no options for its protocols, and the protocols have no session data, so that the branches
  for these are not taken; the connection is one over HTTP/1.1. The answers of the application and of the system are arguments.
\<close>

section \<open>State\<close>

definition MAX_WEBSOCKET_04_KEY_LEN :: nat where "MAX_WEBSOCKET_04_KEY_LEN = 128"
definition CB_FILTER_PROTOCOL_CONNECTION :: nat where "CB_FILTER_PROTOCOL_CONNECTION = 20"
definition CB_HTTP_BIND_PROTOCOL :: nat where "CB_HTTP_BIND_PROTOCOL = 49"
definition CB_HTTP_DROP_PROTOCOL :: nat where "CB_HTTP_DROP_PROTOCOL = 50"
definition CB_ADD_HEADERS :: nat where "CB_ADD_HEADERS = 53"

record lws_vhost =
  vh_protocols :: "lws_protocol list"
  default_protocol_index :: byte

text \<open>A connection that is not yet upgraded: what becomes the WebSocket connection, the headers, the
  protocol it is bound to (an index into those of the host) and the list of the host it is in, the callbacks made so
  far, and the buffer of the service thread.\<close>

record http_conn =
  conn_lws :: lws
  http_ah :: "allocated_headers option"
  bound :: "nat option"
  protocol_bind_balance :: bool
  bound_vhost_index :: "nat option"
  http_calls :: "(nat \<times> nat) list"
  serv_buf :: "byte list"

text \<open>The answers of the application to the callback of a protocol, by index and reason, and those of the
  system: for the allocation of the WebSocket state, of the receive buffer and its contents, for the socket
  option, the contents of the stack, the headers the application adds, and for \<open>send\<close>.\<close>

type_synonym http_callback = "nat \<Rightarrow> nat \<Rightarrow> int"

record upgrade_env =
  ws_malloc :: bool
  rx_malloc :: bool
  rx_memory :: "byte list"
  sockopt_ok :: bool
  stack_buf :: "byte list"
  added_headers :: "byte list"
  socket :: answers

definition call_http :: "http_callback \<Rightarrow> nat \<Rightarrow> http_conn \<Rightarrow> (int \<times> http_conn) res" where
  "call_http cb reason c =
     (case bound c of None \<Rightarrow> Inl Undefined_behaviour
      | Some i \<Rightarrow> Inr (cb i reason, c\<lparr>http_calls := http_calls c @ [(i, reason)]\<rparr>))"

section \<open>Protocols\<close>

fun name_to_protocol :: "nat \<Rightarrow> lws_protocol list \<Rightarrow> byte list \<Rightarrow> nat option" where
  "name_to_protocol n [] name = None"
| "name_to_protocol n (p # ps) name =
     (if map_option bytes_of_string (proto_name p) = Some name then Some n else name_to_protocol (n + 1) ps name)"

definition lws_vhost_name_to_protocol :: "lws_vhost \<Rightarrow> byte list \<Rightarrow> nat option" where
  "lws_vhost_name_to_protocol vh name = name_to_protocol 0 (vh_protocols vh) name"

text \<open>The list a connection joins: by its place if that is not the first, otherwise by its name.\<close>

definition vhost_list_index :: "lws_vhost \<Rightarrow> nat \<Rightarrow> nat option" where
  "vhost_list_index vh i =
     (if 0 < i \<and> i < length (vh_protocols vh) then Some i
      else case proto_name (vh_protocols vh ! i) of None \<Rightarrow> None
        | Some name \<Rightarrow> lws_vhost_name_to_protocol vh (bytes_of_string name))"

definition bind_lws :: "lws_protocol \<Rightarrow> lws \<Rightarrow> lws" where
  "bind_lws p wsi = wsi\<lparr>protocol_rx_buffer_size := rx_buffer_size p, protocol_tx_packet_size := tx_packet_size p\<rparr>"

definition lws_bind_protocol :: "http_callback \<Rightarrow> lws_vhost \<Rightarrow> nat \<Rightarrow> http_conn \<Rightarrow> (int \<times> http_conn) res" where
  "lws_bind_protocol cb vh i c =
     bind_res (if bound c \<noteq> None \<and> protocol_bind_balance c
               then bind_res (call_http cb CB_HTTP_DROP_PROTOCOL c) (\<lambda>(r, c). Inr (c\<lparr>protocol_bind_balance := False\<rparr>))
               else Inr c) (\<lambda>c.
     bind_res (vec_get (vh_protocols vh) i) (\<lambda>p.
     let c = c\<lparr>bound := Some i, conn_lws := bind_lws p (conn_lws c), bound_vhost_index := vhost_list_index vh i\<rparr> in
     bind_res (call_http cb CB_HTTP_BIND_PROTOCOL c) (\<lambda>(r, c).
     if r \<noteq> 0 then Inr (1, c) else Inr (0, c\<lparr>protocol_bind_balance := True\<rparr>))))"

section \<open>The answer\<close>

definition websocket_guid :: "byte list" where
  "websocket_guid = bytes_of_string ''258EAFA5-E914-47DA-95CA-C5AB0DC85B11''"

definition crlf :: "byte list" where
  "crlf = [0x0d, 0x0a]"

text \<open>The digest of the key, as text at the start of the buffer.\<close>

definition handshake_accept :: "byte list \<Rightarrow> int \<Rightarrow> byte list \<Rightarrow> (int \<times> byte list) res" where
  "handshake_accept key buf_size buf =
     bind_res (store_at 0 (key @ websocket_guid @ [0]) buf) (\<lambda>buf.
     lws_b64_encode_string (lws_SHA1 (take (length key + length websocket_guid) buf)) buf buf_size)"

definition LWS_CPYAPP :: "byte list \<Rightarrow> nat \<times> byte list \<Rightarrow> (nat \<times> byte list) res" where
  "LWS_CPYAPP s = (\<lambda>(p, buf). bind_res (store_at p (s @ [0]) buf) (\<lambda>buf. Inr (p + length s, buf)))"

text \<open>\<open>lws_snprintf (p, size, "%s", s)\<close>\<close>

definition lws_snprintf_s :: "nat \<Rightarrow> byte list \<Rightarrow> nat \<times> byte list \<Rightarrow> (nat \<times> byte list) res" where
  "lws_snprintf_s sz s = (\<lambda>(p, buf).
     if sz = 0 then Inr (p, buf)
     else bind_res (store_at p (take (sz - 1) s @ [0]) buf) (\<lambda>buf. Inr (p + min sz (length s), buf)))"

definition response_start :: nat where
  "response_start = MAX_WEBSOCKET_04_KEY_LEN + 256 + LWS_PRE"

definition response_head :: "byte list" where
  "response_head = bytes_of_string ''HTTP/1.1 101 Switching Protocols'' @ crlf @ bytes_of_string ''Upgrade: WebSocket'' @ crlf @
     bytes_of_string ''Connection: Upgrade'' @ crlf @ bytes_of_string ''Sec-WebSocket-Accept: ''"

definition protocol_field :: "byte list" where
  "protocol_field = crlf @ bytes_of_string ''Sec-WebSocket-Protocol: ''"

text \<open>Up to the headers of the application: \<open>prot\<close> is the name of the protocol when it is to be told.\<close>

definition response_fields :: "nat \<Rightarrow> byte list option \<Rightarrow> byte list \<Rightarrow> (nat \<times> byte list) res" where
  "response_fields accept_len prot buf =
     bind_res (LWS_CPYAPP response_head (response_start, buf)) (\<lambda>(p, buf).
     bind_res (c_string (Some buf)) (\<lambda>accept.
     bind_res (store_at p (accept @ [0]) buf) (\<lambda>buf.
     bind_res (case prot of None \<Rightarrow> Inr (p + accept_len, buf)
               | Some name \<Rightarrow> bind_res (LWS_CPYAPP protocol_field (p + accept_len, buf)) (lws_snprintf_s 128 name)) (LWS_CPYAPP crlf))))"

definition add_headers :: "http_callback \<Rightarrow> byte list \<Rightarrow> nat \<times> byte list \<Rightarrow> http_conn \<Rightarrow> (bool \<times> nat \<times> http_conn) res" where
  "add_headers cb added = (\<lambda>(p, buf) c.
     bind_res (call_http cb CB_ADD_HEADERS c) (\<lambda>(r, c).
     if r \<noteq> 0 then Inr (False, p, c\<lparr>serv_buf := buf\<rparr>)
     else bind_res (store_at p added buf) (\<lambda>buf. Inr (True, p + length added, c\<lparr>serv_buf := buf\<rparr>))))"

text \<open>The response goes out; then the connection is established.\<close>

definition send_response :: "upgrade_env \<Rightarrow> nat \<Rightarrow> http_conn \<Rightarrow> (int \<times> http_conn) res" where
  "send_response env p c =
     bind_res (LWS_CPYAPP crlf (p, serv_buf c)) (\<lambda>(p, buf).
     let response = window response_start (p - response_start) buf in
     bind_res (lws_write (socket env) None response LWS_WRITE_HTTP_HEADERS (conn_lws c)) (\<lambda>(n, wsi).
     let c = c\<lparr>serv_buf := buf, conn_lws := wsi\<rparr> in
     if n \<noteq> int (length response) then Inr (-1, c)
     else Inr (0, c\<lparr>conn_lws := wsi\<lparr>lwsi_state := LRS_ESTABLISHED, lws_rx_parse_state := LWS_RXPS_NEW\<rparr>\<rparr>)))"

definition told_protocol :: "lws_vhost \<Rightarrow> http_conn \<Rightarrow> byte list option" where
  "told_protocol vh c = (case bound c of None \<Rightarrow> None | Some i \<Rightarrow>
     case proto_name (vh_protocols vh ! i) of None \<Rightarrow> None | Some name \<Rightarrow> if name = [] then None else Some (bytes_of_string name))"

definition handshake_0405 :: "http_callback \<Rightarrow> lws_vhost \<Rightarrow> upgrade_env \<Rightarrow> http_conn \<Rightarrow> (int \<times> http_conn) run" where
  "handshake_0405 cb vh env c =
     bind_run (lws_hdr_total_length (http_ah c) WSI_TOKEN_HOST) (\<lambda>host_len.
     bind_run (lws_hdr_total_length (http_ah c) WSI_TOKEN_KEY) (\<lambda>key_len.
     if host_len = 0 \<or> key_len = 0 then Some (Inr (-1, c))
     else if key_len \<ge> MAX_WEBSOCKET_04_KEY_LEN then Some (Inr (-1, c))
     else
       bind_run (Some (bind_res (lws_hdr_simple_ptr (http_ah c) WSI_TOKEN_KEY) c_string)) (\<lambda>key.
       bind_run (Some (handshake_accept key (int (pt_serv_buf_size (conn_lws c))) (serv_buf c))) (\<lambda>(accept_len, buf).
       if accept_len < 0 then Some (Inr (-1, c\<lparr>serv_buf := buf\<rparr>))
       else
         bind_run (lws_hdr_total_length (http_ah c) WSI_TOKEN_PROTOCOL) (\<lambda>prot_len.
         bind_run (Some (response_fields (nat accept_len) (if prot_len \<noteq> 0 then told_protocol vh c else None) buf)) (\<lambda>pb.
         bind_run (Some (add_headers cb (added_headers env) pb c)) (\<lambda>(ok, p, c).
         if \<not> ok then Some (Inr (-1, c)) else Some (send_response env p c))))))))"

section \<open>The upgrade\<close>

text \<open>\<open>atoi\<close>, and its value in the byte it is stored in.\<close>

definition c_atoi :: "byte list \<Rightarrow> int" where
  "c_atoi s =
     (let (neg, t) = split_sign (dropWhile isspace (string_of_bytes s));
          n = int (digits_value 0 (takeWhile isdigit t))
      in if neg then max (- (2 ^ 63)) (- n) else min (2 ^ 63 - 1) n)"

definition announced_version :: "http_conn \<Rightarrow> nat run" where
  "announced_version c =
     bind_run (lws_hdr_total_length (http_ah c) WSI_TOKEN_VERSION) (\<lambda>len.
     if len = 0 then Some (Inr 0)
     else bind_run (Some (bind_res (lws_hdr_simple_ptr (http_ah c) WSI_TOKEN_VERSION) c_string)) (\<lambda>s.
       Some (Inr (unat (word_of_int (c_atoi s) :: byte)))))"

definition upd_conn_lws :: "(lws \<Rightarrow> lws) \<Rightarrow> http_conn \<Rightarrow> http_conn" where
  "upd_conn_lws f c = c\<lparr>conn_lws := f (conn_lws c)\<rparr>"

definition lws_process_ws_upgrade2 ::
    "http_callback \<Rightarrow> user_callback \<Rightarrow> lws_vhost \<Rightarrow> upgrade_env \<Rightarrow> http_conn \<Rightarrow> (int \<times> http_conn) run" where
  "lws_process_ws_upgrade2 cb ucb vh env c =
     (let c = upd_conn_lws (\<lambda>wsi. wsi\<lparr>lwsi_state := LRS_ESTABLISHED, lwsi_role_client := False\<rparr>) c in
      if \<not> ws_malloc env then Some (Inr (1, c))
      else
        bind_run (announced_version c) (\<lambda>version.
        let c = upd_conn_lws (\<lambda>wsi. wsi\<lparr>ws := zero_ws\<lparr>ietf_spec_revision := version\<rparr>\<rparr>) c in
        bind_run (Some (bind_res (lws_hdr_simple_ptr (http_ah c) WSI_TOKEN_PROTOCOL) (\<lambda>_.
            call_http cb CB_FILTER_PROTOCOL_CONNECTION c))) (\<lambda>(r, c).
        if r \<noteq> 0 then Some (Inr (1, c))
        else
          let c = (if ietf_spec_revision (ws (conn_lws c)) \<noteq> 13
                   then upd_conn_lws (\<lambda>wsi. wsi\<lparr>ws := (ws wsi)\<lparr>ietf_spec_revision := 13\<rparr>\<rparr>) c else c) in
          bind_run (handshake_0405 cb vh env c) (\<lambda>(r, c).
          if r \<noteq> 0 then Some (Inr (1, c))
          else
            let c = upd_conn_lws (\<lambda>wsi. snd (lws_server_init_wsi_for_ws ucb (rx_malloc env) (sockopt_ok env) (rx_memory env) wsi)) c
            in Some (Inr (0, c\<lparr>http_ah := None\<rparr>))))))"

text \<open>\<open>strncasecmp\<close>: whether it is 0.\<close>

definition lower_byte :: "byte \<Rightarrow> byte" where
  "lower_byte b = (if 0x41 \<le> b \<and> b \<le> 0x5a then b + 0x20 else b)"

fun strncasecmp_eq :: "byte list \<Rightarrow> byte list \<Rightarrow> nat \<Rightarrow> bool" where
  "strncasecmp_eq a b 0 = True"
| "strncasecmp_eq a b (Suc n) =
     (let x = (case a of [] \<Rightarrow> 0 | c # _ \<Rightarrow> c); y = (case b of [] \<Rightarrow> 0 | c # _ \<Rightarrow> c)
      in lower_byte x = lower_byte y \<and> (x = 0 \<or> strncasecmp_eq (tl a) (tl b) n))"

text \<open>The loop over the tokens of the header \<open>Connection\<close>: whether \<open>upgrade\<close> is among them.\<close>

fun connection_loop :: "nat \<Rightarrow> lws_tokenize_t \<Rightarrow> bool run" where
  "connection_loop 0 ts = None"
| "connection_loop (Suc k) ts =
     bind_run (Some (lws_tokenize ts)) (\<lambda>(e, ts).
       case e of
         LWS_TOKZE_TOKEN \<Rightarrow>
           if strncasecmp_eq (tz_token ts) (bytes_of_string ''upgrade'') (tz_token_len ts) then Some (Inr True) else connection_loop k ts
       | LWS_TOKZE_DELIMITER \<Rightarrow> connection_loop k ts
       | _ \<Rightarrow> Some (Inr False))"

text \<open>The loop over the protocols of the client: \<open>None\<close> for a malformed list; otherwise the protocol the
  connection was bound to, if any.\<close>

fun protocol_loop ::
    "nat \<Rightarrow> http_callback \<Rightarrow> lws_vhost \<Rightarrow> lws_tokenize_t \<Rightarrow> http_conn \<Rightarrow> (nat option \<times> http_conn) option run" where
  "protocol_loop 0 cb vh ts c = None"
| "protocol_loop (Suc k) cb vh ts c =
     bind_run (Some (lws_tokenize ts)) (\<lambda>(e, ts).
       case e of
         LWS_TOKZE_TOKEN \<Rightarrow>
           (case lws_tokenize_cstr ts 64 of
              None \<Rightarrow> Some (Inr None)
            | Some name \<Rightarrow>
                (case lws_vhost_name_to_protocol vh name of
                   Some i \<Rightarrow> bind_run (Some (lws_bind_protocol cb vh i c)) (\<lambda>(r, c). Some (Inr (Some (Some i, c))))
                 | None \<Rightarrow> protocol_loop k cb vh ts c))
       | LWS_TOKZE_DELIMITER \<Rightarrow> protocol_loop k cb vh ts c
       | LWS_TOKZE_ENDED \<Rightarrow> Some (Inr (Some (None, c)))
       | _ \<Rightarrow> Some (Inr None))"

definition list_tokens :: "byte list \<Rightarrow> int \<Rightarrow> lws_tokenize_t" where
  "list_tokens buf len = (lws_tokenize_init buf list_flags)\<lparr>tz_len := nat len\<rparr>"

definition lws_process_ws_upgrade ::
    "http_callback \<Rightarrow> user_callback \<Rightarrow> lws_vhost \<Rightarrow> upgrade_env \<Rightarrow> http_conn \<Rightarrow> (int \<times> http_conn) run" where
  "lws_process_ws_upgrade cb ucb vh env c =
     bind_run (lws_hdr_copy (http_ah c) (stack_buf env) 127 WSI_TOKEN_CONNECTION) (\<lambda>(len, buf).
     if len \<le> 0 then Some (Inr (1, c))
     else
       bind_run (connection_loop (nat len + 1) (list_tokens buf len)) (\<lambda>found.
       if \<not> found then Some (Inr (1, c))
       else
         bind_run (lws_hdr_copy (http_ah c) buf 127 WSI_TOKEN_PROTOCOL) (\<lambda>(len, buf).
         if len < 0 then Some (Inr (1, c))
         else if len = 0 then
           let n = unat (default_protocol_index vh) in
           if n \<ge> length (vh_protocols vh) then Some (Inr (1, c))
           else bind_run (Some (lws_bind_protocol cb vh n c)) (\<lambda>(r, c). lws_process_ws_upgrade2 cb ucb vh env c)
         else
           bind_run (protocol_loop (nat len + 1) cb vh (list_tokens buf len) c) (\<lambda>out.
           case out of None \<Rightarrow> Some (Inr (1, c))
           | Some (None, c) \<Rightarrow> Some (Inr (1, c))
           | Some (Some pcol, c) \<Rightarrow> lws_process_ws_upgrade2 cb ucb vh env c))))"

section \<open>Building the response\<close>

text \<open>The buffer from \<open>start\<close> on holds the text; before that it is as it was.\<close>

definition built :: "nat \<Rightarrow> byte list \<Rightarrow> byte list \<Rightarrow> byte list \<Rightarrow> bool" where
  "built start t buf0 buf \<longleftrightarrow> length buf = length buf0 \<and> start + length t \<le> length buf0 \<and> window start (length t) buf = t \<and>
     take start buf = take start buf0"

lemma built_start: "start \<le> length buf0 \<Longrightarrow> built start [] buf0 buf0"
  by (simp add: built_def window_def)

lemma built_store:
  assumes "built start t buf0 buf" and "start + length t + length b \<le> length buf0"
  shows "\<exists>buf'. store_at (start + length t) b buf = Inr buf' \<and> built start (t @ b) buf0 buf'"
proof -
  let ?b = "overwrite (start + length t) b buf"
  have l: "length buf = length buf0" "take start buf = take start buf0" using assms(1) by (simp_all add: built_def)
  have b: "buf = take start buf @ t @ drop (start + length t) buf"
    using assms(1) unfolding built_def window_def by (metis append_take_drop_id add.commute drop_drop)
  have "take (start + length t) buf = take start buf @ t"
    using assms(1) unfolding built_def window_def by (simp add: take_add)
  then have "?b = take start buf @ (t @ b) @ drop (start + length t + length b) buf"
    by (simp add: overwrite_def add.commute add.left_commute)
  moreover have "length (take start buf) = start" using assms(2) l(1) by simp
  ultimately have "built start (t @ b) buf0 ?b" using assms(2) l by (simp add: built_def window_def)
  then show ?thesis using assms(2) l(1) by (auto simp: store_at_def)
qed

lemma built_cut: "built start (t @ e) buf0 buf \<Longrightarrow> built start t buf0 buf"
proof -
  assume a: "built start (t @ e) buf0 buf"
  then have "window start (length t) buf = take (length t) (window start (length (t @ e)) buf)" by (simp add: window_def)
  with a show ?thesis by (simp add: built_def)
qed

lemma built_cpyapp:
  assumes "built start t buf0 buf" and "start + length t + length b + 1 \<le> length buf0"
  shows "\<exists>buf'. LWS_CPYAPP b (start + length t, buf) = Inr (start + length (t @ b), buf') \<and> built start (t @ b) buf0 buf'"
  using built_store [OF assms(1), of "b @ [0]"] built_cut [of start "t @ b" "[0]" buf0] assms(2)
  by (auto simp: LWS_CPYAPP_def)

text \<open>A name that does not fit is cut, and its last byte is the NUL.\<close>

definition shown_name :: "nat \<Rightarrow> byte list \<Rightarrow> byte list" where
  "shown_name sz b = (if length b < sz then b else take (sz - 1) b @ [0])"

lemma built_snprintf:
  assumes "built start t buf0 buf" and "0 < sz" and "start + length t + sz \<le> length buf0"
  shows "\<exists>buf'. lws_snprintf_s sz b (start + length t, buf) = Inr (start + length (t @ shown_name sz b), buf') \<and> built start (t @ shown_name sz b) buf0 buf'"
proof (cases "length b < sz")
  case True
  then show ?thesis
    using built_store [OF assms(1), of "b @ [0]"] built_cut [of start "t @ b" "[0]" buf0] assms(2,3)
    by (auto simp: lws_snprintf_s_def shown_name_def)
next
  case False
  then show ?thesis
    using built_store [OF assms(1), of "take (sz - 1) b @ [0]"] assms(2,3) by (auto simp: lws_snprintf_s_def shown_name_def)
qed

lemma c_string_start: "0 \<notin> set a \<Longrightarrow> c_string (Some (a @ 0 # rest)) = Inr a"
  by (simp add: c_string_def takeWhile_NUL) (metis takeWhile_eq_all_conv)

lemma text_lengths [simp]:
  "length response_head = 97" "length protocol_field = 26" "length crlf = 2" "response_start = 400" "length websocket_guid = 36"
  by (simp_all add: response_head_def protocol_field_def crlf_def response_start_def websocket_guid_def MAX_WEBSOCKET_04_KEY_LEN_def LWS_PRE_def)

lemma length_shown_name: "0 < sz \<Longrightarrow> length (shown_name sz b) \<le> sz"
  by (simp add: shown_name_def)

definition fields_text :: "byte list \<Rightarrow> byte list option \<Rightarrow> byte list" where
  "fields_text accept prot = response_head @ accept @
     (case prot of None \<Rightarrow> [] | Some name \<Rightarrow> protocol_field @ shown_name 128 name) @ crlf"

lemma response_fields_text:
  assumes "take 400 buf = accept @ 0 # rest" and "0 \<notin> set accept" and "length accept + 660 \<le> length buf"
  shows "\<exists>buf'. response_fields (length accept) prot buf = Inr (400 + length (fields_text accept prot), buf') \<and>
     built 400 (fields_text accept prot) buf buf'"
proof -
  have "built 400 [] buf buf" using assms(3) by (intro built_start) simp
  from built_cpyapp [OF this, of response_head] assms(3) obtain b1 where
    1: "LWS_CPYAPP response_head (400, buf) = Inr (497, b1)" "built 400 response_head buf b1" by auto
  have "b1 = take 400 b1 @ drop 400 b1" by simp
  also have "take 400 b1 = accept @ 0 # rest" using 1(2) assms(1) by (simp add: built_def)
  finally have acc: "c_string (Some b1) = Inr accept" using c_string_start [OF assms(2), of "rest @ drop 400 b1"] by (metis append.assoc append_Cons)
  from built_store [OF 1(2), of "accept @ [0]"] assms(3) obtain b2 where
    2: "store_at 497 (accept @ [0]) b1 = Inr b2" "built 400 (response_head @ accept @ [0]) buf b2" by auto
  have b2: "built 400 (response_head @ accept) buf b2" using built_cut [of 400 "response_head @ accept" "[0]"] 2(2) by simp
  obtain b3 where 3: "(case prot of None \<Rightarrow> Inr (497 + length accept, b2)
       | Some name \<Rightarrow> bind_res (LWS_CPYAPP protocol_field (497 + length accept, b2)) (lws_snprintf_s 128 name)) =
       Inr (400 + length (response_head @ accept @ (case prot of None \<Rightarrow> [] | Some name \<Rightarrow> protocol_field @ shown_name 128 name)), b3)"
     "built 400 (response_head @ accept @ (case prot of None \<Rightarrow> [] | Some name \<Rightarrow> protocol_field @ shown_name 128 name)) buf b3"
  proof (cases prot)
    case None
    with b2 that [of b2] show ?thesis by simp
  next
    case (Some name)
    from built_cpyapp [OF b2, of protocol_field] assms(3) obtain b where
      b: "LWS_CPYAPP protocol_field (497 + length accept, b2) = Inr (523 + length accept, b)" "built 400 (response_head @ accept @ protocol_field) buf b"
      by (auto simp: algebra_simps)
    from built_snprintf [OF b(2), of 128 name] assms(3) b(1) Some that show ?thesis by (auto simp: algebra_simps)
  qed
  have "length (case prot of None \<Rightarrow> [] | Some name \<Rightarrow> protocol_field @ shown_name 128 name) \<le> 154"
    using length_shown_name [of 128] by (cases prot) simp_all
  with built_cpyapp [OF 3(2), of crlf] assms(3) 1(1) acc 2(1) 3(1) show ?thesis
    by (auto simp: response_fields_def fields_text_def)
qed

text \<open>The value of \<open>Sec-WebSocket-Accept\<close> in RFC 6455.\<close>

definition accept_key :: "byte list \<Rightarrow> byte list" where
  "accept_key key = base64 (fips_sha1 (key @ websocket_guid))"

lemma accept_key_text: "length (accept_key key) = 28" "0 \<notin> set (accept_key key)"
  using base64_text [of "fips_sha1 (key @ websocket_guid)"] by (simp_all add: accept_key_def length_fips_sha1 encoded_length_def)

lemma handshake_accept_text:
  assumes "length key + 37 \<le> length buf" and "400 \<le> length buf"
  shows "\<exists>buf' rest. handshake_accept key (int (length buf)) buf = Inr (28, buf') \<and> length buf' = length buf \<and>
     take 400 buf' = accept_key key @ 0 # rest"
proof -
  let ?k = "key @ websocket_guid" and ?b = "overwrite 0 (key @ websocket_guid @ [0]) buf"
  have l: "length ?b = length buf" using assms(1) by simp
  have "take (length key + 36) ?b = ?k" using assms(1) by (simp add: overwrite_def)
  then have "lws_SHA1 (take (length key + 36) ?b) = fips_sha1 ?k" by (simp add: lws_SHA1_fips)
  moreover have "lws_b64_encode_string (fips_sha1 ?k) ?b (int (length buf)) =
      Inr (28, overwrite 0 (accept_key key @ [0]) ?b)"
    using lws_b64_encode_string_base64 [of "fips_sha1 ?k" "int (length buf)" ?b] assms(2) l
    by (simp add: accept_key_def length_fips_sha1 encoded_length_def)
  moreover have "take 400 (overwrite 0 (accept_key key @ [0]) ?b) = accept_key key @ 0 # take 371 (drop 29 ?b)"
    using accept_key_text(1) [of key] by (simp add: overwrite_def)
  moreover have "store_at 0 (key @ websocket_guid @ [0]) buf = Inr ?b" using assms(1) by (simp add: store_at_def)
  moreover have "length (overwrite 0 (accept_key key @ [0]) ?b) = length buf"
    using assms accept_key_text(1) [of key] l by simp
  ultimately show ?thesis by (auto simp: handshake_accept_def)
qed

section \<open>Sending the response\<close>

lemma after_write_flags:
  assumes "after_write env b m wsi = Inr (r, wsi')" and "buflist_out wsi = []"
  shows "socket_is_permanently_unusable wsi' = socket_is_permanently_unusable wsi \<and> rxflow_bitmap wsi' = rxflow_bitmap wsi"
proof (cases "m = length b")
  case True
  with assms show ?thesis by (auto simp: after_write_def lws_has_buffered_out_def)
next
  case False
  with assms have "bind_res (lws_buflist_append_segment (malloc_ok env) (drop m b) []) (\<lambda>(r', bl). if r' < 0 then Inr (- 1, wsi)
      else Inr (int (length b), snd (lws_callback_on_writable (wsi\<lparr>buflist_out := bl\<rparr>)))) = Inr (r, wsi')"
    by (simp add: after_write_def lws_has_buffered_out_def)
  then obtain x :: "int \<times> buflist" where "(case x of (r', bl) \<Rightarrow> if r' < 0 then Inr (- 1, wsi)
      else Inr (int (length b), snd (lws_callback_on_writable (wsi\<lparr>buflist_out := bl\<rparr>)))) = (Inr (r, wsi') :: (int \<times> lws) res)"
    by (rule bind_res_InrE)
  then show ?thesis
    by (cases x) (auto simp: lws_callback_on_writable_def request_pollout_def split: if_split_asm)
qed

lemma issue_raw_flags:
  assumes "lws_issue_raw env (Some b) wsi = Inr (r, wsi')" and "send_answer env \<noteq> Send_failed" and "buflist_out wsi = []" and "b \<noteq> []"
    and "lwsi_state wsi \<noteq> LRS_FLUSHING_BEFORE_CLOSE"
  shows "socket_is_permanently_unusable wsi' = socket_is_permanently_unusable wsi \<and> rxflow_bitmap wsi' = rxflow_bitmap wsi"
proof -
  let ?o = "lws_ssl_capable_write_no_ssl env (take (min (send_limit wsi) (length b)) b) wsi"
  have o: "fst ?o \<noteq> LWS_SSL_CAPABLE_ERROR" "buflist_out (snd ?o) = []" "rxflow_bitmap (snd ?o) = rxflow_bitmap wsi"
     "socket_is_permanently_unusable (snd ?o) = socket_is_permanently_unusable wsi"
    using assms(2,3) by (auto simp: lws_ssl_capable_write_no_ssl_def LWS_SSL_CAPABLE_ERROR_def LWS_SSL_CAPABLE_MORE_SERVICE_def split: send_answer.splits)
  have "after_write env b (nat (fst ?o)) (snd ?o\<lparr>could_have_pending := True\<rparr>) = Inr (r, wsi')"
    using assms(1,3-5) o(1) by (simp add: lws_issue_raw_def lws_has_buffered_out_def split_def Let_def)
  from after_write_flags [OF this] o show ?thesis by simp
qed

lemma http_headers_write: "is_http_write LWS_WRITE_HTTP_HEADERS"
  by (simp add: is_http_write_def write_type_defs)

lemma write_headers:
  assumes "buflist_out wsi = []" and "b \<noteq> []" and "length b < 2 ^ 31" and "lwsi_state wsi \<noteq> LRS_FLUSHING_BEFORE_CLOSE"
    and "accepts env (min (send_limit wsi) (length b))"
  shows "\<exists>wsi'. lws_write env None b LWS_WRITE_HTTP_HEADERS wsi = Inr (int (length b), wsi') \<and> out_ok wsi' \<and>
     stream wsi' = stream wsi @ b \<and> same_conn wsi wsi' \<and>
     socket_is_permanently_unusable wsi' = socket_is_permanently_unusable wsi \<and> rxflow_bitmap wsi' = rxflow_bitmap wsi"
proof -
  let ?w = "reset_ping_wait wsi"
  have w: "buflist_out ?w = []" "lwsi_state ?w \<noteq> LRS_FLUSHING_BEFORE_CLOSE" "send_limit ?w = send_limit wsi" "stream ?w = stream wsi"
     "same_conn wsi ?w" "socket_is_permanently_unusable ?w = socket_is_permanently_unusable wsi" "rxflow_bitmap ?w = rxflow_bitmap wsi"
    using assms(1,4) by (simp_all add: reset_ping_wait_def send_limit_def stream_def same_conn_def)
  from issue_raw_accepts [OF w(1) assms(2) w(2)] assms(5) w(3) obtain wsi' where
    i: "lws_issue_raw env (Some b) ?w = Inr (int (length b), wsi')" "out_ok wsi'" "stream wsi' = stream ?w @ b" "same_conn ?w wsi'" by auto
  have "send_answer env \<noteq> Send_failed" using assms(5) by (auto simp: accepts_def)
  with issue_raw_flags [OF i(1) _ w(1) assms(2) w(2)] i w same_conn_trans [OF w(5) i(4)] length_small [OF assms(3)] show ?thesis
    by (simp add: lws_write_def rops_write_role_protocol_ws_def http_headers_write Let_def)
qed

section \<open>The handshake\<close>

definition upgrade_response :: "byte list \<Rightarrow> byte list option \<Rightarrow> byte list \<Rightarrow> byte list" where
  "upgrade_response key prot added = fields_text (accept_key key) prot @ added @ crlf"

text \<open>A connection whose queue is empty, at whose socket the response is accepted, and the buffer of the
  thread has its size.\<close>

definition can_answer :: "upgrade_env \<Rightarrow> http_conn \<Rightarrow> bool" where
  "can_answer env c \<longleftrightarrow> buflist_out (conn_lws c) = [] \<and> length (serv_buf c) = pt_serv_buf_size (conn_lws c) \<and>
     800 + length (added_headers env) \<le> pt_serv_buf_size (conn_lws c) \<and> pt_serv_buf_size (conn_lws c) < 2 ^ 31"

lemma length_fields_text: "length (fields_text (accept_key key) prot) \<le> 281"
  using length_shown_name [of 128] accept_key_text(1) [of key] by (cases prot) (simp_all add: fields_text_def)

lemma response_size:
  assumes "can_answer env c"
  shows "upgrade_response key prot (added_headers env) \<noteq> []" "length (upgrade_response key prot (added_headers env)) < 2 ^ 31"
  using length_fields_text [of key prot] assms by (simp_all add: upgrade_response_def can_answer_def crlf_def)

lemma send_response_text:
  assumes "built 400 t buf0 (serv_buf c)" and "p = 400 + length t" and "length t + 403 \<le> length buf0"
  shows "\<exists>buf. send_response env p c =
     bind_res (lws_write (socket env) None (t @ crlf) LWS_WRITE_HTTP_HEADERS (conn_lws c)) (\<lambda>(n, wsi).
       let c = c\<lparr>serv_buf := buf, conn_lws := wsi\<rparr> in
       if n \<noteq> int (length (t @ crlf)) then Inr (-1, c)
       else Inr (0, c\<lparr>conn_lws := wsi\<lparr>lwsi_state := LRS_ESTABLISHED, lws_rx_parse_state := LWS_RXPS_NEW\<rparr>\<rparr>)) \<and> length buf = length buf0"
proof -
  from built_cpyapp [OF assms(1), of crlf] assms(3) obtain buf where
    b: "LWS_CPYAPP crlf (400 + length t, serv_buf c) = Inr (400 + length (t @ crlf), buf)" "built 400 (t @ crlf) buf0 buf" by auto
  have "window 400 (length (t @ crlf)) buf = t @ crlf" "length buf = length buf0" using b(2) by (simp_all add: built_def)
  with b(1) show ?thesis unfolding send_response_def assms(2) by (intro exI [of _ buf]) simp
qed

lemma add_headers_text:
  assumes "built 400 t buf0 buf" and "bound c = Some i" and "cb i CB_ADD_HEADERS = 0" and "400 + length t + length added \<le> length buf0"
  shows "\<exists>buf'. add_headers cb added (400 + length t, buf) c =
      Inr (True, 400 + length (t @ added), c\<lparr>http_calls := http_calls c @ [(i, CB_ADD_HEADERS)], serv_buf := buf'\<rparr>) \<and> built 400 (t @ added) buf0 buf'"
  using built_store [OF assms(1,4)] assms(2,3) by (auto simp: add_headers_def call_http_def)

definition request_key :: "allocated_headers \<Rightarrow> byte list" where
  "request_key ah = takeWhile (\<lambda>c. c \<noteq> 0) (hd (hdr_values ah WSI_TOKEN_KEY))"

lemma length_takeWhile_first: "hdr_text ah h \<noteq> [] \<Longrightarrow> length (takeWhile P (hd (hdr_values ah h))) \<le> length (hdr_text ah h)"
  using length_first_value [of ah h] length_takeWhile_le [of P "hd (hdr_values ah h)"] by linarith

lemma handshake_key:
  assumes "linked_headers ah" and "hdr_text ah WSI_TOKEN_KEY \<noteq> []"
  shows "bind_res (lws_hdr_simple_ptr (Some ah) WSI_TOKEN_KEY) c_string = Inr (request_key ah)"
  using simple_ptr [OF assms] by (auto simp: request_key_def)

text \<open>Up to the headers of the application.\<close>

lemma handshake_0405_fields:
  assumes ah: "http_ah c = Some ah" "linked_headers ah" and host: "hdr_text ah WSI_TOKEN_HOST \<noteq> []"
    and key: "hdr_text ah WSI_TOKEN_KEY \<noteq> []" "length (hdr_text ah WSI_TOKEN_KEY) < 128" and ans: "can_answer env c"
    and t: "t = fields_text (accept_key (request_key ah)) (if hdr_text ah WSI_TOKEN_PROTOCOL \<noteq> [] then told_protocol vh c else None)"
  shows "\<exists>b1 b2. built 400 t b1 b2 \<and> length b1 = length (serv_buf c) \<and> handshake_0405 cb vh env c =
     bind_run (Some (add_headers cb (added_headers env) (400 + length t, b2) c)) (\<lambda>(ok, p, c).
       if \<not> ok then Some (Inr (-1, c)) else Some (send_response env p c))"
proof -
  let ?key = "request_key ah" and ?n = "pt_serv_buf_size (conn_lws c)"
  let ?prot = "if hdr_text ah WSI_TOKEN_PROTOCOL \<noteq> [] then told_protocol vh c else None"
  have n: "length (serv_buf c) = ?n" "800 \<le> ?n" using ans by (simp_all add: can_answer_def)
  have "length ?key \<le> 127" using length_takeWhile_first [OF key(1), of "\<lambda>c. c \<noteq> 0"] key(2) by (simp add: request_key_def)
  with handshake_accept_text [of ?key "serv_buf c"] n obtain b1 rest where
    1: "handshake_accept ?key (int ?n) (serv_buf c) = Inr (28, b1)" "length b1 = ?n" "take 400 b1 = accept_key ?key @ 0 # rest" by auto
  from response_fields_text [OF 1(3) accept_key_text(2), of ?prot] 1(2) n(2) accept_key_text(1) [of ?key] obtain b2 where
    2: "response_fields 28 ?prot b1 = Inr (400 + length t, b2)" "built 400 t b1 b2" unfolding t by auto
  have "handshake_0405 cb vh env c =
     bind_run (Some (add_headers cb (added_headers env) (400 + length t, b2) c)) (\<lambda>(ok, p, c).
       if \<not> ok then Some (Inr (-1, c)) else Some (send_response env p c))"
    unfolding handshake_0405_def ah(1) total_length [OF ah(2)] handshake_key [OF ah(2) key(1)]
    using host key 1(1) 2(1) by (simp add: MAX_WEBSOCKET_04_KEY_LEN_def)
  then show ?thesis using 2(2) 1(2) n(1) by auto
qed

lemma handshake_0405_answer:
  assumes ah: "http_ah c = Some ah" "linked_headers ah" and host: "hdr_text ah WSI_TOKEN_HOST \<noteq> []"
    and key: "hdr_text ah WSI_TOKEN_KEY \<noteq> []" "length (hdr_text ah WSI_TOKEN_KEY) < 128"
    and cb: "bound c = Some i" "cb i CB_ADD_HEADERS = 0" and ans: "can_answer env c"
    and t: "t = upgrade_response (request_key ah) (if hdr_text ah WSI_TOKEN_PROTOCOL \<noteq> [] then told_protocol vh c else None) (added_headers env)"
  shows "\<exists>buf. handshake_0405 cb vh env c = Some
     (bind_res (lws_write (socket env) None t LWS_WRITE_HTTP_HEADERS (conn_lws c)) (\<lambda>(n, wsi).
       let c = c\<lparr>http_calls := http_calls c @ [(i, CB_ADD_HEADERS)], serv_buf := buf, conn_lws := wsi\<rparr> in
       if n \<noteq> int (length t) then Inr (-1, c)
       else Inr (0, c\<lparr>conn_lws := wsi\<lparr>lwsi_state := LRS_ESTABLISHED, lws_rx_parse_state := LWS_RXPS_NEW\<rparr>\<rparr>)))"
proof -
  let ?f = "fields_text (accept_key (request_key ah)) (if hdr_text ah WSI_TOKEN_PROTOCOL \<noteq> [] then told_protocol vh c else None)"
  let ?added = "added_headers env"
  obtain b1 b2 where 1: "built 400 ?f b1 b2" "length b1 = length (serv_buf c)" "handshake_0405 cb vh env c =
     bind_run (Some (add_headers cb ?added (400 + length ?f, b2) c)) (\<lambda>(ok, p, c).
       if \<not> ok then Some (Inr (-1, c)) else Some (send_response env p c))"
    using handshake_0405_fields [where cb = cb, OF ah host key ans refl] by blast
  have room: "length ?f \<le> 281" "800 + length ?added \<le> length b1" using ans 1(2) length_fields_text by (simp_all add: can_answer_def)
  from add_headers_text [where c = c and added = ?added and cb = cb, OF 1(1) cb] room obtain b3 where
    3: "add_headers cb ?added (400 + length ?f, b2) c =
      Inr (True, 400 + length (?f @ ?added), c\<lparr>http_calls := http_calls c @ [(i, CB_ADD_HEADERS)], serv_buf := b3\<rparr>)"
      "built 400 (?f @ ?added) b1 b3" by auto
  let ?c = "c\<lparr>http_calls := http_calls c @ [(i, CB_ADD_HEADERS)], serv_buf := b3\<rparr>"
  have t': "(?f @ ?added) @ crlf = t" by (simp add: t upgrade_response_def)
  from send_response_text [of "?f @ ?added" b1 ?c _ env] 3(2) room obtain b4 where
    "send_response env (400 + length (?f @ ?added)) ?c =
     bind_res (lws_write (socket env) None t LWS_WRITE_HTTP_HEADERS (conn_lws c)) (\<lambda>(n, wsi).
       let c = ?c\<lparr>serv_buf := b4, conn_lws := wsi\<rparr> in
       if n \<noteq> int (length t) then Inr (-1, c)
       else Inr (0, c\<lparr>conn_lws := wsi\<lparr>lwsi_state := LRS_ESTABLISHED, lws_rx_parse_state := LWS_RXPS_NEW\<rparr>\<rparr>))"
    unfolding t' by auto
  then show ?thesis using 1(3) 3(1) by (intro exI [of _ b4]) (simp add: Let_def)
qed

text \<open>A connection in good order, before the upgrade.\<close>

definition upgradable :: "lws \<Rightarrow> bool" where
  "upgradable wsi \<longleftrightarrow> buflist_out wsi = [] \<and> \<not> socket_is_permanently_unusable wsi \<and> \<not> wsistate_pre_close wsi \<and>
     \<not> option_validate_utf8 wsi \<and> \<not> close_when_buffered_out_drained wsi \<and> rxflow_bitmap wsi = 0"

lemma announced_version_total:
  assumes "http_ah c = Some ah" and "linked_headers ah"
  shows "\<exists>v. announced_version c = Some (Inr v)"
proof (cases "hdr_text ah WSI_TOKEN_VERSION = []")
  case True
  then show ?thesis by (simp add: announced_version_def assms(1) total_length [OF assms(2)])
next
  case False
  with simple_ptr [OF assms(2) False] show ?thesis by (auto simp: announced_version_def assms(1) total_length [OF assms(2)])
qed

text \<open>The connection as the handshake finds it.\<close>

definition fresh_ws :: "nat \<Rightarrow> lws \<Rightarrow> lws" where
  "fresh_ws v wsi = wsi\<lparr>lwsi_state := LRS_ESTABLISHED, lwsi_role_client := False, ws := zero_ws\<lparr>ietf_spec_revision := v\<rparr>\<rparr>"

lemma fresh_ws_simps [simp]:
  "buflist_out (fresh_ws v wsi) = buflist_out wsi" "send_limit (fresh_ws v wsi) = send_limit wsi" "stream (fresh_ws v wsi) = stream wsi"
  "lwsi_state (fresh_ws v wsi) = LRS_ESTABLISHED" "pt_serv_buf_size (fresh_ws v wsi) = pt_serv_buf_size wsi"
  "upgradable (fresh_ws v wsi) = upgradable wsi" "ws (fresh_ws v wsi) = zero_ws\<lparr>ietf_spec_revision := v\<rparr>"
  by (simp_all add: fresh_ws_def send_limit_def stream_def upgradable_def)

lemma upgrade2_steps:
  assumes "http_ah c = Some ah" and "linked_headers ah" and "bound c = Some i" and "cb i CB_FILTER_PROTOCOL_CONNECTION = 0" and "ws_malloc env"
  shows "lws_process_ws_upgrade2 cb ucb vh env c =
     bind_run (handshake_0405 cb vh env (c\<lparr>conn_lws := fresh_ws 13 (conn_lws c), http_calls := http_calls c @ [(i, CB_FILTER_PROTOCOL_CONNECTION)]\<rparr>)) (\<lambda>(r, c).
       if r \<noteq> 0 then Some (Inr (1, c))
       else Some (Inr (0, (upd_conn_lws (\<lambda>wsi. snd (lws_server_init_wsi_for_ws ucb (rx_malloc env) (sockopt_ok env) (rx_memory env) wsi)) c)\<lparr>http_ah := None\<rparr>)))"
proof -
  let ?c = "upd_conn_lws (\<lambda>wsi. wsi\<lparr>lwsi_state := LRS_ESTABLISHED, lwsi_role_client := False\<rparr>) c"
  obtain v where v: "announced_version ?c = Some (Inr v)"
    using announced_version_total [of ?c ah] assms(1,2) by (auto simp: upd_conn_lws_def)
  obtain p where p: "lws_hdr_simple_ptr (Some ah) WSI_TOKEN_PROTOCOL = Inr p" using simple_ptr_total [OF assms(2)] by blast
  show ?thesis
    unfolding lws_process_ws_upgrade2_def Let_def using v p assms
    by (cases c) (simp add: upd_conn_lws_def call_http_def fresh_ws_def)
qed

text \<open>After the response: the buffer is allocated and the application is told.\<close>

definition established :: "user_callback \<Rightarrow> byte list \<Rightarrow> lws \<Rightarrow> lws" where
  "established ucb memory wsi = snd (lws_server_init_wsi_for_ws ucb True True memory wsi)"

lemma established_ready:
  assumes "upgradable wsi0" and "ws wsi0 = zero_ws\<lparr>ietf_spec_revision := 13\<rparr>" and "lwsi_role_client wsi0 = False"
    and "out_ok wsi" and "same_conn wsi0 wsi" and "socket_is_permanently_unusable wsi = socket_is_permanently_unusable wsi0"
    and "rxflow_bitmap wsi = rxflow_bitmap wsi0" and "0 < pt_serv_buf_size wsi0"
  shows "idle False (established ucb memory (wsi\<lparr>lwsi_state := LRS_ESTABLISHED, lws_rx_parse_state := LWS_RXPS_NEW\<rparr>))"
    "serving (established ucb memory (wsi\<lparr>lwsi_state := LRS_ESTABLISHED, lws_rx_parse_state := LWS_RXPS_NEW\<rparr>))"
    "stream (established ucb memory (wsi\<lparr>lwsi_state := LRS_ESTABLISHED, lws_rx_parse_state := LWS_RXPS_NEW\<rparr>)) = stream wsi"
  using assms
  by (auto simp: established_def lws_server_init_wsi_for_ws_def call_user_def upd_ws_def Let_def same_conn_def upgradable_def zero_ws_def
      idle_def calm_def message_open_def rx_ok_def rx_mem_def buffer_size_def serving_def out_ok_def stream_def ws_pre_def)

lemma upgrade2_sent:
  assumes ah: "http_ah c = Some ah" "linked_headers ah" and host: "hdr_text ah WSI_TOKEN_HOST \<noteq> []"
    and key: "hdr_text ah WSI_TOKEN_KEY \<noteq> []" "length (hdr_text ah WSI_TOKEN_KEY) < 128"
    and cb: "bound c = Some i" "\<And>reason. cb i reason = 0" and ans: "can_answer env c" and up: "upgradable (conn_lws c)"
    and mem: "ws_malloc env"
    and t: "t = upgrade_response (request_key ah) (if hdr_text ah WSI_TOKEN_PROTOCOL \<noteq> [] then told_protocol vh c else None) (added_headers env)"
    and acc: "accepts (socket env) (min (send_limit (conn_lws c)) (length t))"
  shows "\<exists>c' wsi. lws_process_ws_upgrade2 cb ucb vh env c = Some (Inr (0, c')) \<and> bound c' = Some i \<and> http_ah c' = None \<and>
     conn_lws c' = snd (lws_server_init_wsi_for_ws ucb (rx_malloc env) (sockopt_ok env) (rx_memory env)
       (wsi\<lparr>lwsi_state := LRS_ESTABLISHED, lws_rx_parse_state := LWS_RXPS_NEW\<rparr>)) \<and>
     upgradable (fresh_ws 13 (conn_lws c)) \<and> out_ok wsi \<and> stream wsi = stream (conn_lws c) @ t \<and> same_conn (fresh_ws 13 (conn_lws c)) wsi \<and>
     socket_is_permanently_unusable wsi = socket_is_permanently_unusable (conn_lws c) \<and> rxflow_bitmap wsi = rxflow_bitmap (conn_lws c)"
proof -
  let ?w = "fresh_ws 13 (conn_lws c)"
  let ?c = "c\<lparr>conn_lws := ?w, http_calls := http_calls c @ [(i, CB_FILTER_PROTOCOL_CONNECTION)]\<rparr>"
  have told: "told_protocol vh ?c = told_protocol vh c" by (simp add: told_protocol_def)
  have c: "http_ah ?c = Some ah" "bound ?c = Some i" "conn_lws ?c = ?w" "can_answer env ?c" using ans ah(1) cb(1) by (simp_all add: can_answer_def)
  obtain buf where
    h: "handshake_0405 cb vh env ?c = Some (bind_res (lws_write (socket env) None t LWS_WRITE_HTTP_HEADERS ?w) (\<lambda>(n, wsi).
       let c = ?c\<lparr>http_calls := http_calls ?c @ [(i, CB_ADD_HEADERS)], serv_buf := buf, conn_lws := wsi\<rparr> in
       if n \<noteq> int (length t) then Inr (-1, c)
       else Inr (0, c\<lparr>conn_lws := wsi\<lparr>lwsi_state := LRS_ESTABLISHED, lws_rx_parse_state := LWS_RXPS_NEW\<rparr>\<rparr>)))"
    using handshake_0405_answer [where vh = vh and cb = cb, OF c(1) ah(2) host key c(2) cb(2) c(4)]
    unfolding told c(3) t [symmetric] by blast
  have lt: "t \<noteq> []" "length t < 2 ^ 31" using response_size [OF ans] unfolding t by blast+
  from write_headers [of ?w t "socket env"] up lt acc obtain wsi where
    w: "lws_write (socket env) None t LWS_WRITE_HTTP_HEADERS ?w = Inr (int (length t), wsi)" "out_ok wsi" "stream wsi = stream (conn_lws c) @ t"
       "same_conn ?w wsi" "socket_is_permanently_unusable wsi = socket_is_permanently_unusable ?w" "rxflow_bitmap wsi = rxflow_bitmap ?w"
    by (auto simp: upgradable_def)
  let ?i = "\<lambda>wsi. snd (lws_server_init_wsi_for_ws ucb (rx_malloc env) (sockopt_ok env) (rx_memory env) wsi)"
  let ?e = "?i (wsi\<lparr>lwsi_state := LRS_ESTABLISHED, lws_rx_parse_state := LWS_RXPS_NEW\<rparr>)"
  have "lws_process_ws_upgrade2 cb ucb vh env c = Some (Inr (0, ?c\<lparr>http_calls := http_calls ?c @ [(i, CB_ADD_HEADERS)], serv_buf := buf, conn_lws := ?e, http_ah := None\<rparr>))"
    using upgrade2_steps [OF ah cb(1) _ mem, where cb = cb and ucb = ucb and vh = vh] cb(2) h w(1)
    by (simp add: upd_conn_lws_def Let_def)
  moreover have "socket_is_permanently_unusable ?w = socket_is_permanently_unusable (conn_lws c)" "rxflow_bitmap ?w = rxflow_bitmap (conn_lws c)"
    by (simp_all add: fresh_ws_def)
  ultimately show ?thesis using w(2-6) up cb(1) by (intro exI conjI) (assumption | simp)+
qed

lemma upgrade2_ok:
  assumes "http_ah c = Some ah" "linked_headers ah" and "hdr_text ah WSI_TOKEN_HOST \<noteq> []"
    and "hdr_text ah WSI_TOKEN_KEY \<noteq> []" "length (hdr_text ah WSI_TOKEN_KEY) < 128"
    and "bound c = Some i" "\<And>reason. cb i reason = 0" and "can_answer env c" and "upgradable (conn_lws c)" and "ws_malloc env"
    and "t = upgrade_response (request_key ah) (if hdr_text ah WSI_TOKEN_PROTOCOL \<noteq> [] then told_protocol vh c else None) (added_headers env)"
    and "accepts (socket env) (min (send_limit (conn_lws c)) (length t))" and mem: "rx_malloc env" "sockopt_ok env"
  shows "\<exists>c'. lws_process_ws_upgrade2 cb ucb vh env c = Some (Inr (0, c')) \<and> bound c' = Some i \<and> http_ah c' = None \<and>
     idle False (conn_lws c') \<and> serving (conn_lws c') \<and> stream (conn_lws c') = stream (conn_lws c) @ t"
proof -
  let ?w = "fresh_ws 13 (conn_lws c)"
  obtain c' wsi where 1: "lws_process_ws_upgrade2 cb ucb vh env c = Some (Inr (0, c'))" "bound c' = Some i" "http_ah c' = None"
      "conn_lws c' = established ucb (rx_memory env) (wsi\<lparr>lwsi_state := LRS_ESTABLISHED, lws_rx_parse_state := LWS_RXPS_NEW\<rparr>)"
      "upgradable ?w" "out_ok wsi" "stream wsi = stream (conn_lws c) @ t" "same_conn ?w wsi"
      "socket_is_permanently_unusable wsi = socket_is_permanently_unusable (conn_lws c)" "rxflow_bitmap wsi = rxflow_bitmap (conn_lws c)"
    using upgrade2_sent [where cb = cb and ucb = ucb, OF assms(1-12)] mem unfolding established_def by auto
  moreover have "0 < pt_serv_buf_size ?w" using assms(8) by (simp add: can_answer_def)
  moreover have "lwsi_role_client ?w = False" "socket_is_permanently_unusable ?w = socket_is_permanently_unusable (conn_lws c)"
      "rxflow_bitmap ?w = rxflow_bitmap (conn_lws c)" by (simp_all add: fresh_ws_def)
  ultimately show ?thesis using established_ready [of ?w wsi] by simp
qed

section \<open>The lists of the client\<close>

text \<open>An element of a list: a token with white space around it.\<close>

type_synonym list_item = "byte list \<times> byte list \<times> byte list"

definition item_ok :: "list_item \<Rightarrow> bool" where
  "item_ok = (\<lambda>(a, t, b). list_all tz_whitespace a \<and> list_token t \<and> list_all tz_whitespace b)"

definition item_token :: "list_item \<Rightarrow> byte list" where
  "item_token = (\<lambda>(a, t, b). t)"

definition render_list :: "list_item list \<Rightarrow> byte list" where
  "render_list xs = joined [0x2c] (map (\<lambda>(a, t, b). a @ t @ b) xs)"

definition at_list :: "list_item list \<Rightarrow> byte list \<Rightarrow> lws_tokenize_t \<Rightarrow> bool" where
  "at_list xs rest ts \<longleftrightarrow> tz_flags ts = list_flags \<and> tz_delim ts \<noteq> LWSTZ_DT_NEED_DELIM \<and> tz_start ts = render_list xs @ rest \<and>
     tz_len ts = length (render_list xs)"

lemma render_list_Cons: "render_list ((a, t, b) # xs) = a @ t @ b @ (if xs = [] then [] else 0x2c # render_list xs)"
  by (simp add: render_list_def joined_Cons)

lemma list_step:
  assumes "list_all item_ok (x # xs)" and "at_list (x # xs) rest ts"
  obtains ts1 where "lws_tokenize ts = Inr (LWS_TOKZE_TOKEN, ts1)" and "token_text ts1 = item_token x" and "tz_token_len ts1 = length (item_token x)"
    and "xs = [] \<Longrightarrow> \<exists>ts2. lws_tokenize ts1 = Inr (LWS_TOKZE_ENDED, ts2)"
    and "xs \<noteq> [] \<Longrightarrow> \<exists>ts2. lws_tokenize ts1 = Inr (LWS_TOKZE_DELIMITER, ts2) \<and> at_list xs rest ts2"
proof -
  obtain a t b where x: "x = (a, t, b)" by (cases x) auto
  let ?n = "if xs = [] then 0 else Suc (length (render_list xs))"
  let ?inp = "if xs = [] then rest else 0x2c # render_list xs @ rest"
  have "\<exists>ts'. lws_tokenize ts = Inr (LWS_TOKZE_TOKEN, ts') \<and> token_text ts' = t \<and> tz_token_len ts' = length t \<and> tz_start ts' = ?inp \<and>
      tz_len ts' = ?n \<and> tz_flags ts' = list_flags \<and> tz_delim ts' = LWSTZ_DT_NEED_DELIM"
    by (rule tokenize_token [of a t b]) (use assms in \<open>auto simp: x item_ok_def at_list_def render_list_Cons\<close>)
  then obtain ts1 where
    1: "lws_tokenize ts = Inr (LWS_TOKZE_TOKEN, ts1)" "token_text ts1 = t" "tz_token_len ts1 = length t" "tz_start ts1 = ?inp"
       "tz_len ts1 = ?n" "tz_flags ts1 = list_flags" "tz_delim ts1 = LWSTZ_DT_NEED_DELIM" by blast
  show thesis
  proof (rule that [of ts1])
    assume "xs \<noteq> []"
    then have "tz_start ts1 = 0x2c # render_list xs @ rest" "tz_len ts1 = Suc (length (render_list xs))" using 1(4,5) by simp_all
    from tokenize_comma [OF 1(6,7) this] show "\<exists>ts2. lws_tokenize ts1 = Inr (LWS_TOKZE_DELIMITER, ts2) \<and> at_list xs rest ts2"
      by (auto simp: at_list_def)
  next
    assume "xs = []"
    with tokenize_ended [OF 1(6,7)] 1(5) show "\<exists>ts2. lws_tokenize ts1 = Inr (LWS_TOKZE_ENDED, ts2)" by simp
  qed (use 1 in \<open>simp_all add: x item_token_def\<close>)
qed

lemma strncasecmp_take: "strncasecmp_eq a b n = strncasecmp_eq (take n a) b n"
proof (induction n arbitrary: a b)
  case (Suc n)
  show ?case by (cases a) (use Suc [of "tl a" "tl b"] in \<open>simp_all add: Let_def\<close>)
qed simp

abbreviation names_upgrade :: "list_item \<Rightarrow> bool" where
  "names_upgrade x \<equiv> strncasecmp_eq (item_token x) (bytes_of_string ''upgrade'') (length (item_token x))"

lemma connection_loop_list:
  assumes "list_all item_ok xs" and "xs \<noteq> []" and "at_list xs rest ts" and "2 * length xs \<le> k"
  shows "connection_loop k ts = Some (Inr (list_ex names_upgrade xs))"
  using assms
proof (induction xs arbitrary: ts k)
  case (Cons x xs)
  from list_step [OF Cons.prems(1,3)] obtain ts1 where
    1: "lws_tokenize ts = Inr (LWS_TOKZE_TOKEN, ts1)" "token_text ts1 = item_token x" "tz_token_len ts1 = length (item_token x)"
       "xs = [] \<Longrightarrow> \<exists>ts2. lws_tokenize ts1 = Inr (LWS_TOKZE_ENDED, ts2)"
       "xs \<noteq> [] \<Longrightarrow> \<exists>ts2. lws_tokenize ts1 = Inr (LWS_TOKZE_DELIMITER, ts2) \<and> at_list xs rest ts2" by metis
  obtain k' where k: "k = Suc (Suc k')" using Cons.prems(4) by (cases k; cases "k - 1") auto
  have u: "strncasecmp_eq (tz_token ts1) (bytes_of_string ''upgrade'') (tz_token_len ts1) = names_upgrade x"
    using strncasecmp_take [of "tz_token ts1" _ "tz_token_len ts1"] 1(2,3) by (simp add: token_text_def)
  show ?case
  proof (cases "xs = []")
    case True
    with 1 u k show ?thesis by auto
  next
    case False
    with 1(5) obtain ts2 where "lws_tokenize ts1 = Inr (LWS_TOKZE_DELIMITER, ts2)" "at_list xs rest ts2" by blast
    with Cons.IH [of ts2 k'] Cons.prems False 1(1) u k show ?thesis by auto
  qed
qed simp

fun first_supported :: "lws_vhost \<Rightarrow> list_item list \<Rightarrow> nat option" where
  "first_supported vh [] = None"
| "first_supported vh (x # xs) =
     (case lws_vhost_name_to_protocol vh (item_token x) of Some i \<Rightarrow> Some i | None \<Rightarrow> first_supported vh xs)"

lemma protocol_loop_list:
  assumes "list_all item_ok xs" and "xs \<noteq> []" and "at_list xs rest ts" and "2 * length xs \<le> k" and "list_all (\<lambda>x. length (item_token x) \<le> 62) xs"
  shows "protocol_loop k cb vh ts c =
     (case first_supported vh xs of None \<Rightarrow> Some (Inr (Some (None, c)))
      | Some i \<Rightarrow> bind_run (Some (lws_bind_protocol cb vh i c)) (\<lambda>(r, c). Some (Inr (Some (Some i, c)))))"
  using assms
proof (induction xs arbitrary: ts k)
  case (Cons x xs)
  from list_step [OF Cons.prems(1,3)] obtain ts1 where
    1: "lws_tokenize ts = Inr (LWS_TOKZE_TOKEN, ts1)" "token_text ts1 = item_token x" "tz_token_len ts1 = length (item_token x)"
       "xs = [] \<Longrightarrow> \<exists>ts2. lws_tokenize ts1 = Inr (LWS_TOKZE_ENDED, ts2)"
       "xs \<noteq> [] \<Longrightarrow> \<exists>ts2. lws_tokenize ts1 = Inr (LWS_TOKZE_DELIMITER, ts2) \<and> at_list xs rest ts2" by metis
  obtain k' where k: "k = Suc (Suc k')" using Cons.prems(4) by (cases k; cases "k - 1") auto
  have n: "lws_tokenize_cstr ts1 64 = Some (item_token x)" using 1(2,3) Cons.prems(5) by (simp add: lws_tokenize_cstr_def)
  show ?case
  proof (cases "lws_vhost_name_to_protocol vh (item_token x)")
    case (Some i)
    with 1(1) n k show ?thesis by simp
  next
    case None
    note hit = this
    show ?thesis
    proof (cases "xs = []")
      case True
      with 1 n k hit show ?thesis by auto
    next
      case False
      with 1(5) obtain ts2 where "lws_tokenize ts1 = Inr (LWS_TOKZE_DELIMITER, ts2)" "at_list xs rest ts2" by blast
      with Cons.IH [of ts2 k'] Cons.prems False 1(1) n k hit show ?thesis by auto
    qed
  qed
qed simp

lemma render_list_length: "list_all item_ok xs \<Longrightarrow> 2 * length xs \<le> length (render_list xs) + 1"
proof (induction xs)
  case (Cons x xs)
  obtain a t b where x: "x = (a, t, b)" by (cases x) auto
  obtain c t' where "t = c # t'" using Cons.prems by (cases t) (auto simp: x item_ok_def list_token_def)
  with Cons show ?case by (auto simp: x render_list_Cons)
qed simp

lemma render_list_plain: "list_all item_ok xs \<Longrightarrow> 0 \<notin> set (render_list xs)"
proof (induction xs)
  case Nil
  then show ?case by (simp add: render_list_def)
next
  case (Cons x xs)
  then show ?case
    by (cases x) (auto simp: render_list_Cons item_ok_def list_token_def token_char_def list_all_iff dest: whitespace_ascii)
qed

section \<open>A request is answered\<close>

lemma name_to_protocol_hit:
  "name_to_protocol n ps name = Some i \<Longrightarrow> n \<le> i \<and> i - n < length ps \<and> map_option bytes_of_string (proto_name (ps ! (i - n))) = Some name"
proof (induction n ps name rule: name_to_protocol.induct)
  case (2 n p ps name)
  show ?case
  proof (cases "map_option bytes_of_string (proto_name p) = Some name")
    case False
    from "2.prems" False have "name_to_protocol (n + 1) ps name = Some i" by (simp only: name_to_protocol.simps if_False)
    from "2.IH" [OF False this] have "n + 1 \<le> i" "i - (n + 1) < length ps" "map_option bytes_of_string (proto_name (ps ! (i - (n + 1)))) = Some name" by simp_all
    moreover have "i - n = Suc (i - (n + 1))" using calculation(1) by simp
    ultimately show ?thesis by simp
  qed (use 2 in simp)
qed simp

lemma first_supported_hit:
  assumes "first_supported vh xs = Some i"
  shows "i < length (vh_protocols vh) \<and> (\<exists>x \<in> set xs. map_option bytes_of_string (proto_name (vh_protocols vh ! i)) = Some (item_token x))"
  using assms
proof (induction xs)
  case (Cons x xs)
  then show ?case
    using name_to_protocol_hit [of 0 "vh_protocols vh" "item_token x" i]
    by (cases "lws_vhost_name_to_protocol vh (item_token x)") (auto simp: lws_vhost_name_to_protocol_def)
qed simp

lemma bind_protocol:
  assumes "i < length (vh_protocols vh)" and "\<And>reason. cb i reason = 0"
  shows "\<exists>c'. lws_bind_protocol cb vh i c = Inr (0, c') \<and> bound c' = Some i \<and> http_ah c' = http_ah c \<and> serv_buf c' = serv_buf c \<and>
     conn_lws c' = bind_lws (vh_protocols vh ! i) (conn_lws c)"
  using assms by (auto simp: lws_bind_protocol_def call_http_def Let_def)

lemma upgradable_bind [simp]: "upgradable (bind_lws p wsi) = upgradable wsi" "stream (bind_lws p wsi) = stream wsi"
  "pt_serv_buf_size (bind_lws p wsi) = pt_serv_buf_size wsi" "buflist_out (bind_lws p wsi) = buflist_out wsi"
  by (simp_all add: bind_lws_def upgradable_def stream_def)

lemma strncasecmp_same: "map lower_byte a = map lower_byte b \<Longrightarrow> strncasecmp_eq a b (length a)"
proof (induction a arbitrary: b)
  case (Cons x a)
  then obtain y b' where "b = y # b'" by (cases b) auto
  with Cons show ?case by simp
qed simp

text \<open>The response of RFC 6455: lines, an empty one at the end.\<close>

definition rfc6455_response :: "byte list \<Rightarrow> byte list option \<Rightarrow> byte list \<Rightarrow> byte list" where
  "rfc6455_response key prot added =
     concat (map (\<lambda>l. l @ crlf)
       ([bytes_of_string ''HTTP/1.1 101 Switching Protocols'', bytes_of_string ''Upgrade: WebSocket'', bytes_of_string ''Connection: Upgrade'',
         bytes_of_string ''Sec-WebSocket-Accept: '' @ accept_key key] @
        (case prot of None \<Rightarrow> [] | Some name \<Rightarrow> [bytes_of_string ''Sec-WebSocket-Protocol: '' @ name]))) @ added @ crlf"

lemma upgrade_response_rfc:
  assumes "\<And>name. prot = Some name \<Longrightarrow> length name < 128"
  shows "upgrade_response key prot added = rfc6455_response key prot added"
  using assms
  by (cases prot) (simp_all add: upgrade_response_def rfc6455_response_def fields_text_def response_head_def protocol_field_def shown_name_def)

text \<open>A request that asks for an upgrade, with the protocols \<open>ps\<close> and the key; the protocol the host has for
  it; what the answer says of it.\<close>

definition valid_request :: "allocated_headers \<Rightarrow> list_item list \<Rightarrow> byte list \<Rightarrow> bool" where
  "valid_request ah ps key \<longleftrightarrow> linked_headers ah \<and> hdr_text ah WSI_TOKEN_HOST \<noteq> [] \<and>
     (\<exists>xs. list_all item_ok xs \<and> hdr_text ah WSI_TOKEN_CONNECTION = render_list xs \<and> length (render_list xs) < 127 \<and>
        list_ex (\<lambda>x. map lower_byte (item_token x) = bytes_of_string ''upgrade'') xs) \<and>
     list_all item_ok ps \<and> hdr_text ah WSI_TOKEN_PROTOCOL = render_list ps \<and> length (render_list ps) < 127 \<and>
     list_all (\<lambda>x. length (item_token x) \<le> 62) ps \<and>
     hdr_values ah WSI_TOKEN_KEY = [key] \<and> key \<noteq> [] \<and> 0 \<notin> set key \<and> length key < 128"

definition chosen_protocol :: "lws_vhost \<Rightarrow> list_item list \<Rightarrow> nat option" where
  "chosen_protocol vh ps =
     (if ps = [] then let i = unat (default_protocol_index vh) in if i < length (vh_protocols vh) then Some i else None
      else first_supported vh ps)"

definition answered_protocol :: "lws_vhost \<Rightarrow> list_item list \<Rightarrow> nat \<Rightarrow> byte list option" where
  "answered_protocol vh ps i = (if ps = [] then None else map_option bytes_of_string (proto_name (vh_protocols vh ! i)))"

text \<open>The system gives memory and the socket does not fail.\<close>

definition good_system :: "upgrade_env \<Rightarrow> lws \<Rightarrow> nat \<Rightarrow> bool" where
  "good_system env wsi n \<longleftrightarrow> ws_malloc env \<and> rx_malloc env \<and> sockopt_ok env \<and> length (stack_buf env) = 128 \<and>
     accepts (socket env) (min (send_limit wsi) n)"

lemma copied_list:
  assumes "linked_headers ah" and "list_all item_ok xs" and "hdr_text ah h = render_list xs" and "length (render_list xs) < 127" and "length buf = 128"
  shows "\<exists>buf'. lws_hdr_copy (Some ah) buf 127 h = Some (Inr (int (length (render_list xs)), buf')) \<and> length buf' = 128 \<and>
     (\<exists>rest. at_list xs rest (list_tokens buf' (int (length (render_list xs)))))"
proof -
  have plain: "hdr_copied ah h = render_list xs"
    using render_list_plain [OF assms(2)] hdr_copied_plain [of ah h] assms(3) by simp
  show ?thesis
    using hdr_copy [OF assms(1), of 127 buf h] assms(3-5) unfolding plain
    by (auto simp: at_list_def list_tokens_def lws_tokenize_init_def overwrite_def split: if_splits)
qed

lemma render_list_empty: "list_all item_ok xs \<Longrightarrow> render_list xs = [] \<longleftrightarrow> xs = []"
  using render_list_length [of xs] by (cases xs) (auto simp: render_list_def)

lemma chosen_bound: "chosen_protocol vh ps = Some i \<Longrightarrow> i < length (vh_protocols vh)"
  using first_supported_hit [of vh ps i] by (auto simp: chosen_protocol_def Let_def split: if_splits)

lemma upgrade_choice:
  assumes "http_ah c = Some ah" and "valid_request ah ps key" and "chosen_protocol vh ps = Some i" and "\<And>reason. cb i reason = 0"
    and "length (stack_buf env) = 128"
  shows "\<exists>c1. lws_process_ws_upgrade cb ucb vh env c = lws_process_ws_upgrade2 cb ucb vh env c1 \<and> bound c1 = Some i \<and> http_ah c1 = http_ah c \<and>
     serv_buf c1 = serv_buf c \<and> conn_lws c1 = bind_lws (vh_protocols vh ! i) (conn_lws c)"
proof -
  from assms(2) obtain xs where xs: "list_all item_ok xs" "hdr_text ah WSI_TOKEN_CONNECTION = render_list xs" "length (render_list xs) < 127"
      "list_ex (\<lambda>x. map lower_byte (item_token x) = bytes_of_string ''upgrade'') xs"
    and ps: "list_all item_ok ps" "hdr_text ah WSI_TOKEN_PROTOCOL = render_list ps" "length (render_list ps) < 127"
      "list_all (\<lambda>x. length (item_token x) \<le> 62) ps" and l: "linked_headers ah"
    by (auto simp: valid_request_def)
  have "map lower_byte (bytes_of_string ''upgrade'') = bytes_of_string ''upgrade''"
    by (simp add: bytes_of_string_def byte_of_char_def lower_byte_def)
  then have "names_upgrade x" if "map lower_byte (item_token x) = bytes_of_string ''upgrade''" for x
    by (intro strncasecmp_same) (simp only: that)
  then have up: "list_ex names_upgrade xs" using xs(4) unfolding list_ex_iff by blast
  then have ne: "xs \<noteq> []" by auto
  from copied_list [OF l xs(1-3) assms(5)] obtain b1 rest where
    1: "lws_hdr_copy (Some ah) (stack_buf env) 127 WSI_TOKEN_CONNECTION = Some (Inr (int (length (render_list xs)), b1))" "length b1 = 128"
       "at_list xs rest (list_tokens b1 (int (length (render_list xs))))" by blast
  have con: "connection_loop (nat (int (length (render_list xs))) + 1) (list_tokens b1 (int (length (render_list xs)))) = Some (Inr True)"
    using connection_loop_list [OF xs(1) ne 1(3)] render_list_length [OF xs(1)] up by (simp del: connection_loop.simps)
  have pos: "render_list xs \<noteq> []" using render_list_empty [OF xs(1)] ne by simp
  from copied_list [OF l ps(1-3) 1(2)] obtain b2 rest2 where
    2: "lws_hdr_copy (Some ah) b1 127 WSI_TOKEN_PROTOCOL = Some (Inr (int (length (render_list ps)), b2))"
       "at_list ps rest2 (list_tokens b2 (int (length (render_list ps))))" by blast
  obtain c1 where c1: "lws_bind_protocol cb vh i c = Inr (0, c1)" "bound c1 = Some i" "http_ah c1 = http_ah c" "serv_buf c1 = serv_buf c"
      "conn_lws c1 = bind_lws (vh_protocols vh ! i) (conn_lws c)"
    using bind_protocol [of i vh cb c, OF chosen_bound [OF assms(3)] assms(4)] by blast
  have "lws_process_ws_upgrade cb ucb vh env c = lws_process_ws_upgrade2 cb ucb vh env c1"
  proof (cases "ps = []")
    case True
    then show ?thesis using 1(1) con pos 2(1) assms(1,3) c1(1)
      by (simp add: lws_process_ws_upgrade_def chosen_protocol_def render_list_def Let_def split: if_splits)
  next
    case False
    then have "first_supported vh ps = Some i" "render_list ps \<noteq> []" using assms(3) render_list_empty [OF ps(1)] by (simp_all add: chosen_protocol_def)
    moreover have "protocol_loop (nat (int (length (render_list ps))) + 1) cb vh (list_tokens b2 (int (length (render_list ps)))) c =
        Some (Inr (Some (Some i, c1)))"
      using protocol_loop_list [OF ps(1) False 2(2) _ ps(4), of _ cb vh c] render_list_length [OF ps(1)] calculation(1) c1(1) by (simp del: protocol_loop.simps)
    ultimately show ?thesis using 1(1) con pos 2(1) assms(1) by (simp add: lws_process_ws_upgrade_def)
  qed
  then show ?thesis using c1 by blast
qed

lemma told_answered:
  assumes "chosen_protocol vh ps = Some i" and "list_all item_ok ps" and "list_all (\<lambda>x. length (item_token x) \<le> 62) ps" and "bound c = Some i"
  shows "(if render_list ps \<noteq> [] then told_protocol vh c else None) = answered_protocol vh ps i"
    "\<And>name. answered_protocol vh ps i = Some name \<Longrightarrow> length name < 128"
proof -
  have hit: "\<exists>name. proto_name (vh_protocols vh ! i) = Some name \<and> name \<noteq> [] \<and> length name \<le> 62" if ne: "ps \<noteq> []"
  proof -
    obtain x name where x: "x \<in> set ps" "proto_name (vh_protocols vh ! i) = Some name" "bytes_of_string name = item_token x"
      using first_supported_hit [of vh ps i] assms(1) ne by (auto simp: chosen_protocol_def)
    have "item_token x \<noteq> []" "length (item_token x) \<le> 62"
      using x(1) assms(2,3) by (auto simp: list_all_iff item_ok_def item_token_def list_token_def)
    then show ?thesis using x(2,3) length_bytes_of_string [of name] by auto
  qed
  then show "(if render_list ps \<noteq> [] then told_protocol vh c else None) = answered_protocol vh ps i"
    using assms(4) render_list_empty [OF assms(2)] by (auto simp: told_protocol_def answered_protocol_def)
  show "length name < 128" if "answered_protocol vh ps i = Some name" for name
    using hit that by (auto simp: answered_protocol_def split: if_splits)
qed

section \<open>Every request is dealt with\<close>

lemma tokenize_goes_on:
  assumes "tz_len ts \<le> length (tz_start ts)"
  shows "\<exists>e ts'. lws_tokenize ts = Inr (e, ts') \<and> tz_len ts' \<le> length (tz_start ts') \<and> (tokenize_positive e \<longrightarrow> tz_len ts' < tz_len ts)"
  using lws_tokenize_total [OF assms] lws_tokenize_moves [of ts] by (auto simp: succeeds_iff)

lemma connection_loop_returns:
  assumes "tz_len ts < k" and "tz_len ts \<le> length (tz_start ts)"
  shows "\<exists>b. connection_loop k ts = Some (Inr b)"
  using assms
proof (induction k arbitrary: ts)
  case (Suc k)
  obtain e ts' where t: "lws_tokenize ts = Inr (e, ts')" "tz_len ts' \<le> length (tz_start ts')" "tokenize_positive e \<longrightarrow> tz_len ts' < tz_len ts"
    using tokenize_goes_on [OF Suc.prems(2)] by blast
  with Suc.IH [of ts'] Suc.prems(1) show ?case by (cases e) (auto simp: tokenize_positive_def)
qed simp

text \<open>What binding a protocol leaves alone.\<close>

definition bound_to :: "lws_vhost \<Rightarrow> nat \<Rightarrow> http_conn \<Rightarrow> http_conn \<Rightarrow> bool" where
  "bound_to vh i c c' \<longleftrightarrow> i < length (vh_protocols vh) \<and> bound c' = Some i \<and> http_ah c' = http_ah c \<and> serv_buf c' = serv_buf c \<and>
     conn_lws c' = bind_lws (vh_protocols vh ! i) (conn_lws c)"

lemma bind_protocol_total:
  assumes "i < length (vh_protocols vh)"
  shows "\<exists>r c'. lws_bind_protocol cb vh i c = Inr (r, c') \<and> bound_to vh i c c'"
  using assms by (auto simp: lws_bind_protocol_def call_http_def bound_to_def Let_def)

lemma protocol_loop_returns:
  assumes "tz_len ts < k" and "tz_len ts \<le> length (tz_start ts)"
  shows "returns (\<lambda>out. case out of Some (Some i, c') \<Rightarrow> bound_to vh i c c' | _ \<Rightarrow> True) (protocol_loop k cb vh ts c)"
  using assms
proof (induction k arbitrary: ts)
  case (Suc k)
  obtain e ts' where t: "lws_tokenize ts = Inr (e, ts')" "tz_len ts' \<le> length (tz_start ts')" "tokenize_positive e \<longrightarrow> tz_len ts' < tz_len ts"
    using tokenize_goes_on [OF Suc.prems(2)] by blast
  have more: "returns (\<lambda>out. case out of Some (Some i, c') \<Rightarrow> bound_to vh i c c' | _ \<Rightarrow> True) (protocol_loop k cb vh ts' c)" if "tokenize_positive e"
    using Suc.IH [of ts'] Suc.prems(1) t(2,3) that by simp
  have hit: "\<exists>r c'. lws_bind_protocol cb vh i c = Inr (r, c') \<and> bound_to vh i c c'" if "lws_vhost_name_to_protocol vh name = Some i" for i name
    using name_to_protocol_hit [of 0 "vh_protocols vh" name i] that by (intro bind_protocol_total) (simp add: lws_vhost_name_to_protocol_def)
  show ?case
  proof (cases "e = LWS_TOKZE_TOKEN")
    case True
    then show ?thesis using t(1) more by (auto simp: tokenize_positive_def split: option.split dest!: hit)
  next
    case False
    then show ?thesis using t(1) more by (cases e) (auto simp: tokenize_positive_def)
  qed
qed simp

lemma write_headers_total:
  assumes "buflist_out wsi = []" and "b \<noteq> []" and "length b < 2 ^ 31" and "lwsi_state wsi \<noteq> LRS_FLUSHING_BEFORE_CLOSE" and "sane_send env (Some b) wsi"
  shows "\<exists>n wsi'. lws_write env None b LWS_WRITE_HTTP_HEADERS wsi = Inr (n, wsi')"
proof -
  let ?w = "reset_ping_wait wsi" and ?l = "min (send_limit wsi) (length b)"
  have w: "buflist_out ?w = []" "lwsi_state ?w \<noteq> LRS_FLUSHING_BEFORE_CLOSE" "send_limit ?w = send_limit wsi" using assms(1,4) by simp_all
  have "\<exists>n wsi'. lws_issue_raw env (Some b) ?w = Inr (n, wsi')"
  proof (cases "send_answer env = Send_failed")
    case True
    with w assms(2) show ?thesis
      by (simp add: lws_issue_raw_def lws_has_buffered_out_def lws_ssl_capable_write_no_ssl_def Let_def)
  next
    case False
    have "offered (Some b) wsi = take ?l b" using assms(1) by (simp add: offered_def min_def)
    from write_split [OF assms(5) this False, of ?w] obtain m where
      m: "lws_ssl_capable_write_no_ssl env (take ?l b) ?w = (m, ?w\<lparr>wire := wire ?w @ take (nat m) b\<rparr>)" "nat m \<le> length b" "m \<noteq> LWS_SSL_CAPABLE_ERROR" by blast
    let ?w2 = "?w\<lparr>wire := wire ?w @ take (nat m) b, could_have_pending := True\<rparr>"
    have "buflist_out ?w2 = []" using w(1) by simp
    from after_write_fresh [OF this m(2) assms(2), of env] obtain r wsi' where "after_write env b (nat m) ?w2 = Inr (r, wsi')" by blast
    with w m(1,3) assms(2) show ?thesis by (simp add: lws_issue_raw_def lws_has_buffered_out_def Let_def)
  qed
  then show ?thesis using length_small [OF assms(3)]
    by (simp add: lws_write_def rops_write_role_protocol_ws_def http_headers_write Let_def)
qed

text \<open>The kernel takes no more of a response than it is offered.\<close>

definition sane_socket :: "lws_vhost \<Rightarrow> upgrade_env \<Rightarrow> lws \<Rightarrow> bool" where
  "sane_socket vh env wsi \<longleftrightarrow> (\<forall>key prot p. p \<in> set (vh_protocols vh) \<longrightarrow>
     sane_send (socket env) (Some (upgrade_response key prot (added_headers env))) (bind_lws p wsi))"

lemma handshake_0405_returns:
  assumes ah: "http_ah c = Some ah" "linked_headers ah" and b: "bound c = Some i" and ans: "can_answer env c"
    and st: "lwsi_state (conn_lws c) \<noteq> LRS_FLUSHING_BEFORE_CLOSE"
    and sane: "\<And>key prot. sane_send (socket env) (Some (upgrade_response key prot (added_headers env))) (conn_lws c)"
  shows "\<exists>r c'. handshake_0405 cb vh env c = Some (Inr (r, c'))"
proof (cases "hdr_text ah WSI_TOKEN_HOST = [] \<or> hdr_text ah WSI_TOKEN_KEY = [] \<or> 128 \<le> length (hdr_text ah WSI_TOKEN_KEY)")
  case True
  then show ?thesis by (auto simp: handshake_0405_def ah(1) total_length [OF ah(2)] MAX_WEBSOCKET_04_KEY_LEN_def)
next
  case False
  then have h: "hdr_text ah WSI_TOKEN_HOST \<noteq> []" "hdr_text ah WSI_TOKEN_KEY \<noteq> []" "length (hdr_text ah WSI_TOKEN_KEY) < 128" by simp_all
  show ?thesis
  proof (cases "cb i CB_ADD_HEADERS = 0")
    case True
    let ?t = "upgrade_response (request_key ah) (if hdr_text ah WSI_TOKEN_PROTOCOL \<noteq> [] then told_protocol vh c else None) (added_headers env)"
    have "buflist_out (conn_lws c) = []" using ans by (simp add: can_answer_def)
    from write_headers_total [OF this response_size [OF ans] st sane] obtain n wsi where
      "lws_write (socket env) None ?t LWS_WRITE_HTTP_HEADERS (conn_lws c) = Inr (n, wsi)" by blast
    with handshake_0405_answer [where vh = vh and cb = cb, OF ah h b True ans refl] show ?thesis by (auto simp: Let_def)
  next
    case False
    with handshake_0405_fields [where vh = vh and cb = cb, OF ah h ans refl] b show ?thesis by (auto simp: add_headers_def call_http_def)
  qed
qed

lemma upgrade2_returns:
  assumes ah: "http_ah c = Some ah" "linked_headers ah" and b: "bound c = Some i" and ans: "can_answer env c"
    and sane: "\<And>key prot. sane_send (socket env) (Some (upgrade_response key prot (added_headers env))) (conn_lws c)"
  shows "\<exists>r c'. lws_process_ws_upgrade2 cb ucb vh env c = Some (Inr (r, c')) \<and> (r = 0 \<or> r = 1)"
proof (cases "ws_malloc env \<and> cb i CB_FILTER_PROTOCOL_CONNECTION = 0")
  case True
  let ?c = "c\<lparr>conn_lws := fresh_ws 13 (conn_lws c), http_calls := http_calls c @ [(i, CB_FILTER_PROTOCOL_CONNECTION)]\<rparr>"
  have "sane_send (socket env) (Some t) (conn_lws ?c) = sane_send (socket env) (Some t) (conn_lws c)" for t
    by (simp add: sane_send_def offered_def split: send_answer.split)
  moreover have "can_answer env ?c" using ans by (simp add: can_answer_def)
  ultimately obtain r c' where "handshake_0405 cb vh env ?c = Some (Inr (r, c'))"
    using handshake_0405_returns [of ?c ah i env cb vh] ah b sane by auto
  with upgrade2_steps [OF ah b, of cb env ucb vh] True show ?thesis by auto
next
  case False
  let ?c = "upd_conn_lws (\<lambda>wsi. wsi\<lparr>lwsi_state := LRS_ESTABLISHED, lwsi_role_client := False\<rparr>) c"
  obtain v where v: "announced_version ?c = Some (Inr v)"
    using announced_version_total [of ?c ah] ah by (auto simp: upd_conn_lws_def)
  obtain p where "lws_hdr_simple_ptr (Some ah) WSI_TOKEN_PROTOCOL = Inr p" using simple_ptr_total [OF ah(2)] by blast
  with False v ah(1) b show ?thesis by (auto simp: lws_process_ws_upgrade2_def upd_conn_lws_def call_http_def Let_def)
qed

lemma copied_tokens:
  assumes "linked_headers ah" and "length buf = 128"
  shows "\<exists>len buf'. lws_hdr_copy (Some ah) buf 127 h = Some (Inr (len, buf')) \<and> length buf' = 128 \<and> len < 127"
proof (rule exI, rule exI, intro conjI)
  let ?r = "if hdr_text ah h = [] then (0, overwrite 0 [0] buf)
      else if int (length (hdr_text ah h)) \<ge> 127 then (-1, overwrite 0 [0] buf)
      else (int (length (hdr_text ah h)), overwrite 0 (hdr_copied ah h @ [0]) buf)"
  show "lws_hdr_copy (Some ah) buf 127 h = Some (Inr (fst ?r, snd ?r))" using hdr_copy [OF assms(1), of 127 buf h] assms(2) by simp
  show "length (snd ?r) = 128" using assms(2) by auto
  show "fst ?r < 127" by auto
qed

section \<open>An example\<close>

text \<open>The host of the server has the protocols up to the terminator.\<close>

definition server_vhost :: lws_vhost where
  "server_vhost = \<lparr>vh_protocols = takeWhile (\<lambda>p. proto_callback p \<noteq> None) (protocols 2048), default_protocol_index = 0\<rparr>"

definition demo_key :: "byte list" where
  "demo_key = bytes_of_string ''dGhlIHNhbXBsZSBub25jZQ==''"

definition demo_protocols :: "list_item list" where
  "demo_protocols = [([], bytes_of_string ''chat'', []), ([0x20], bytes_of_string ''monitor'', [])]"

definition demo_headers :: allocated_headers where
  "demo_headers = \<lparr>ah_data = bytes_of_string ''h'' @ [0] @ bytes_of_string ''keep-alive, Upgrade'' @ [0] @ bytes_of_string ''chat, monitor'' @ [0] @ demo_key @ [0],
     frags = [\<lparr>frag_offset = 0, frag_len = 0, nfrag = 0\<rparr>, \<lparr>frag_offset = 0, frag_len = 1, nfrag = 0\<rparr>, \<lparr>frag_offset = 2, frag_len = 19, nfrag = 0\<rparr>,
       \<lparr>frag_offset = 22, frag_len = 13, nfrag = 0\<rparr>, \<lparr>frag_offset = 36, frag_len = 24, nfrag = 0\<rparr>],
     frag_index = (\<lambda>h. case h of WSI_TOKEN_HOST \<Rightarrow> 1 | WSI_TOKEN_CONNECTION \<Rightarrow> 2 | WSI_TOKEN_PROTOCOL \<Rightarrow> 3 | WSI_TOKEN_KEY \<Rightarrow> 4 | _ \<Rightarrow> 0)\<rparr>"

definition demo_http :: http_conn where
  "demo_http = \<lparr>conn_lws = upgraded_lws 0 4096 10, http_ah = Some demo_headers, bound = None, protocol_bind_balance = False,
     bound_vhost_index = None, http_calls = [], serv_buf = replicate 4096 0\<rparr>"

definition demo_env :: upgrade_env where
  "demo_env = \<lparr>ws_malloc = True, rx_malloc = True, rx_memory = [], sockopt_ok = True, stack_buf = replicate 128 0, added_headers = [],
     socket = \<lparr>send_answer = Sent 5, malloc_ok = True\<rparr>\<rparr>"

lemma demo_linked: "linked_headers demo_headers"
proof -
  have n: "{0<..<5} = {1, 2, 3, 4 :: nat}" by auto
  have l: "length (frags demo_headers) = 5" by (simp add: demo_headers_def)
  have "frag_index demo_headers h = 0 \<or> frag_index demo_headers h < 5" for h by (cases h) (simp_all add: demo_headers_def)
  then show ?thesis unfolding linked_headers_def l n
    by (simp add: demo_headers_def demo_key_def bytes_of_string_def byte_of_char_def numeral_eq_Suc)
qed

lemma demo_texts:
  "hdr_values demo_headers WSI_TOKEN_HOST = [bytes_of_string ''h'']" "hdr_values demo_headers WSI_TOKEN_CONNECTION = [bytes_of_string ''keep-alive, Upgrade'']"
  "hdr_values demo_headers WSI_TOKEN_PROTOCOL = [bytes_of_string ''chat, monitor'']" "hdr_values demo_headers WSI_TOKEN_KEY = [demo_key]"
  by (simp_all add: hdr_values_def demo_headers_def frag_text_def window_def demo_key_def bytes_of_string_def numeral_eq_Suc)

lemma demo_request: "valid_request demo_headers demo_protocols demo_key"
proof -
  let ?xs = "[([], bytes_of_string ''keep-alive'', []), ([0x20], bytes_of_string ''Upgrade'', [])]"
  note e = bytes_of_string_def byte_of_char_def item_ok_def list_token_def token_char_def tz_whitespace_def tz_digit_def rfc7230_delims_def
    render_list_def item_token_def lower_byte_def demo_protocols_def
  have "list_all item_ok ?xs" by (simp add: e)
  moreover have "render_list ?xs = bytes_of_string ''keep-alive, Upgrade''" by (simp add: e)
  moreover have "list_ex (\<lambda>x. map lower_byte (item_token x) = bytes_of_string ''upgrade'') ?xs" by (simp add: e)
  moreover have "list_all item_ok demo_protocols" "render_list demo_protocols = bytes_of_string ''chat, monitor''" by (simp_all add: e)
  moreover have "list_all (\<lambda>x. length (item_token x) \<le> 62) demo_protocols" by (simp add: demo_protocols_def item_token_def)
  moreover have "demo_key \<noteq> []" "0 \<notin> set demo_key" "length demo_key < 128" by (simp_all add: e demo_key_def)
  moreover have "bytes_of_string ''h'' \<noteq> []" by (simp add: e)
  ultimately show ?thesis unfolding valid_request_def hdr_text_def demo_texts using demo_linked by (auto intro!: exI [of _ ?xs])
qed

lemma demo_chosen: "chosen_protocol server_vhost demo_protocols = Some 1"
  by (simp add: chosen_protocol_def demo_protocols_def server_vhost_def protocols_def lws_vhost_name_to_protocol_def item_token_def bytes_of_string_def byte_of_char_def)

lemma demo_ready: "http_ah demo_http = Some demo_headers" "can_answer demo_env demo_http" "upgradable (conn_lws demo_http)"
  "stream (conn_lws demo_http) = []" "length (stack_buf demo_env) = 128"
  by (simp_all add: demo_http_def can_answer_def demo_env_def upgraded_lws_def upgradable_def stream_def)

lemma demo_answered: "answered_protocol server_vhost demo_protocols 1 = Some (bytes_of_string ''monitor'')"
  by (simp add: answered_protocol_def server_vhost_def protocols_def demo_protocols_def)

lemma demo_send_limit: "p \<in> set (vh_protocols server_vhost) \<Longrightarrow> 5 \<le> send_limit (bind_lws p (conn_lws demo_http))"
  by (simp add: send_limit_def ws_pre_def)

lemma response_long: "5 \<le> length (upgrade_response key prot added)"
  by (simp add: upgrade_response_def fields_text_def)

lemma demo_system: "good_system (demo_env\<lparr>rx_malloc := True\<rparr>) (bind_lws (vh_protocols server_vhost ! 1) (conn_lws demo_http))
    (length (rfc6455_response demo_key (Some (bytes_of_string ''monitor'')) []))"
  by (simp add: good_system_def demo_env_def accepts_def send_limit_def ws_pre_def rfc6455_response_def)

text \<open>C11. Whatever a client asks for, the upgrade comes to an end: for every table of headers the parser can make (any text, any number
  of fragments), every host and every answer of the application, the walks along the fragments and the loops over the lists of the
  client end, nothing is read or written outside of a buffer, and the request is either accepted or refused.\<close>

theorem upgrade_terminates:
  assumes "http_ah c = Some ah" and "linked_headers ah" and "can_answer env c" and "length (stack_buf env) = 128"
    and "sane_socket vh env (conn_lws c)"
  shows "\<exists>r c'. lws_process_ws_upgrade cb ucb vh env c = Some (Inr (r, c')) \<and> (r = 0 \<or> r = 1)"
proof -
  have up2: "\<exists>r c''. lws_process_ws_upgrade2 cb ucb vh env c' = Some (Inr (r, c'')) \<and> (r = 0 \<or> r = 1)" if "bound_to vh i c c'" for i c'
  proof -
    have "can_answer env c'" "http_ah c' = Some ah" "bound c' = Some i" using that assms(1,3) by (simp_all add: bound_to_def can_answer_def)
    moreover have "sane_send (socket env) (Some (upgrade_response key prot (added_headers env))) (conn_lws c')" for key prot
      using that assms(5) by (auto simp: bound_to_def sane_socket_def)
    ultimately show ?thesis using upgrade2_returns assms(2) by blast
  qed
  obtain len1 b1 where 1: "lws_hdr_copy (Some ah) (stack_buf env) 127 WSI_TOKEN_CONNECTION = Some (Inr (len1, b1))" "length b1 = 128" "len1 < 127"
    using copied_tokens [OF assms(2,4)] by blast
  obtain len2 b2 where 2: "lws_hdr_copy (Some ah) b1 127 WSI_TOKEN_PROTOCOL = Some (Inr (len2, b2))" "length b2 = 128" "len2 < 127"
    using copied_tokens [OF assms(2) 1(2)] by blast
  have n: "nat len1 \<le> 128" "nat len2 \<le> 128" using 1(3) 2(3) by linarith+
  obtain found where f: "connection_loop (nat len1 + 1) (list_tokens b1 len1) = Some (Inr found)"
    using connection_loop_returns [of "list_tokens b1 len1" "nat len1 + 1"] 1(2) n(1) by (auto simp: list_tokens_def lws_tokenize_init_def simp del: connection_loop.simps)
  obtain out where out: "protocol_loop (nat len2 + 1) cb vh (list_tokens b2 len2) c = Some (Inr out)"
      "case out of Some (Some i, c') \<Rightarrow> bound_to vh i c c' | _ \<Rightarrow> True"
    using protocol_loop_returns [of "list_tokens b2 len2" "nat len2 + 1" vh c cb] 2(2) n(2)
    by (auto simp: list_tokens_def lws_tokenize_init_def returns_iff simp del: protocol_loop.simps)
  show ?thesis
  proof (cases "len1 \<le> 0 \<or> \<not> found \<or> len2 \<noteq> 0")
    case True
    with 1(1) 2(1) f out up2 assms(1) show ?thesis
      by (auto simp: lws_process_ws_upgrade_def simp del: connection_loop.simps protocol_loop.simps split: option.splits)
  next
    case False
    with 1(1) 2(1) f up2 assms(1) bind_protocol_total [of "unat (default_protocol_index vh)" vh cb c] show ?thesis
      by (auto simp: lws_process_ws_upgrade_def Let_def not_le simp del: connection_loop.simps protocol_loop.simps)
  qed
qed

theorem upgrade_terminates_witness:
  "\<exists>r c'. lws_process_ws_upgrade (\<lambda>_ _. 1) (\<lambda>_ _. 0) server_vhost demo_env demo_http = Some (Inr (r, c')) \<and> (r = 0 \<or> r = 1)"
proof (rule upgrade_terminates [OF demo_ready(1) demo_linked demo_ready(2,5)])
  show "sane_socket server_vhost demo_env (conn_lws demo_http)"
    using response_long demo_send_limit by (auto simp: sane_socket_def sane_send_def offered_def demo_env_def demo_http_def upgraded_lws_def bind_lws_def)
qed

text \<open>What the request gives the second part of the upgrade.\<close>

lemma request_parts:
  assumes "http_ah c = Some ah" and "valid_request ah ps key" and "chosen_protocol vh ps = Some i" and "\<And>reason. cb i reason = 0"
    and "can_answer env c" and "upgradable (conn_lws c)" and "length (stack_buf env) = 128"
  obtains c1 where "lws_process_ws_upgrade cb ucb vh env c = lws_process_ws_upgrade2 cb ucb vh env c1" and "http_ah c1 = Some ah"
    and "linked_headers ah" and "hdr_text ah WSI_TOKEN_HOST \<noteq> []" and "hdr_text ah WSI_TOKEN_KEY \<noteq> []" and "length (hdr_text ah WSI_TOKEN_KEY) < 128"
    and "bound c1 = Some i" and "can_answer env c1" and "upgradable (conn_lws c1)"
    and "rfc6455_response key (answered_protocol vh ps i) (added_headers env) =
      upgrade_response (request_key ah) (if hdr_text ah WSI_TOKEN_PROTOCOL \<noteq> [] then told_protocol vh c1 else None) (added_headers env)"
    and "conn_lws c1 = bind_lws (vh_protocols vh ! i) (conn_lws c)"
proof -
  have req: "linked_headers ah" "hdr_text ah WSI_TOKEN_HOST \<noteq> []" "list_all item_ok ps" "hdr_text ah WSI_TOKEN_PROTOCOL = render_list ps"
      "list_all (\<lambda>x. length (item_token x) \<le> 62) ps" "hdr_values ah WSI_TOKEN_KEY = [key]" "key \<noteq> []" "0 \<notin> set key" "length key < 128"
    using assms(2) by (simp_all add: valid_request_def)
  have k: "hdr_text ah WSI_TOKEN_KEY = key" "request_key ah = key"
    using req(6,8) by (simp_all add: hdr_text_def request_key_def) (metis takeWhile_eq_all_conv)
  obtain c1 where c1: "lws_process_ws_upgrade cb ucb vh env c = lws_process_ws_upgrade2 cb ucb vh env c1" "bound c1 = Some i"
      "http_ah c1 = Some ah" "serv_buf c1 = serv_buf c" "conn_lws c1 = bind_lws (vh_protocols vh ! i) (conn_lws c)"
    using upgrade_choice [where cb = cb, OF assms(1-4,7)] assms(1) by metis
  note told = told_answered [OF assms(3) req(3,5) c1(2)]
  show thesis
  proof (rule that [of c1])
    show "rfc6455_response key (answered_protocol vh ps i) (added_headers env) =
      upgrade_response (request_key ah) (if hdr_text ah WSI_TOKEN_PROTOCOL \<noteq> [] then told_protocol vh c1 else None) (added_headers env)"
      unfolding req(4) told(1) k(2) using upgrade_response_rfc [OF told(2)] by simp
    show "can_answer env c1" "upgradable (conn_lws c1)" using assms(5,6) c1(4,5) by (simp_all add: can_answer_def)
  qed (use c1 req k in simp_all)
qed

text \<open>C10. The opening handshake: a request with a key whose header \<open>Connection\<close> names the upgrade, in any mixture of case and among
  other tokens, is answered with the bytes RFC 6455 demands: status 101, the digest of the key and, when the client names protocols, the first
  of them that the host has (the default protocol otherwise). The response is built inside the buffer of the thread. Afterwards the connection
  is bound to that protocol and is in the state from which the receiver and the sender work.\<close>

theorem websocket_handshake:
  assumes "http_ah c = Some ah" and "valid_request ah ps key" and "chosen_protocol vh ps = Some i" and "\<And>reason. cb i reason = 0"
    and "can_answer env c" and "upgradable (conn_lws c)"
    and "t = rfc6455_response key (answered_protocol vh ps i) (added_headers env)"
    and "good_system env (bind_lws (vh_protocols vh ! i) (conn_lws c)) (length t)"
  shows "\<exists>c'. lws_process_ws_upgrade cb ucb vh env c = Some (Inr (0, c')) \<and> bound c' = Some i \<and> http_ah c' = None \<and>
     stream (conn_lws c') = stream (conn_lws c) @ t \<and> idle False (conn_lws c') \<and> serving (conn_lws c')"
proof -
  have sys: "ws_malloc env" "rx_malloc env" "sockopt_ok env" "length (stack_buf env) = 128"
      "accepts (socket env) (min (send_limit (bind_lws (vh_protocols vh ! i) (conn_lws c))) (length t))"
    using assms(8) by (simp_all add: good_system_def)
  show ?thesis
  proof (rule request_parts [where cb = cb and ucb = ucb, OF assms(1-6) sys(4)])
    fix c1 assume c1: "lws_process_ws_upgrade cb ucb vh env c = lws_process_ws_upgrade2 cb ucb vh env c1" and a: "http_ah c1 = Some ah" "linked_headers ah"
      "hdr_text ah WSI_TOKEN_HOST \<noteq> []" "hdr_text ah WSI_TOKEN_KEY \<noteq> []" "length (hdr_text ah WSI_TOKEN_KEY) < 128"
      "bound c1 = Some i" and b: "can_answer env c1" "upgradable (conn_lws c1)"
      and t: "rfc6455_response key (answered_protocol vh ps i) (added_headers env) =
        upgrade_response (request_key ah) (if hdr_text ah WSI_TOKEN_PROTOCOL \<noteq> [] then told_protocol vh c1 else None) (added_headers env)"
      and w: "conn_lws c1 = bind_lws (vh_protocols vh ! i) (conn_lws c)"
    have acc: "accepts (socket env) (min (send_limit (conn_lws c1)) (length t))" using sys(5) w by simp
    show ?thesis
      using upgrade2_ok [where ucb = ucb and cb = cb, OF a assms(4) b sys(1) trans [OF assms(7) t] acc sys(2,3)] w c1 by auto
  qed
qed

theorem websocket_handshake_witness:
  "\<exists>c'. lws_process_ws_upgrade (\<lambda>_ _. 0) (\<lambda>_ _. 0) server_vhost demo_env demo_http = Some (Inr (0, c')) \<and> bound c' = Some 1 \<and> http_ah c' = None \<and>
     stream (conn_lws c') = rfc6455_response demo_key (Some (bytes_of_string ''monitor'')) [] \<and> idle False (conn_lws c') \<and> serving (conn_lws c')"
proof -
  have e: "demo_env\<lparr>rx_malloc := True\<rparr> = demo_env" "added_headers demo_env = []" by (simp_all add: demo_env_def)
  show ?thesis
    using websocket_handshake [OF demo_ready(1) demo_request demo_chosen _ demo_ready(2,3) refl, of "\<lambda>_ _. 0" "\<lambda>_ _. 0"] demo_system
    unfolding demo_answered demo_ready(4) e by simp
qed

section \<open>A connection without a buffer\<close>

text \<open>A byte that does not end the loop over the input.\<close>

lemma parse_byte:
  assumes "rxflow_bitmap w = 0" and "\<not> bulk_ready w" and "0 < f"
  shows "parse_loop f cb m h bi (c # bs) w = (case lws_ws_rx_sm cb 0 c w of Inl e \<Rightarrow> Some (Inl e)
     | Inr (r, w') \<Rightarrow> if r < 0 then Some (Inr (- 1, bs, w')) else parse_loop (f - 1) cb m h bi bs w')"
  using assms by (cases f) (simp_all add: bulk_loop.simps split: sum.split prod.split)

lemma ping_without_buffer:
  assumes "ws w = zero_ws\<lparr>ietf_spec_revision := 13\<rparr>" and "rxflow_bitmap w = 0" and "\<not> socket_is_permanently_unusable w"
    and "lws_rx_parse_state w = LWS_RXPS_NEW"
  shows "lws_parse_ws cb m h [0x89, 0x81, k0, k1, k2, k3, b] w = Some (Inl Assertion_failure)"
proof -
  note steps = parse_byte lws_ws_rx_sm_def rx_state_def rx_new_def rx_frame_hdr_1_def hdr_opcode_def rx_frame_hdr_len_def rx_frame_key_def
    set_key_def rx_payload_def bulk_ready_def upd_ws_def opcode_defs zero_ws_def
  show ?thesis unfolding lws_parse_ws_def using assms by (simp add: steps Let_def del: parse_loop.simps)
qed

text \<open>C36. A failure that goes unnoticed: the caller ignores the result of \<open>lws_server_init_wsi_for_ws\<close>. When there is no memory for
  the receive buffer, the response still goes out and the upgrade is reported as done; the first ping the client sends with a byte of payload then fails the
  assertion in the receiver, which ends the process.\<close>

theorem missing_buffer_unnoticed:
  assumes "http_ah c = Some ah" and "valid_request ah ps key" and "chosen_protocol vh ps = Some i" and "\<And>reason. cb i reason = 0"
    and "can_answer env c" and "upgradable (conn_lws c)"
    and "t = rfc6455_response key (answered_protocol vh ps i) (added_headers env)"
    and "good_system (env\<lparr>rx_malloc := True\<rparr>) (bind_lws (vh_protocols vh ! i) (conn_lws c)) (length t)" and "\<not> rx_malloc env"
  shows "\<exists>c'. lws_process_ws_upgrade cb ucb vh env c = Some (Inr (0, c')) \<and> stream (conn_lws c') = stream (conn_lws c) @ t \<and>
     lws_parse_ws ucb m h [0x89, 0x81, k0, k1, k2, k3, b] (conn_lws c') = Some (Inl Assertion_failure)"
proof -
  have sys: "ws_malloc env" "length (stack_buf env) = 128"
      "accepts (socket env) (min (send_limit (bind_lws (vh_protocols vh ! i) (conn_lws c))) (length t))"
    using assms(8) by (simp_all add: good_system_def)
  show ?thesis
  proof (rule request_parts [where cb = cb and ucb = ucb, OF assms(1-6) sys(2)])
    fix c1 assume c1: "lws_process_ws_upgrade cb ucb vh env c = lws_process_ws_upgrade2 cb ucb vh env c1" and a: "http_ah c1 = Some ah" "linked_headers ah"
      "hdr_text ah WSI_TOKEN_HOST \<noteq> []" "hdr_text ah WSI_TOKEN_KEY \<noteq> []" "length (hdr_text ah WSI_TOKEN_KEY) < 128"
      "bound c1 = Some i" and b: "can_answer env c1" "upgradable (conn_lws c1)"
      and t: "rfc6455_response key (answered_protocol vh ps i) (added_headers env) =
        upgrade_response (request_key ah) (if hdr_text ah WSI_TOKEN_PROTOCOL \<noteq> [] then told_protocol vh c1 else None) (added_headers env)"
      and w: "conn_lws c1 = bind_lws (vh_protocols vh ! i) (conn_lws c)"
    have acc: "accepts (socket env) (min (send_limit (conn_lws c1)) (length t))" using sys(3) w by simp
    obtain c' wsi where 1: "lws_process_ws_upgrade2 cb ucb vh env c1 = Some (Inr (0, c'))"
        "conn_lws c' = snd (lws_server_init_wsi_for_ws ucb False (sockopt_ok env) (rx_memory env)
           (wsi\<lparr>lwsi_state := LRS_ESTABLISHED, lws_rx_parse_state := LWS_RXPS_NEW\<rparr>))"
        "stream wsi = stream (conn_lws c) @ t" "same_conn (fresh_ws 13 (conn_lws c1)) wsi"
        "socket_is_permanently_unusable wsi = socket_is_permanently_unusable (conn_lws c1)" "rxflow_bitmap wsi = rxflow_bitmap (conn_lws c1)"
      using upgrade2_sent [where ucb = ucb and cb = cb, OF a assms(4) b sys(1) trans [OF assms(7) t] acc] assms(9) w by auto
    have "ws wsi = zero_ws\<lparr>ietf_spec_revision := 13\<rparr>" using 1(4) by (simp add: same_conn_def)
    moreover have "rxflow_bitmap wsi = 0" "\<not> socket_is_permanently_unusable wsi" using 1(5,6) b(2) by (simp_all add: upgradable_def)
    ultimately have "lws_parse_ws ucb m h [0x89, 0x81, k0, k1, k2, k3, b] (conn_lws c') = Some (Inl Assertion_failure)"
      by (intro ping_without_buffer) (simp_all add: 1(2) lws_server_init_wsi_for_ws_def upd_ws_def zero_ws_def Let_def)
    moreover have "stream (conn_lws c') = stream wsi" by (simp add: 1(2) lws_server_init_wsi_for_ws_def upd_ws_def stream_def Let_def)
    ultimately show ?thesis using c1 1(1,3) by auto
  qed
qed

theorem missing_buffer_unnoticed_witness:
  "\<exists>c'. lws_process_ws_upgrade (\<lambda>_ _. 0) (\<lambda>_ _. 0) server_vhost (demo_env\<lparr>rx_malloc := False\<rparr>) demo_http = Some (Inr (0, c')) \<and>
     stream (conn_lws c') = rfc6455_response demo_key (Some (bytes_of_string ''monitor'')) [] \<and>
     lws_parse_ws (\<lambda>_ _. 0) True False [0x89, 0x81, 1, 2, 3, 4, 0x20] (conn_lws c') = Some (Inl Assertion_failure)"
proof -
  let ?env = "demo_env\<lparr>rx_malloc := False\<rparr>"
  have e: "added_headers ?env = []" "can_answer ?env demo_http" "?env\<lparr>rx_malloc := True\<rparr> = demo_env\<lparr>rx_malloc := True\<rparr>" "\<not> rx_malloc ?env"
    using demo_ready(2) by (simp_all add: demo_env_def can_answer_def)
  show ?thesis
    using missing_buffer_unnoticed [OF demo_ready(1) demo_request demo_chosen _ e(2) demo_ready(3) refl _ e(4), of "\<lambda>_ _. 0" "\<lambda>_ _. 0"] demo_system
    unfolding demo_answered demo_ready(4) e(1,3) by simp
qed

end
