(* ===== verification/Lws_Ping.thy ===== *)
theory Lws_Ping
  imports Lws_Handshake
begin

text \<open>
  Where the library and the server do not fit together: after a ping, in either direction, the library
  leaves \<open>POLLOUT\<close> requested (\<^verbatim>\<open>src/foreign/libwebsockets/lib/roles/ws/ops-ws.c\<close>), so the next time the socket
  is writable it asks the application to write, and the callback of the protocol for lights
  (\<^verbatim>\<open>src/valoserveri/serveri.cpp\<close>) asserts that this does not happen.
\<close>

section \<open>A connection of the protocol for lights\<close>




section \<open>Control frames without payload\<close>









section \<open>Properties\<close>



end
