(* ===== verification/Spec2Isabelle.thy ===== *)
theory Spec2Isabelle
  imports Example_Run Lws_Utf8 Lws_Stream Lws_Rx_Safety Lws_Rx_Stream Lws_Base64 Lws_Sha1 Lws_Pollfd Lws_Ping
begin

text \<open>
  This development verifies \<^emph>\<open>valoserveri\<close>, a server that receives commands for stage lights in UDP
  packets, keeps the channels of a DMX universe, writes them to a serial line and shows the state of
  the lights to web pages over WebSocket. Its own code is in \<^verbatim>\<open>src/valoserveri\<close>; of the
  libraries in \<^verbatim>\<open>src/foreign\<close> the parts it runs on are modelled too.

  \<^bold>\<open>How the parts work together.\<close> \<open>main\<close> makes a logger and reads the configuration (\<open>Config\<close>, on top of
  \<open>INIReader\<close>); \<open>Serveri\<close> builds the \<open>DMXController\<close> from it, opens the UDP socket and creates the context
  of libwebsockets. Its loop \<open>run\<close> polls a table of descriptors that libwebsockets edits through the callbacks
  \<open>LWS_CALLBACK_ADD_POLL_FD\<close> and so on. A packet on the UDP socket goes through \<open>parseLightPacket\<close> to
  \<open>setLightColor\<close>; after a change the frame is written and the JSON message for the monitors is renewed. A ready
  WebSocket descriptor is handed to libwebsockets, which upgrades connections, takes frames apart, and asks the
  callback of the monitor protocol for the message when the socket is writable.

  \<^bold>\<open>Conventions\<close> (\<open>Cpp_Prelude\<close>). A C++ function that may fail is a function into \<open>'a res\<close>: \<open>Inl\<close> is an exception, a
  failed assertion, a violated contract or undefined behaviour, such as an access outside of a buffer. Machine
  integers are words, or numbers with the wrap-around written out. Loops whose end is not obvious take fuel and
  return \<open>'a run\<close>; \<open>None\<close> is running out of it. State is passed explicitly, in records that carry the fields of the
  C++ classes. What the operating system answers (\<open>poll\<close>, \<open>recvfrom\<close>, \<open>send\<close>, \<open>malloc\<close>, \<open>open\<close>, \<open>write\<close>, the clock) is an
  argument; assumptions on it are named predicates such as \<open>round_possible\<close> and \<open>good_system\<close>. Assertions are those of the debug build,
  in which \<open>NDEBUG\<close> is not set and libwebsockets has \<open>_DEBUG\<close>.

  \<^bold>\<open>The theories and the code they model.\<close>

  \<^item> \<open>Span_Lite\<close> (\<^verbatim>\<open>span-lite/include/nonstd/span.hpp\<close>): views of memory with contract checks. Subviews are
    sublists; the check of \<open>subspan\<close> can be passed by wrap-around. Locale \<open>checked_view\<close>.
  \<^item> \<open>Light_Packet\<close> (\<^verbatim>\<open>LightPacket.cpp\<close>): the packet parser, what every byte string means, its bounds, and the
    round trip with the encoder of the Python client in \<^verbatim>\<open>use_examples/instanssiController.py\<close>.
  \<^item> \<open>Inih\<close>, \<open>Config\<close> (\<^verbatim>\<open>inih/INIReader.h\<close>, \<^verbatim>\<open>Config.cpp\<close>): the line parser and the typed settings with
    their errors; what is written as a configuration file is read back. Locales \<open>settings_store\<close>, \<open>config_interface\<close>.
  \<^item> \<open>Logger\<close> (\<^verbatim>\<open>Logger.cpp\<close>): the global logger, its levels and its lifetime. Locale \<open>log_sink\<close>.
  \<^item> \<open>Dmx_Controller\<close> (\<^verbatim>\<open>DMXController.cpp\<close>): the lights of the configuration, the frame and the commands; in a
    sequence of commands the last one for a light decides its channels. Locale \<open>light_display\<close>.
  \<^item> \<open>Json_Serializer\<close> (\<^verbatim>\<open>nlohmann/detail/output/serializer.hpp\<close>): \<open>dump\<close> with its fixed buffers, equal to a
    reference printer, with no overflow of the buffers; strings that are not UTF-8 are errors.
  \<^item> \<open>Serveri\<close>, \<open>Server_Message\<close>, \<open>Server_State\<close>, \<open>Server_Loop\<close> (\<^verbatim>\<open>serveri.cpp\<close>): the server's operations; the text
    of the message for monitors; the invariant \<open>server_ok\<close> and that each operation keeps it; the loop and the table of
    descriptors as a map. The callbacks that the library makes while the server calls it are part of the model: in a callback of the
    server they are the events that follow, in the loop they are the field \<open>poll_calls\<close> of a round. Whatever a round brings, the
    server fails in two ways only: by \<open>std::terminate\<close> after a failed \<open>recvfrom\<close>, and by the assertion of the
    protocol for lights when the library asks it to write. Locales \<open>guarded_loop\<close>, \<open>fd_table\<close>. \<open>Example_Run\<close> is a configuration with a run.
  \<^item> \<open>Lws_Utf8\<close>, \<open>Lws_Tokenize\<close> (\<^verbatim>\<open>libwebsockets/lib/core/libwebsockets.c\<close>): the UTF-8 checker, which accepts what
    the decoder of the serializer accepts, and the tokenizer of header lists.
  \<^item> \<open>Lws_Buflist\<close>, \<open>Lws_Wsi\<close>, \<open>Lws_Output\<close>, \<open>Lws_Ws_Tx\<close>, \<open>Lws_Stream\<close> (\<^verbatim>\<open>core/buflist.c\<close>, \<^verbatim>\<open>core-net/output.c\<close>,
    \<^verbatim>\<open>core-net/service.c\<close>, \<^verbatim>\<open>roles/ws/ops-ws.c\<close>): the queue of unsent bytes, the connection, sending, framing
    and control frames, and the writable event. The bytes on the wire are, in order and without gap, the frames of the messages that
    were asked for while the queue was empty, up to what the socket has taken, however it cuts them; the queue drains when the socket takes bytes. Locale \<open>byte_queue\<close>.
  \<^item> \<open>Lws_Ws_Rx\<close>, \<open>Lws_Rx_Safety\<close>, \<open>Lws_Rx_Stream\<close> (\<^verbatim>\<open>roles/ws/ops-ws.c\<close>, \<^verbatim>\<open>roles/ws/server-ws.c\<close>): the
    receiver, byte by byte and in bulk. For any input it stays in its buffers and ends; the messages of a client that
    keeps the protocol arrive unmasked, however they are cut.
  \<^item> \<open>Lws_Pollfd\<close> (\<^verbatim>\<open>core-net/pollfd.c\<close>, \<^verbatim>\<open>plat/unix/unix-fds.c\<close>): the library's table of descriptors and both forms
    of the lookup by descriptor, with their assertions, none of which fails; it and the server's table stay in step under every sequence of operations. Locale
    \<open>fd_lookup\<close>, interpreted on both forms.
  \<^item> \<open>Lws_Base64\<close>, \<open>Lws_Sha1\<close> (\<^verbatim>\<open>misc/base64-decode.c\<close>, \<^verbatim>\<open>misc/sha-1.c\<close>): equal to reference definitions after
    RFC 4648 and FIPS 180, with the round trip of Base64.
  \<^item> \<open>Lws_Headers\<close>, \<open>Lws_Handshake\<close> (\<^verbatim>\<open>roles/http/server/parsers.c\<close>, \<^verbatim>\<open>roles/ws/server-ws.c\<close>,
    \<^verbatim>\<open>core-net/wsi.c\<close>): access to the headers of a request and the upgrade of a connection. A valid request gets the
    response of RFC 6455, with the first protocol of its list that the server has, and a connection on which the
    receiver and the sender above can start; the upgrade ends on every request.
  \<^item> \<open>Lws_Ping\<close>: the library and the server together on a ping. The second of the two failures above happens: a ping of the client, and
    equally the library's own keep-alive ping, leaves \<open>POLLOUT\<close> requested, and at the next writable event the assertion fails.
  \<^item> This theory: the properties of the program as a whole.

  \<^bold>\<open>Fuel.\<close> The receiver's loop gets two units per byte of input and two more, since a turn that uses no byte is followed
  by one that does; the list loops of the handshake get one unit more than the length of the list, since every
  token takes a byte; a walk along the fragments of a header gets the number of fragments, since every link leads
  further on. The theorems state that the results are there, so no run out of fuel hides behind them.

  \<^bold>\<open>Not modelled.\<close> The HTTP parser that fills the table of headers, HTTP/2, files, mounts, basic authentication, TLS and
  the client side: the server uses none of them beyond the upgrade, and the model takes the parsed headers as given.
  Set-up and tear-down of the library's context and its timers' list: the calls that reach the server from there are
  given by the environment of a round. The extensions of WebSocket: the build leaves them out. Formatting (\<open>fmt\<close>) and
  dates: the few formats used are written out, the time is given by the environment. The text of floating-point
  numbers in JSON is a parameter of \<open>dump\<close>, and the JSON parser is left out: the server only prints values, and no floats. Threads: the server has one.
\<close>

section \<open>The server\<close>



text \<open>C2. In every state the loop can reach from a freshly made server: the DMX frame has its
  header, terminator and length, the tag consists of whitelisted characters, the lights shown
  to monitors are the configured ones (reading them has inserted none), no connection is
  registered twice. The next round, if the system keeps to its interfaces as above, fails only when in it \<open>recvfrom\<close>
  reports an error (then by \<open>std::terminate\<close>) or the library asks the protocol for lights to write (then by an assertion).\<close>

theorem reachable_states_safe:
  assumes "startup_ok sys config" and "logger_ready w" and "Serveri sys config w = Inr s0"
    and "server_loop.reaches (replicate 2048 0, s0) (buf, s)" and "round_possible r"
  shows "wf_packet (dmxPacket (dmx_of s)) \<and> set (tag (currentState s)) \<subseteq> set tagWhitelist \<and>
     map fst (lights (currentState s)) = map fst (lightConfig (dmx_of s)) \<and>
     distinct (map fst (monitorConnections s)) \<and>
     (\<forall>err. run_round r (buf, s) = Inl err \<longrightarrow>
        (err = Terminate \<and> (\<exists>i. dg_len (recvfrom r i) < 0)) \<or>
        (err = Assertion_failure \<and> (\<exists>n. list_ex asks_default (service r n))))"
proof -
  from Serveri_ok [OF assms(1,2)] assms(3) have "loop_ok (replicate 2048 0, s0)" by (simp add: loop_ok_def)
  note ok = server_loop.reaches_good [OF assms(4) this] server_loop.reaches_step [OF assms(4) this assms(5)]
  have "(err = Terminate \<and> (\<exists>i. dg_len (recvfrom r i) < 0)) \<or> (err = Assertion_failure \<and> (\<exists>n. list_ex asks_default (service r n)))"
    if "run_round r (buf, s) = Inl err" for err
    using ok(2) [OF that] by (simp add: round_fault_def recv_fault_def service_fault_def)
  with ok(1) show ?thesis by (auto simp: loop_ok_def server_ok_def server_inv_def wf_dmx_def)
qed

theorem reachable_states_safe_witness:
  "\<exists>s0 buf s. Serveri demo_sys demo_config demo_log = Inr s0 \<and> run_round demo_round (replicate 2048 0, s0) = Inr (False, buf, s) \<and>
     wf_packet (dmxPacket (dmx_of s)) \<and> (\<exists>x. run_round demo_round (buf, s) = Inr x)"
proof -
  obtain s0 where s0: "Serveri demo_sys demo_config demo_log = Inr s0" "server_ok s0" using demo_server by blast
  note safe = reachable_states_safe [OF demo_startup_ok demo_log_ready s0(1) _ demo_round_possible(1)]
  have goes_on: "\<exists>x. run_round demo_round (b, t) = Inr x" if "server_loop.reaches (replicate 2048 0, s0) (b, t)" for b t
    using safe [OF that] by (cases "run_round demo_round (b, t)") (auto simp: demo_round_def)
  obtain ret buf s where x: "run_round demo_round (replicate 2048 0, s0) = Inr (ret, buf, s)"
    using goes_on [OF server_loop.reaches.here] by auto
  have "loop_ok (replicate 2048 0, s0)" using s0(2) by (simp add: loop_ok_def)
  from run_round_ok [OF demo_round_possible(1) this] x have "\<not> ret" by (simp add: demo_round_def)
  moreover have r: "server_loop.reaches (replicate 2048 0, s0) (buf, s)"
    using server_loop.reaches.there [OF server_loop.reaches.here demo_round_possible(1) x] .
  ultimately show ?thesis using safe [OF r] goes_on [OF r] s0(1) x by (intro exI [of _ s0] exI [of _ buf] exI [of _ s]) simp
qed

text \<open>C3. What monitors are told and what the lamps get agree: in every reachable state, if the
  configured lights do not overlap, the frame holds for each light the channels of the colour
  in the state, or the light has not been commanded yet and both are dark.\<close>

theorem frame_matches_state:
  assumes "server_ok s0" and "length buf0 = 2048" and "server_loop.reaches (buf0, s0) (buf, s)"
    and "disjoint_lights (lightConfig (dmx_of s))"
    and "map_of (lights (currentState s)) i = Some c" and "map_of (lightConfig (dmx_of s)) i = Some l"
  shows "light_window (dmx_of s) l = light_channels l c \<or>
     (c = Color \<and> light_window (dmx_of s) l = replicate (channel_count l) 0)"
proof -
  have "server_inv s" using server_loop.reaches_good [OF assms(3)] assms(1,2) by (simp add: loop_ok_def server_ok_def)
  with assms(4,5) have "reflects (dmx_of s) i c" by (simp add: server_inv_def in_step_def)
  with assms(6) show ?thesis by (simp add: reflects_def)
qed

theorem frame_matches_state_witness:
  "light_window demo_dmx \<lparr>light_kind = UV, address = 10, numChannels = 2\<rparr> = light_channels \<lparr>light_kind = UV, address = 10, numChannels = 2\<rparr> Color \<or>
     (Color = Color \<and> light_window demo_dmx \<lparr>light_kind = UV, address = 10, numChannels = 2\<rparr> =
        replicate (channel_count \<lparr>light_kind = UV, address = 10, numChannels = 2\<rparr>) 0)"
  using frame_matches_state [OF demo_state_ok _ server_loop.reaches.here, of "replicate 2048 0" 1 Color]
  by (simp add: demo_state_def demo_lights_disjoint) (simp add: demo_dmx_def)

lemma map_of_set_lights:
  "map_of (fold set_light ls m) i =
     (case map_of m i of None \<Rightarrow> None | Some c \<Rightarrow>
        Some (case map_of (rev (commands ls)) i of None \<Rightarrow> c | Some c' \<Rightarrow> c'))"
proof (induction ls arbitrary: m)
  case (Cons l ls)
  then show ?case
    by (auto simp: commands_def map_of_set_light map_add_def split: option.splits)
qed (simp add: commands_def split: option.splits)

text \<open>C5. A packet: the tag becomes the packet's tag without the characters that are not
  whitelisted; every known light gets the colour of the last command for it and every other
  light keeps its colour; commands for unknown lights change nothing; the state is marked for
  the next update.\<close>

theorem packet_effect:
  assumes "server_ok s" and "wf_span buf" and "span_size buf < 2 ^ 31"
  defines "p \<equiv> packet_spec (span_list buf)"
  shows "succeeds (\<lambda>s'. tag (currentState s') = filter (\<lambda>c. c \<in> init_whitelist) (lp_tag p) \<and> lightsDirty s' \<and>
     dmx_of s' = display.drive (commands (lp_lights p)) (dmx_of s) \<and>
     (\<forall>i. map_of (lights (currentState s')) i =
        (case map_of (lights (currentState s)) i of
           None \<Rightarrow> None
         | Some c \<Rightarrow> Some (case map_of (rev (commands (lp_lights p))) i of None \<Rightarrow> c | Some c' \<Rightarrow> c'))))
     (lightPacket buf s)"
proof -
  have s: "logger_ready (logger s)" "wf_dmx (dmx_of s)" "whitelist s = init_whitelist"
    using assms(1) by (simp_all add: server_ok_def server_inv_def)
  from lightPacket_spec [OF s assms(2)] show ?thesis unfolding p_def
    by (auto simp: succeeds_iff packet_state_def erase_bad_filter map_of_set_lights)
qed

theorem packet_effect_witness:
  "succeeds (\<lambda>s'. tag (currentState s') = ''me'' \<and> lightsDirty s' \<and>
     map_of (lights (currentState s')) 1 = Some \<lparr>red = 9, green = 9, blue = 9\<rparr>)
     (lightPacket (make_span_vector demo_packet) demo_state)"
proof -
  have len: "length demo_packet = 17" by (simp add: demo_packet_def encode_packet_def encode_light_def)
  have p: "packet_spec demo_packet = \<lparr>lp_tag = ''me'', lp_lights =
      [\<lparr>lc_index = 0, lc_color = \<lparr>red = 255, green = 1, blue = 2\<rparr>\<rparr>, \<lparr>lc_index = 1, lc_color = \<lparr>red = 9, green = 9, blue = 9\<rparr>\<rparr>]\<rparr>"
    unfolding demo_packet_def by (subst packet_spec_encode) simp_all
  have "wf_span (make_span_vector demo_packet)" "span_size (make_span_vector demo_packet) < 2 ^ 31" using len by simp_all
  from packet_effect [OF demo_state_ok this] show ?thesis
    by (rule succeeds_mono) (simp add: p init_whitelist_set tagWhitelist_def commands_def demo_state_def)
qed

text \<open>C18. When the state is dirty at the end of a round, the bytes the device takes are a prefix of
  a well-formed frame (the whole frame when \<open>write\<close> takes all 517 bytes), the message becomes
  the text of the state, every monitoring connection is asked to become writable exactly once,
  the modes of descriptors the library changes meanwhile are in the table, and the state is clean.\<close>

theorem dirty_state_is_flushed:
  assumes "server_ok s" and "lightsDirty s"
  shows "succeeds (\<lambda>s'. \<not> lightsDirty s' \<and> wf_packet (dmxPacket (dmx_of s)) \<and>
     tty_stream (dmx_of s') = tty_stream (dmx_of s) @ take (nat (write_result r)) (dmxPacket (dmx_of s)) \<and>
     drop LWS_PRE (monitorMessage s') = bytes_of_string (monitor_text (currentState s)) \<and>
     lws_calls s' = lws_calls s @ map (On_writable \<circ> fst) (monitorConnections s) \<and>
     pollfds s' = fold poll_effect (concat (map (poll_calls r) [0..<length (monitorConnections s)])) (pollfds s) \<and>
     currentState s' = currentState s) (flush_lights r s)"
  using flush_dirty [OF assms, of r] assms(1)
  by (auto simp: succeeds_iff server_ok_def server_inv_def wf_dmx_def)

theorem dirty_state_is_flushed_witness:
  "succeeds (\<lambda>s'. tty_stream (dmx_of s') = dmxPacket demo_dmx \<and> lws_calls s' = [On_writable 9] \<and> map events (pollfds s') = [9, 5])
     (flush_lights demo_round demo_state)"
proof -
  have "lightsDirty demo_state" by (simp add: demo_state_def)
  from dirty_state_is_flushed [OF demo_state_ok this, of demo_round] show ?thesis
    by (rule succeeds_mono) (simp add: demo_state_def demo_round_def demo_dmx_def poll_effect_def)
qed

text \<open>C20. What monitors are sent, from one round to the next: in a round that follows another, both without a failure
  and without an error of \<open>poll\<close>, each monitor the library asks for is handed, once per request and in the order of the requests, the text of the
  state as it was when the earlier round ended, even when a packet of the same round has changed the state
  by then. At the end of the round every change of the state has led to a request for every monitor, and the
  message is the text of the new state.\<close>

theorem monitor_gets_state:
  assumes "server_ok s0" and "length buf0 = 2048" and "round_possible r0" and "run_round r0 (buf0, s0) = Inr (False, buf, s)"
    and "round_possible r" and "run_round r (buf, s) = Inr (False, buf', s')"
  shows "\<exists>calls. lws_calls s' = lws_calls s @ calls \<and>
     monitor_writes calls = map (\<lambda>e. (ev_wsi e, bytes_of_string (monitor_text (currentState s))))
       (filter asks_monitor (concat (map (service r) [0..<deferred r (buf, s)]))) \<and>
     (currentState s' \<noteq> currentState s \<longrightarrow> (\<forall>w \<in> fst ` set (monitorConnections s'). On_writable w \<in> set calls)) \<and>
     drop LWS_PRE (monitorMessage s') = bytes_of_string (monitor_text (currentState s'))"
proof -
  have "loop_ok (buf0, s0)" using assms(1,2) by (simp add: loop_ok_def)
  from run_round_ok [OF assms(3) this] assms(4) have 1: "loop_ok (buf, s)" "\<not> lightsDirty s" by (auto simp: told_def)
  from run_round_ok [OF assms(5) 1(1)] assms(6) have 2: "loop_ok (buf', s')" "told r (buf, s) s'" by auto
  have "drop LWS_PRE (monitorMessage s) = bytes_of_string (monitor_text (currentState s))"
    "drop LWS_PRE (monitorMessage s') = bytes_of_string (monitor_text (currentState s'))"
    using 1 2 by (simp_all add: told_def loop_ok_def server_ok_def message_current_def)
  with 2(2) show ?thesis by (auto simp: told_def)
qed

theorem monitor_gets_state_witness:
  "\<exists>s buf' s' calls. run_round (demo_round\<lparr>pollresult := 0\<rparr>) (replicate 2048 0, demo_state) = Inr (False, replicate 2048 0, s) \<and>
     run_round demo_ask (replicate 2048 0, s) = Inr (False, buf', s') \<and> lws_calls s' = lws_calls s @ calls \<and>
     monitor_writes calls = [(9, bytes_of_string (monitor_text (currentState demo_state)))]"
proof -
  let ?b = "replicate 2048 0"
  obtain s where 1: "run_round (demo_round\<lparr>pollresult := 0\<rparr>) (?b, demo_state) = Inr (False, ?b, s)"
    "currentState s = currentState demo_state" "deferred demo_ask (?b, s) = 1" using demo_first_round by blast
  have "loop_ok (?b, demo_state)" using demo_state_ok by (simp add: loop_ok_def)
  from run_round_ok [OF demo_round_possible(2) [of 0] this] 1(1) have l: "loop_ok (?b, s)" by simp
  obtain buf' s' where 2: "run_round demo_ask (?b, s) = Inr (False, buf', s')"
    using fails_only_succeeds [OF run_round_ok [OF demo_ask_possible l] demo_ask_quiet]
    by (auto simp: succeeds_iff demo_ask_def demo_round_def)
  from monitor_gets_state [OF demo_state_ok _ demo_round_possible(2) 1(1) demo_ask_possible 2] 1(2,3) obtain calls where
    "lws_calls s' = lws_calls s @ calls"
    "monitor_writes calls = map (\<lambda>e. (ev_wsi e, bytes_of_string (monitor_text (currentState demo_state))))
       (filter asks_monitor (concat (map (service demo_ask) [0..<1])))" by auto
  with 1(1) 2 show ?thesis by (auto simp: demo_ask_def asks_monitor_def)
qed

text \<open>C19. The message: for a clean tag and lights numbered from 0 it is made without an exception and
  is the JSON text of the sorted object with the number of lights, the tag and, for each light,
  its colour as six hexadecimal digits.\<close>

theorem monitor_message_content:
  assumes "numbered (lights (currentState s))" and "set (tag (currentState s)) \<subseteq> set tagWhitelist"
  shows "\<exists>m. succeeds (\<lambda>s'. drop LWS_PRE (monitorMessage s') = bytes_of_string (json_text no_floats (JObject m)) \<and>
       currentState s' = currentState s) (updateMonitorMessage s) \<and> sorted_keys m \<and>
     map_of m ''numLights'' = Some (JUnsigned (length (lights (currentState s)))) \<and>
     map_of m ''tag'' = Some (JString (tag (currentState s))) \<and>
     (\<forall>i < length (lights (currentState s)).
        map_of m (''light'' @ to_string i) = Some (JString (color_text (the (map_of (lights (currentState s)) (of_nat i))))))"
  using updateMonitorMessage_text [OF assms] monitor_object_lookup [of "currentState s"]
  by (intro exI [of _ "monitor_object (currentState s)"])
    (auto simp: monitor_text_def light_section_def light_value_def)

theorem monitor_message_content_witness:
  "\<exists>m. succeeds (\<lambda>s'. drop LWS_PRE (monitorMessage s') = bytes_of_string (json_text no_floats (JObject m)))
       (updateMonitorMessage demo_state) \<and> map_of m ''tag'' = Some (JString ''me'')"
proof -
  have "numbered (lights (currentState demo_state))" "set (tag (currentState demo_state)) \<subseteq> set tagWhitelist"
    using demo_state_ok server_inv_numbered by (simp_all add: server_ok_def server_inv_def)
  from monitor_message_content [OF this] show ?thesis by (auto simp: demo_state_def elim: succeeds_mono)
qed

text \<open>C23. One scan of the table after \<open>poll\<close>: when \<open>poll\<close> has counted right, every ready
  descriptor but the UDP socket is put on the list to be served, once and in order, the flags of
  all descriptors are cleared, and the early exit skips none.\<close>

theorem scan_handles_each_once:
  assumes "round_ok r" and "server_ok s" and "length buf = 2048"
    and "int (length (filter ready (store_revents (poll_revents r) (pollfds s)))) = pollresult r"
  defines "ps \<equiv> store_revents (poll_revents r) (pollfds s)"
  shows "succeeds (\<lambda>sc. processFDs sc = filter (\<lambda>p. ready p \<and> fd p \<noteq> UDPfd s) ps \<and>
       pollfds (srv sc) = map cleared ps \<and> count sc = pollresult r)
     (scan_loop r [0..<length ps] \<lparr>srv = s\<lparr>pollfds := ps\<rparr>, buffer = buf, processFDs = [], count = 0\<rparr>)"
proof -
  let ?sc = "\<lparr>srv = s\<lparr>pollfds := ps\<rparr>, buffer = buf, processFDs = [], count = 0\<rparr>"
  have "scan_ok ?sc" using assms(2,3) by (simp add: scan_ok_def)
  from scan_loop_handles [OF assms(1) this, of ps 0] assms(4) show ?thesis
    by (auto simp: ps_def [symmetric] elim!: succeeds_mono)
qed

theorem scan_handles_each_once_witness:
  "succeeds (\<lambda>sc. map fd (processFDs sc) = [7] \<and> count sc = 2)
     (let r = demo_round\<lparr>pollresult := 2, poll_revents := \<lambda>_. 1\<rparr>; ps = store_revents (poll_revents r) (pollfds demo_state)
      in scan_loop r [0..<length ps]
        \<lparr>srv = demo_state\<lparr>pollfds := ps\<rparr>, buffer = replicate 2048 0, processFDs = [], count = 0\<rparr>)"
proof -
  let ?r = "demo_round\<lparr>pollresult := 2, poll_revents := \<lambda>_. 1\<rparr>"
  have r: "round_ok ?r" using demo_round_ok(1) by (simp add: round_ok_def)
  have ps: "store_revents (poll_revents ?r) (pollfds demo_state) =
      [\<lparr>fd = 4, events = 9, revents = 1\<rparr>, \<lparr>fd = 7, events = 1, revents = 1\<rparr>]"
    by (simp add: store_revents_def demo_state_def)
  have n: "int (length (filter ready (store_revents (poll_revents ?r) (pollfds demo_state)))) = pollresult ?r"
    unfolding ps by (simp add: ready_def)
  have "length (replicate 2048 (0 :: byte)) = 2048" by simp
  from scan_handles_each_once [OF r demo_state_ok this n] show ?thesis unfolding Let_def
    by (rule succeeds_mono) (simp add: ready_def demo_state_def store_revents_def)
qed

text \<open>C21. The table of descriptors implements the map the library maintains through its callbacks:
  after any sequence of requests that adds no descriptor twice, no descriptor is in the table
  twice and each is polled for the events last asked for.\<close>

theorem descriptor_table_refines_map:
  assumes "server_ok s" and "distinct (map fd (pollfds s))"
    and "table.disciplined rqs (set (map fd (pollfds s)))"
  shows "succeeds (\<lambda>s'. distinct (map fd (pollfds s')) \<and>
     table_modes (pollfds s') = fold table.meaning rqs (table_modes (pollfds s)))
     (for_each (callback peer w) (map fd_reason rqs) s)"
proof -
  have "server_ok s \<Longrightarrow> succeeds (\<lambda>s'. server_ok s' \<and> pollfds s' = fold table.request rqs (pollfds s))
      (for_each (callback peer w) (map fd_reason rqs) s)" for s
  proof (induction rqs arbitrary: s)
    case (Cons rq rqs)
    show ?case unfolding list.map for_each.simps
      by (rule succeeds_bind [OF callback_request [OF Cons.prems]]) (use Cons.IH in fastforce)
  qed simp
  from this [OF assms(1)] table.requests_table [OF assms(3,2)] show ?thesis
    by (auto elim: succeeds_mono)
qed

theorem descriptor_table_refines_map_witness:
  "succeeds (\<lambda>s'. distinct (map fd (pollfds s')) \<and> table_modes (pollfds s') 8 = Some 4 \<and> table_modes (pollfds s') 7 = None)
     (for_each (callback (\<lambda>_. []) 0) [CB_ADD_POLL_FD 8 1, CB_DEL_POLL_FD 7, CB_CHANGE_MODE_POLL_FD 8 4] demo_state)"
proof -
  let ?rqs = "[(8, Some 1, True), (7, None, False), (8, Some 4, False)]"
  have "distinct (map fd (pollfds demo_state))" "table.disciplined ?rqs (set (map fd (pollfds demo_state)))"
    by (simp_all add: demo_state_def)
  from descriptor_table_refines_map [OF demo_state_ok this, of "\<lambda>_. []" 0] show ?thesis
    by (auto elim!: succeeds_mono)
qed

text \<open>C35. A failing \<open>recvfrom\<close> ends the process: its result -1 becomes a size of
  \<open>2 ^ 64 - 1\<close>, which the view of the buffer rejects by \<open>std::terminate\<close>.\<close>

theorem failed_receive_terminates:
  assumes "logger_ready (logger (srv sc))" and "length (buffer sc) = 2048" and "dg_len dg = -1"
  shows "read_datagram dg sc = Inl Terminate"
  using assms by (rule read_datagram_error)

theorem failed_receive_terminates_witness:
  "read_datagram \<lparr>dg_len = -1, dg_data = [], dg_from = ''0.0.0.0'', dg_port = 0\<rparr>
     \<lparr>srv = demo_state, buffer = replicate 2048 0, processFDs = [], count = 0\<rparr> = Inl Terminate"
  by (rule failed_receive_terminates) (simp_all add: demo_state_def demo_log_ready)

end
